(* ===== verification/Prelude.thy ===== *)
theory Prelude
  imports Main "HOL-Library.Word"
begin

text \<open>
  Shared vocabulary of the development: the faults a kernel thread can run into, results
  that are a fault or a value, C's 32-bit signed arithmetic, bounds-checked arrays, and the
  two locales that turn a fact about one step of a machine into a fact about its runs.
\<close>

named_theorems res_simps \<open>evaluation of results that may be faults\<close>

section \<open>Faults and results\<close>

text \<open>
  What goes wrong at run time in kernel C is a value here. Each constructor names the
  misuse: reading through a null pointer, through a freed object, freeing twice, unlocking
  a mutex the thread does not own, indexing an array out of its bounds, writing past the
  end of a buffer, following a function pointer into unloaded code, using memory that was never
  written, taking the head of a list for one of its entries.
\<close>

datatype fault =
    NullDeref
  | UseAfterFree
  | DoubleFree
  | UnlockNotOwner
  | OutOfBounds
  | BufferOverflow
  | DanglingCall
  | Uninitialised
  | HeadAsEntry

fun rbind :: "fault + 'a \<Rightarrow> ('a \<Rightarrow> fault + 'b) \<Rightarrow> fault + 'b" where
  "rbind (Inl e) f = Inl e"
| "rbind (Inr x) f = f x"

declare rbind.simps [res_simps]

lemma rbind_eq_Inr: "rbind m f = Inr y \<longleftrightarrow> (\<exists>x. m = Inr x \<and> f x = Inr y)"
  by (cases m) auto

lemma rbind_eq_Inl: "rbind m f = Inl e \<longleftrightarrow> m = Inl e \<or> (\<exists>x. m = Inr x \<and> f x = Inl e)"
  by (cases m) auto

lemma rbind_Inr: "rbind m Inr = m"
  by (cases m) auto

lemma rbind_assoc: "rbind (rbind m f) g = rbind m (\<lambda>x. rbind (f x) g)"
  by (cases m) auto

section \<open>C integers\<close>

text \<open>
  An \<open>int\<close> of the code is a mathematical integer kept in the range of 32-bit two's
  complement: every \<open>+\<close>, \<open>-\<close>, \<open>++\<close> and \<open>--\<close> goes through \<open>wrap32\<close>. The kernel is
  compiled with \<open>-fno-strict-overflow\<close>, so signed overflow wraps.
\<close>

definition wrap32 :: "int \<Rightarrow> int" where
  "wrap32 x = (x + 2147483648) mod 4294967296 - 2147483648"

definition inc32 :: "int \<Rightarrow> int" where
  "inc32 x = wrap32 (x + 1)"

definition dec32 :: "int \<Rightarrow> int" where
  "dec32 x = wrap32 (x - 1)"

lemma wrap32_range: "- 2147483648 \<le> wrap32 x \<and> wrap32 x < 2147483648"
  by (simp add: wrap32_def)

lemma wrap32_id: "- 2147483648 \<le> x \<Longrightarrow> x < 2147483648 \<Longrightarrow> wrap32 x = x"
  by (simp add: wrap32_def)

lemma wrap32_idem [simp]: "wrap32 (wrap32 x) = wrap32 x"
  by (simp add: wrap32_def)

lemma wrap32_cong_iff: "wrap32 x = wrap32 y \<longleftrightarrow> x mod 4294967296 = y mod 4294967296"
proof -
  have "wrap32 x = wrap32 y
      \<longleftrightarrow> (x + 2147483648) mod 4294967296 = (y + 2147483648) mod 4294967296"
    by (simp add: wrap32_def)
  also have "\<dots> \<longleftrightarrow> x mod 4294967296 = y mod 4294967296"
  proof
    assume "(x + 2147483648) mod 4294967296 = (y + 2147483648) mod 4294967296"
    from mod_diff_cong [OF this refl [of "2147483648 mod 4294967296"]]
    show "x mod 4294967296 = y mod 4294967296" by simp
  qed (rule mod_add_cong [OF _ refl])
  finally show ?thesis .
qed

lemma wrap32_mod: "wrap32 x mod 4294967296 = x mod 4294967296"
  using wrap32_cong_iff [of "wrap32 x" x] by simp

lemma wrap32_add_left [simp]: "wrap32 (wrap32 x + y) = wrap32 (x + y)"
  unfolding wrap32_cong_iff by (metis mod_add_left_eq wrap32_mod)

lemma wrap32_add_right [simp]: "wrap32 (x + wrap32 y) = wrap32 (x + y)"
  by (metis wrap32_add_left add.commute)

lemma wrap32_diff_left [simp]: "wrap32 (wrap32 x - y) = wrap32 (x - y)"
  unfolding wrap32_cong_iff by (metis mod_diff_left_eq wrap32_mod)

lemma inc32_wrap32: "inc32 (wrap32 x) = wrap32 (x + 1)"
  by (simp add: inc32_def)

lemma dec32_wrap32: "dec32 (wrap32 x) = wrap32 (x - 1)"
  by (simp add: dec32_def)

lemma inc32_id: "- 2147483648 \<le> x \<Longrightarrow> x < 2147483647 \<Longrightarrow> inc32 x = x + 1"
  by (simp add: inc32_def wrap32_id)

lemma dec32_id: "- 2147483648 < x \<Longrightarrow> x < 2147483648 \<Longrightarrow> dec32 x = x - 1"
  by (simp add: dec32_def wrap32_id)

text \<open>\<open>wrap32\<close> is the reading of the low 32 bits as a two's complement number.\<close>

lemma wrap32_sint: "wrap32 x = sint (word_of_int x :: 32 word)"
proof -
  have "sint (word_of_int x :: 32 word) = signed_take_bit 31 x"
    by (simp add: sint_sbintrunc')
  also have "\<dots> = (x + 2147483648) mod 4294967296 - 2147483648"
    by (simp add: signed_take_bit_eq_take_bit_shift take_bit_eq_mod)
  finally show ?thesis by (simp add: wrap32_def)
qed

section \<open>Arrays with bounds\<close>

definition aget :: "'a list \<Rightarrow> int \<Rightarrow> fault + 'a" where
  "aget xs i = (if 0 \<le> i \<and> i < int (length xs) then Inr (xs ! nat i) else Inl OutOfBounds)"

definition aset :: "'a list \<Rightarrow> int \<Rightarrow> 'a \<Rightarrow> fault + 'a list" where
  "aset xs i v = (if 0 \<le> i \<and> i < int (length xs) then Inr (xs[nat i := v]) else Inl OutOfBounds)"

lemma aget_in [res_simps]: "0 \<le> i \<Longrightarrow> i < int (length xs) \<Longrightarrow> aget xs i = Inr (xs ! nat i)"
  by (simp add: aget_def)

lemma aset_in [res_simps]: "0 \<le> i \<Longrightarrow> i < int (length xs) \<Longrightarrow> aset xs i v = Inr (xs[nat i := v])"
  by (simp add: aset_def)

section \<open>Runs of labelled machines\<close>

text \<open>
  A component with many interleaved callers is a labelled step relation. \<open>steps\<close> is its
  reflexive, transitive closure that remembers the labels in order.
\<close>

inductive steps :: "('s \<Rightarrow> 'e \<Rightarrow> 's \<Rightarrow> bool) \<Rightarrow> 's \<Rightarrow> 'e list \<Rightarrow> 's \<Rightarrow> bool"
  for step where
  steps_nil [intro!]: "steps step s [] s"
| steps_cons [intro]: "step s e t \<Longrightarrow> steps step t es u \<Longrightarrow> steps step s (e # es) u"

inductive_cases steps_nilE [elim!]: "steps step s [] t"
inductive_cases steps_consE [elim!]: "steps step s (e # es) t"

lemma steps_one: "step s e t \<Longrightarrow> steps step s [e] t"
  by auto

lemma steps_append: "steps step s es t \<Longrightarrow> steps step t fs u \<Longrightarrow> steps step s (es @ fs) u"
  by (induction rule: steps.induct) auto

text \<open>What a step keeps, a run keeps.\<close>

locale machine =
  fixes step :: "'s \<Rightarrow> 'e \<Rightarrow> 's \<Rightarrow> bool"
    and inv :: "'s \<Rightarrow> bool"
  assumes step_inv: "step s e t \<Longrightarrow> inv s \<Longrightarrow> inv t"
begin

lemma run_inv: "steps step s es t \<Longrightarrow> inv s \<Longrightarrow> inv t"
  by (induction rule: steps.induct) (auto dest: step_inv)

end

text \<open>What each step adds up to modulo \<open>m\<close>, a run adds up to modulo \<open>m\<close>.\<close>

locale tally = machine step inv
  for step :: "'s \<Rightarrow> 'e \<Rightarrow> 's \<Rightarrow> bool" and inv :: "'s \<Rightarrow> bool" +
  fixes weight :: "'s \<Rightarrow> int" and gain :: "'e \<Rightarrow> int" and m :: int
  assumes step_weight: "step s e t \<Longrightarrow> inv s \<Longrightarrow> weight t mod m = (weight s + gain e) mod m"
begin

lemma run_weight:
  "steps step s es t \<Longrightarrow> inv s \<Longrightarrow> weight t mod m = (weight s + sum_list (map gain es)) mod m"
proof (induction rule: steps.induct)
  case (steps_nil s)
  then show ?case by simp
next
  case (steps_cons s e t es u)
  then have "inv t" and w: "weight t mod m = (weight s + gain e) mod m"
    by (auto dest: step_inv step_weight)
  with steps_cons.IH have "weight u mod m = (weight t + sum_list (map gain es)) mod m"
    by simp
  also have "\<dots> = (weight s + gain e + sum_list (map gain es)) mod m"
    by (metis w mod_add_left_eq)
  finally show ?case by (simp add: add.assoc)
qed

end

text \<open>
  A machine that, seen through an abstraction, does one action of a deterministic specification
  in each step.
\<close>

locale simulation = machine step inv
  for step :: "'s \<Rightarrow> 'e \<Rightarrow> 's \<Rightarrow> bool" and inv :: "'s \<Rightarrow> bool" +
  fixes abs :: "'s \<Rightarrow> 'a" and action :: "'s \<Rightarrow> 'e \<Rightarrow> 'c" and perform :: "'c \<Rightarrow> 'a \<Rightarrow> 'a"
  assumes step_sim: "step s e t \<Longrightarrow> inv s \<Longrightarrow> abs t = perform (action s e) (abs s)"
begin

lemma run_sim:
  "steps step s es t \<Longrightarrow> inv s \<Longrightarrow>
     \<exists>acts. length acts = length es \<and> abs t = fold perform acts (abs s)"
proof (induction rule: steps.induct)
  case (steps_nil s)
  then show ?case by simp
next
  case (steps_cons s e t es u)
  then have "inv t" and a: "abs t = perform (action s e) (abs s)" by (auto dest: step_inv step_sim)
  with steps_cons.IH obtain acts where "length acts = length es" "abs u = fold perform acts (abs t)"
    by blast
  then show ?case using a by (intro exI [of _ "action s e # acts"]) simp
qed

end

text \<open>
  A machine of finer steps: through the abstraction each is one step of another machine, or none.
\<close>

locale stuttering = machine step inv
  for step :: "'s \<Rightarrow> 'e \<Rightarrow> 's \<Rightarrow> bool" and inv :: "'s \<Rightarrow> bool" +
  fixes abs :: "'s \<Rightarrow> 'a" and astep :: "'a \<Rightarrow> 'f \<Rightarrow> 'a \<Rightarrow> bool"
  assumes step_stutters: "step s e t \<Longrightarrow> inv s \<Longrightarrow> abs t = abs s \<or> (\<exists>f. astep (abs s) f (abs t))"
begin

lemma run_stutters:
  "steps step s es t \<Longrightarrow> inv s \<Longrightarrow> \<exists>fs. steps astep (abs s) fs (abs t) \<and> length fs \<le> length es"
proof (induction rule: steps.induct)
  case (steps_nil s)
  then show ?case by auto
next
  case (steps_cons s e t es u)
  then obtain fs where fs: "steps astep (abs t) fs (abs u)" "length fs \<le> length es"
    using step_inv by blast
  from step_stutters [OF steps_cons.hyps(1) steps_cons.prems] show ?case
  proof
    assume "abs t = abs s"
    then show ?thesis using fs by (intro exI [of _ fs]) simp
  next
    assume "\<exists>f. astep (abs s) f (abs t)"
    then show ?thesis using fs by (metis (no_types) Suc_le_mono length_Cons steps.steps_cons)
  qed
qed

end

end
