(* ===== verification/KernelApi.thy ===== *)
theory KernelApi
  imports Prelude
begin

text \<open>
  What the modules use of the kernel's own headers, as far as their callers can see it.
  \<^item> \<open>slab.h\<close>: the objects that \<open>kmalloc\<close> handed out and \<open>kfree\<close> has not taken back, as
    a map from addresses to contents. Which address \<open>kmalloc\<close> returns, or that it returns
    \<open>NULL\<close>, is an argument of the operations that allocate.
  \<^item> \<open>list.h\<close>: a \<open>struct list_head\<close> is the sequence of the entries it links, each given by
    its address; \<open>list_entry\<close> is the identity on addresses.
  \<^item> \<open>mutex.h\<close>: a mutex is its owner, if it has one. Whether the interruptible lock was
    taken is the argument \<open>lk\<close>, the value that \<open>mutex_lock_interruptible\<close> returned.
\<close>

type_synonym addr = nat

section \<open>Allocated objects\<close>

definition deref :: "(addr \<rightharpoonup> 'o) \<Rightarrow> addr \<Rightarrow> fault + 'o" where
  "deref h a = (case h a of None \<Rightarrow> Inl UseAfterFree | Some x \<Rightarrow> Inr x)"

definition kfree :: "addr \<Rightarrow> (addr \<rightharpoonup> 'o) \<Rightarrow> fault + (addr \<rightharpoonup> 'o)" where
  "kfree a h = (case h a of None \<Rightarrow> Inl DoubleFree | Some _ \<Rightarrow> Inr (h(a := None)))"

definition store_obj :: "addr \<Rightarrow> 'o \<Rightarrow> (addr \<rightharpoonup> 'o) \<Rightarrow> (addr \<rightharpoonup> 'o)" where
  "store_obj a x h = h(a \<mapsto> x)"

section \<open>Lists\<close>

definition list_add_tail :: "addr \<Rightarrow> addr list \<Rightarrow> addr list" where
  "list_add_tail a xs = xs @ [a]"

definition list_del :: "addr \<Rightarrow> addr list \<Rightarrow> addr list" where
  "list_del a xs = remove1 a xs"

definition list_empty :: "addr list \<Rightarrow> bool" where
  "list_empty xs \<longleftrightarrow> xs = []"

text \<open>
  \<open>list_for_each_safe\<close> reads the successor of an entry before it runs the body, so a body
  that unlinks only its own entry is run once for every entry linked at the start.
\<close>

fun for_each_safe :: "('x \<Rightarrow> 's \<Rightarrow> fault + 's) \<Rightarrow> 'x list \<Rightarrow> 's \<Rightarrow> fault + 's" where
  "for_each_safe body [] s = Inr s"
| "for_each_safe body (x # xs) s = rbind (body x s) (for_each_safe body xs)"

declare for_each_safe.simps [res_simps]

lemma for_each_safe_snoc:
  "for_each_safe body (xs @ [y]) s = rbind (for_each_safe body xs s) (body y)"
proof (induction xs arbitrary: s)
  case Nil
  then show ?case by (cases "body y s") simp_all
next
  case (Cons x xs)
  then show ?case by (cases "body x s") simp_all
qed

text \<open>A counting loop \<open>for (i = 0; i < n; i++)\<close> is the same over its indices.\<close>

definition for_upto :: "nat \<Rightarrow> (nat \<Rightarrow> 's \<Rightarrow> fault + 's) \<Rightarrow> 's \<Rightarrow> fault + 's" where
  "for_upto n body s = for_each_safe body [0..<n] s"

lemma for_upto_0 [res_simps]: "for_upto 0 body s = Inr s"
  by (simp add: for_upto_def)

lemma for_upto_Suc: "for_upto (Suc n) body s = rbind (for_upto n body s) (body n)"
  by (simp add: for_upto_def for_each_safe_snoc)

text \<open>Emptying a list into a local one: \<open>list_for_each_safe\<close> with \<open>list_move_tail\<close>.\<close>

definition move_visit ::
  "addr \<Rightarrow> addr list \<times> addr list \<Rightarrow> fault + (addr list \<times> addr list)" where
  "move_visit temp = (\<lambda>(src, dst). Inr (list_del temp src, list_add_tail temp dst))"

definition move_all :: "addr list \<Rightarrow> addr list \<Rightarrow> fault + (addr list \<times> addr list)" where
  "move_all src dst = for_each_safe move_visit src (src, dst)"

lemma move_all_eq: "move_all src dst = Inr ([], dst @ src)"
proof -
  have "for_each_safe move_visit xs (xs, d) = Inr ([], d @ xs)" for xs d
    by (induction xs arbitrary: d) (auto simp: move_visit_def list_del_def list_add_tail_def)
  then show ?thesis by (simp add: move_all_def)
qed

text \<open>Freeing the entries of a local list: \<open>list_for_each_safe\<close> with \<open>list_del\<close>, \<open>kfree\<close>.\<close>

definition free_visit ::
  "addr \<Rightarrow> addr list \<times> (addr \<rightharpoonup> 'o) \<Rightarrow> fault + (addr list \<times> (addr \<rightharpoonup> 'o))" where
  "free_visit temp = (\<lambda>(delete_list, h).
     rbind (kfree temp h) (\<lambda>h'. Inr (list_del temp delete_list, h')))"

definition free_all :: "addr list \<Rightarrow> (addr \<rightharpoonup> 'o) \<Rightarrow> fault + (addr \<rightharpoonup> 'o)" where
  "free_all delete_list h =
     rbind (for_each_safe free_visit delete_list (delete_list, h)) (\<lambda>(_, h'). Inr h')"

section \<open>Mutexes\<close>

text \<open>
  Threads are numbered. The interruptible lock returns 0 once the caller owns the mutex, or
  an error (\<open>-EINTR\<close>) when a signal ended the wait, and then the mutex is as before. A mutex
  must be unlocked by its owner: anything else is the fault \<open>UnlockNotOwner\<close>.
\<close>

type_synonym mutex = "nat option"

definition mutex_lock_interruptible :: "nat \<Rightarrow> int \<Rightarrow> mutex \<Rightarrow> mutex" where
  "mutex_lock_interruptible me lk m = (if lk = 0 then Some me else m)"

definition mutex_unlock :: "nat \<Rightarrow> mutex \<Rightarrow> fault + mutex" where
  "mutex_unlock me m = (if m = Some me then Inr None else Inl UnlockNotOwner)"

lemma mutex_unlock_owned [res_simps]: "mutex_unlock me (Some me) = Inr None"
  by (simp add: mutex_unlock_def)

lemma mutex_unlock_free [res_simps]: "mutex_unlock me None = Inl UnlockNotOwner"
  by (simp add: mutex_unlock_def)

section \<open>The allocator's contract\<close>

text \<open>
  What a client may rely on: a stored object can be read back, storing and releasing one
  object leaves the others alone, and only a live object can be released.
\<close>

locale object_store =
  fixes lookup :: "'h \<Rightarrow> addr \<Rightarrow> fault + 'o"
    and store :: "addr \<Rightarrow> 'o \<Rightarrow> 'h \<Rightarrow> 'h"
    and release :: "addr \<Rightarrow> 'h \<Rightarrow> fault + 'h"
    and live :: "'h \<Rightarrow> addr set"
  assumes lookup_store: "lookup (store a x h) b = (if b = a then Inr x else lookup h b)"
    and live_store: "live (store a x h) = insert a (live h)"
    and lookup_live: "a \<in> live h \<longleftrightarrow> (\<exists>x. lookup h a = Inr x)"
    and release_live: "a \<in> live h \<Longrightarrow> \<exists>h'. release a h = Inr h' \<and> live h' = live h - {a}
                         \<and> (\<forall>b. b \<noteq> a \<longrightarrow> lookup h' b = lookup h b)"
    and release_dead: "a \<notin> live h \<Longrightarrow> release a h = Inl DoubleFree"
begin

definition release_list :: "addr list \<Rightarrow> 'h \<Rightarrow> fault + 'h" where
  "release_list xs h = for_each_safe release xs h"

lemma release_list_live:
  "distinct xs \<Longrightarrow> set xs \<subseteq> live h \<Longrightarrow> \<exists>h'. release_list xs h = Inr h'
     \<and> live h' = live h - set xs \<and> (\<forall>b. b \<notin> set xs \<longrightarrow> lookup h' b = lookup h b)"
proof (induction xs arbitrary: h)
  case Nil
  then show ?case by (simp add: release_list_def)
next
  case (Cons a xs)
  from Cons.prems have "a \<in> live h" by simp
  then obtain g where g: "release a h = Inr g" "live g = live h - {a}"
      "\<forall>b. b \<noteq> a \<longrightarrow> lookup g b = lookup h b"
    using release_live by blast
  from Cons.prems g(2) have "distinct xs" "set xs \<subseteq> live g" by auto
  then obtain k where k: "release_list xs g = Inr k" "live k = live g - set xs"
      "\<forall>b. b \<notin> set xs \<longrightarrow> lookup k b = lookup g b"
    using Cons.IH by blast
  show ?case
  proof (intro exI conjI allI impI)
    show "release_list (a # xs) h = Inr k"
      using g(1) k(1) by (simp add: release_list_def)
    show "live k = live h - set (a # xs)" using g(2) k(2) by auto
    show "lookup k b = lookup h b" if "b \<notin> set (a # xs)" for b
      using that g(3) k(3) by auto
  qed
qed

lemma release_twice: "a \<in> live h \<Longrightarrow> rbind (release a h) (release a) = Inl DoubleFree"
  using release_live release_dead by fastforce

end

interpretation slab: object_store deref store_obj kfree "dom :: (addr \<rightharpoonup> 'o) \<Rightarrow> addr set"
  by unfold_locales
    (auto simp: deref_def store_obj_def kfree_def split: option.splits)

text \<open>The same on maps: what \<open>free_all\<close> leaves.\<close>

lemma free_all_release: "free_all xs h = slab.release_list xs h"
proof -
  have "rbind (for_each_safe free_visit xs (d, h)) (\<lambda>(_, h'). Inr h') = for_each_safe kfree xs h"
    for xs d h
  proof (induction xs arbitrary: d h)
    case Nil
    then show ?case by simp
  next
    case (Cons a xs)
    then show ?case by (cases "kfree a h") (auto simp: free_visit_def)
  qed
  then show ?thesis by (simp add: free_all_def slab.release_list_def)
qed

lemma map_eqI_deref: "dom h = dom g \<Longrightarrow> (\<And>a. a \<in> dom h \<Longrightarrow> deref h a = deref g a) \<Longrightarrow> h = g"
proof (rule ext)
  fix a
  assume d: "dom h = dom g" and e: "\<And>a. a \<in> dom h \<Longrightarrow> deref h a = deref g a"
  show "h a = g a"
  proof (cases "a \<in> dom h")
    case True
    with e [OF True] d show ?thesis
      by (auto simp: deref_def domIff split: option.splits)
  next
    case False
    with d show ?thesis by (metis domIff)
  qed
qed

lemma free_all_eq:
  assumes "distinct xs" and "set xs \<subseteq> dom h"
  shows "free_all xs h = Inr (h |` (- set xs))"
proof -
  obtain g where g: "slab.release_list xs h = Inr g" "dom g = dom h - set xs"
      "\<forall>b. b \<notin> set xs \<longrightarrow> deref g b = deref h b"
    using slab.release_list_live [OF assms] by blast
  have "g = h |` (- set xs)"
  proof (rule map_eqI_deref)
    show "dom g = dom (h |` (- set xs))" using g(2) by auto
    show "deref g a = deref (h |` (- set xs)) a" if "a \<in> dom g" for a
      using that g(2,3) by (auto simp: deref_def restrict_map_def)
  qed
  then show ?thesis using g(1) by (simp add: free_all_release)
qed

lemma deref_in: "h a = Some x \<Longrightarrow> deref h a = Inr x"
  by (simp add: deref_def)

end
