(* ===== verification/ElevatorState.thy ===== *)
theory ElevatorState
  imports KernelApi "HOL-Library.Multiset"
begin

text \<open>
  The data of \<open>part3/elevator.c\<close>: its constants, its structs, its globals as one record
  \<open>kstate\<close>, \<open>setup_elevator\<close>, and the well-formedness invariant \<open>well_formed\<close> that ties the lists,
  the allocated passengers and the counters together.
\<close>

section \<open>Constants\<close>

definition CAPACITY :: int where [simp]: "CAPACITY = 10"
definition MOVE_TIME :: nat where [simp]: "MOVE_TIME = 2"
definition LOAD_TIME :: nat where [simp]: "LOAD_TIME = 1"
definition DEFAULT_SLEEP_TIME :: nat where [simp]: "DEFAULT_SLEEP_TIME = 1"
definition FLOORS :: int where [simp]: "FLOORS = 10"

definition OFFLINE :: int where [simp]: "OFFLINE = 0"
definition IDLE :: int where [simp]: "IDLE = 1"
definition LOADING :: int where [simp]: "LOADING = 2"
definition UP :: int where [simp]: "UP = 3"
definition DOWN :: int where [simp]: "DOWN = 4"

section \<open>Structs\<close>

record passenger_data =
  ptype :: int
  start_floor :: int
  destination_floor :: int

record elevator_status =
  state :: int
  current_floor :: int
  next_floor :: int
  loads :: int
  deactiving :: int
  started :: int
  status :: int
  onboard :: "addr list"

text \<open>\<open>kthread_run\<close> returns a task or an error pointer.\<close>

datatype task_ptr = NoTask | Task nat | ErrPtr int

text \<open>\<open>mutex_ready\<close>: \<open>mutex_init\<close> has run on the mutex; static storage holds no valid one.\<close>

record thread_parameter =
  thread_id :: int
  cnt :: int
  kthread :: task_ptr
  mutex :: mutex
  mutex_ready :: bool

section \<open>Globals\<close>

text \<open>
  \<open>heap\<close> holds the passengers that are allocated now, and \<open>clock\<close> the seconds the scheduler
  has spent in \<open>ssleep\<close>; every other field is a global variable of the module.
\<close>

record kstate =
  elevator :: elevator_status
  thread1 :: thread_parameter
  waiting_list :: "addr list list"
  serviced :: int
  num_waiting :: int
  waiting_on_floor :: "int list"
  heap :: "addr \<rightharpoonup> passenger_data"
  clock :: nat

definition ssleep :: "nat \<Rightarrow> kstate \<Rightarrow> kstate" where
  "ssleep n s = s\<lparr>clock := clock s + n\<rparr>"

text \<open>Static storage before the module's initialisation: all zero.\<close>

definition bss_state :: kstate where
  "bss_state =
     \<lparr>elevator = \<lparr>state = 0, current_floor = 0, next_floor = 0, loads = 0, deactiving = 0,
        started = 0, status = 0, onboard = []\<rparr>,
      thread1 = \<lparr>thread_id = 0, cnt = 0, kthread = NoTask, mutex = None, mutex_ready = False\<rparr>,
      waiting_list = replicate (nat FLOORS) [], serviced = 0, num_waiting = 0,
      waiting_on_floor = replicate (nat FLOORS) 0, heap = Map.empty, clock = 0\<rparr>"

definition init_floor :: "nat \<Rightarrow> kstate \<Rightarrow> kstate" where
  "init_floor i s = s\<lparr>waiting_list := (waiting_list s)[i := []],
                      waiting_on_floor := (waiting_on_floor s)[i := 0]\<rparr>"

definition setup_elevator :: "kstate \<Rightarrow> kstate" where
  "setup_elevator s =
     (let e = (elevator s)\<lparr>state := 0, current_floor := 1, next_floor := 2, loads := 0,
                           deactiving := 0, started := 0, onboard := []\<rparr>;
          s' = s\<lparr>elevator := e, serviced := 0\<rparr>
      in fold init_floor [0..<nat FLOORS] s')"

text \<open>
  \<open>next_id\<close> is the function's static counter \<open>id\<close> and \<open>task\<close> what \<open>kthread_run\<close> returned.
\<close>

definition thread_init_parameter :: "int \<Rightarrow> task_ptr \<Rightarrow> kstate \<Rightarrow> int \<times> kstate" where
  "thread_init_parameter next_id task s =
     (inc32 next_id, s\<lparr>thread1 := (thread1 s)\<lparr>thread_id := next_id, cnt := 0, mutex := None, mutex_ready := True,
        kthread := task\<rparr>\<rparr>)"

text \<open>The state in which the scheduler thread starts after a first load of the module.\<close>

definition boot_state :: kstate where
  "boot_state = snd (thread_init_parameter 1 (Task 0) (setup_elevator bss_state))"

section \<open>Well-formed states\<close>

definition linked :: "kstate \<Rightarrow> addr list" where
  "linked s = onboard (elevator s) @ concat (waiting_list s)"

text \<open>
  Every allocated passenger is linked exactly once, and every linked entry is allocated: no
  dangling entry, no entry on two lists, no leaked passenger.
\<close>

definition links_ok :: "kstate \<Rightarrow> bool" where
  "links_ok s \<longleftrightarrow> distinct (linked s) \<and> set (linked s) = dom (heap s)"

definition passenger_ok :: "passenger_data \<Rightarrow> bool" where
  "passenger_ok p \<longleftrightarrow> (ptype p = 0 \<or> ptype p = 1)
     \<and> 1 \<le> start_floor p \<and> start_floor p \<le> FLOORS
     \<and> 1 \<le> destination_floor p \<and> destination_floor p \<le> FLOORS"

definition heap_ok :: "kstate \<Rightarrow> bool" where
  "heap_ok s \<longleftrightarrow> (\<forall>a p. heap s a = Some p \<longrightarrow> passenger_ok p)"

definition queues_ok :: "kstate \<Rightarrow> bool" where
  "queues_ok s \<longleftrightarrow> length (waiting_list s) = nat FLOORS
     \<and> (\<forall>i < nat FLOORS. \<forall>a \<in> set (waiting_list s ! i). \<forall>p.
           heap s a = Some p \<longrightarrow> start_floor p = int i + 1)"

definition counts_ok :: "kstate \<Rightarrow> bool" where
  "counts_ok s \<longleftrightarrow> length (waiting_on_floor s) = nat FLOORS
     \<and> (\<forall>i < nat FLOORS. waiting_on_floor s ! i = wrap32 (int (length (waiting_list s ! i))))
     \<and> num_waiting s = wrap32 (int (length (concat (waiting_list s))))
     \<and> (\<exists>n. serviced s = wrap32 n)"

text \<open>
  \<open>loads\<close> bounds the passengers on board from above. Both are equal until \<open>stop_elevator\<close>
  takes passengers off without counting them off.
\<close>

definition loads_ok :: "kstate \<Rightarrow> bool" where
  "loads_ok s \<longleftrightarrow> int (length (onboard (elevator s))) \<le> loads (elevator s)
     \<and> loads (elevator s) \<le> CAPACITY"

definition zombie_at :: "kstate \<Rightarrow> addr \<Rightarrow> bool" where
  "zombie_at s a \<longleftrightarrow> (\<exists>p. heap s a = Some p \<and> ptype p = 1)"

definition infection_ok :: "kstate \<Rightarrow> bool" where
  "infection_ok s \<longleftrightarrow> (status (elevator s) = 0 \<or> status (elevator s) = 1)
     \<and> (\<forall>a \<in> set (onboard (elevator s)). zombie_at s a \<longrightarrow> status (elevator s) = 1)
     \<and> (status (elevator s) = 1 \<longrightarrow> 0 < loads (elevator s))"

definition position_ok :: "elevator_status \<Rightarrow> bool" where
  "position_ok e \<longleftrightarrow> 1 \<le> current_floor e \<and> current_floor e \<le> FLOORS
     \<and> 1 \<le> next_floor e \<and> next_floor e \<le> FLOORS
     \<and> (next_floor e = current_floor e + 1 \<or> next_floor e = current_floor e - 1)"

definition flags_ok :: "elevator_status \<Rightarrow> bool" where
  "flags_ok e \<longleftrightarrow> 0 \<le> state e \<and> state e \<le> 4
     \<and> (started e = 0 \<or> started e = 1) \<and> (deactiving e = 0 \<or> deactiving e = 1)"

definition well_formed :: "kstate \<Rightarrow> bool" where
  "well_formed s \<longleftrightarrow> links_ok s \<and> heap_ok s \<and> queues_ok s \<and> counts_ok s \<and> loads_ok s
     \<and> infection_ok s \<and> position_ok (elevator s) \<and> flags_ok (elevator s)
     \<and> mutex (thread1 s) = None"

lemmas wf_parts = links_ok_def heap_ok_def queues_ok_def counts_ok_def loads_ok_def
  infection_ok_def position_ok_def flags_ok_def

lemma wfD:
  assumes "well_formed s"
  shows "links_ok s" and "heap_ok s" and "queues_ok s" and "counts_ok s" and "loads_ok s"
    and "infection_ok s" and "position_ok (elevator s)" and "flags_ok (elevator s)"
    and "mutex (thread1 s) = None"
  using assms by (simp_all add: well_formed_def)

section \<open>Setup\<close>

lemma fold_init_floor:
  "n \<le> length (waiting_list s) \<Longrightarrow> n \<le> length (waiting_on_floor s) \<Longrightarrow>
   fold init_floor [0..<n] s =
     s\<lparr>waiting_list := replicate n [] @ drop n (waiting_list s),
       waiting_on_floor := replicate n 0 @ drop n (waiting_on_floor s)\<rparr>"
proof (induction n)
  case 0
  then show ?case by simp
next
  case (Suc n)
  then show ?case
    by (simp add: init_floor_def list_update_append Cons_nth_drop_Suc [symmetric]
        replicate_append_same [symmetric])
qed

lemma setup_bss: "setup_elevator bss_state = bss_state\<lparr>elevator :=
    (elevator bss_state)\<lparr>current_floor := 1, next_floor := 2\<rparr>\<rparr>"
  by (simp add: setup_elevator_def Let_def fold_init_floor bss_state_def)

lemma setup_explicit: "setup_elevator bss_state =
     \<lparr>elevator = \<lparr>state = 0, current_floor = 1, next_floor = 2, loads = 0, deactiving = 0,
        started = 0, status = 0, onboard = []\<rparr>,
      thread1 = \<lparr>thread_id = 0, cnt = 0, kthread = NoTask, mutex = None, mutex_ready = False\<rparr>,
      waiting_list = [[], [], [], [], [], [], [], [], [], []], serviced = 0, num_waiting = 0,
      waiting_on_floor = [0, 0, 0, 0, 0, 0, 0, 0, 0, 0], heap = Map.empty, clock = 0\<rparr>"
  unfolding setup_bss by (simp add: bss_state_def numeral_eq_Suc)

lemma wf_setup: "well_formed (setup_elevator bss_state)"
  unfolding setup_bss
  by (simp add: well_formed_def wf_parts linked_def bss_state_def wrap32_def)
    (auto intro!: exI [of _ 0])

lemma wf_thread_init: "well_formed s \<Longrightarrow> well_formed (snd (thread_init_parameter i t s))"
  by (simp add: thread_init_parameter_def well_formed_def wf_parts linked_def zombie_at_def)

lemma wf_boot: "well_formed boot_state"
  unfolding boot_state_def by (rule wf_thread_init [OF wf_setup])

lemma boot_explicit: "boot_state =
     \<lparr>elevator = \<lparr>state = 0, current_floor = 1, next_floor = 2, loads = 0, deactiving = 0,
        started = 0, status = 0, onboard = []\<rparr>,
      thread1 = \<lparr>thread_id = 1, cnt = 0, kthread = Task 0, mutex = None, mutex_ready = True\<rparr>,
      waiting_list = [[], [], [], [], [], [], [], [], [], []], serviced = 0, num_waiting = 0,
      waiting_on_floor = [0, 0, 0, 0, 0, 0, 0, 0, 0, 0], heap = Map.empty, clock = 0\<rparr>"
  by (simp add: boot_state_def thread_init_parameter_def setup_explicit)

section \<open>Moving entries between the lists\<close>

lemma mset_concat_update:
  assumes "i < length xss"
  shows "mset (concat (xss[i := q])) + mset (xss ! i) = mset (concat xss) + mset q"
proof -
  have u: "xss[i := q] = take i xss @ q # drop (Suc i) xss"
    using assms by (rule upd_conv_take_nth_drop)
  have "concat xss = concat (take i xss) @ xss ! i @ concat (drop (Suc i) xss)"
    by (subst id_take_nth_drop [OF assms]) simp
  then show ?thesis by (simp add: u)
qed

lemma length_concat_update:
  "i < length xss \<Longrightarrow>
   int (length (concat (xss[i := q]))) = int (length (concat xss)) - int (length (xss ! i)) + int (length q)"
  using arg_cong [OF mset_concat_update [of i xss q], of size] by (simp del: length_concat)

lemma links_ok_mset:
  "mset xs = mset ys \<Longrightarrow> distinct xs \<and> set xs = D \<longleftrightarrow> distinct ys \<and> set ys = D"
  by (metis mset_eq_imp_distinct_iff mset_eq_setD)

lemma concat_nth_subset: "i < length xss \<Longrightarrow> set (xss ! i) \<subseteq> set (concat xss)"
  by (auto intro: nth_mem)

lemma distinct_concat_nth: "distinct (concat xss) \<Longrightarrow> i < length xss \<Longrightarrow> distinct (xss ! i)"
  by (simp add: distinct_concat_iff)

lemma linked_heap:
  assumes "links_ok s" and "a \<in> set (linked s)"
  obtains p where "heap s a = Some p"
  using assms by (auto simp: links_ok_def)

end
