(* ===== verification/Boarding.thy ===== *)
theory Boarding
  imports ElevatorState
begin

text \<open>
  \<open>unloadPassengers\<close> and \<open>loadPassengers\<close>: what they do to the lists, the counters and the
  infection status on every well-formed state, as closed forms.
\<close>

section \<open>The critical section\<close>

text \<open>
  \<open>if (mutex_lock_interruptible(&thread1.mutex) == 0) { body } mutex_unlock(&thread1.mutex);\<close>
  The unlock stands outside the \<open>if\<close>: it runs also when the lock was not taken.
\<close>

definition set_mutex :: "mutex \<Rightarrow> kstate \<Rightarrow> kstate" where
  "set_mutex m s = s\<lparr>thread1 := (thread1 s)\<lparr>mutex := m\<rparr>\<rparr>"

definition locked_region ::
  "nat \<Rightarrow> int \<Rightarrow> (kstate \<times> 'l \<Rightarrow> fault + (kstate \<times> 'l)) \<Rightarrow> kstate \<times> 'l \<Rightarrow> fault + (kstate \<times> 'l)" where
  "locked_region me lk body = (\<lambda>(s, l).
     let s1 = set_mutex (mutex_lock_interruptible me lk (mutex (thread1 s))) s
     in rbind (if lk = 0 then body (s1, l) else Inr (s1, l)) (\<lambda>(s2, l2).
        rbind (mutex_unlock me (mutex (thread1 s2))) (\<lambda>m. Inr (set_mutex m s2, l2))))"

lemma locked_region_interrupted:
  "lk \<noteq> 0 \<Longrightarrow> mutex (thread1 s) = None \<Longrightarrow> locked_region me lk body (s, l) = Inl UnlockNotOwner"
  by (simp add: locked_region_def mutex_lock_interruptible_def set_mutex_def Let_def res_simps)

lemma locked_region_taken:
  assumes "body (set_mutex (Some me) s, l) = Inr (s2, l2)" and "mutex (thread1 s2) = Some me"
  shows "locked_region me 0 body (s, l) = Inr (set_mutex None s2, l2)"
  using assms by (simp add: locked_region_def mutex_lock_interruptible_def Let_def res_simps)

section \<open>Unloading: the code\<close>

definition unload_visit ::
  "addr \<Rightarrow> kstate \<times> addr list \<times> int \<Rightarrow> fault + (kstate \<times> addr list \<times> int)" where
  "unload_visit temp = (\<lambda>(s, delete_list, unloaded).
     rbind (deref (heap s) temp) (\<lambda>p.
       if destination_floor p = current_floor (elevator s)
       then Inr (s\<lparr>elevator := (elevator s)
                      \<lparr>onboard := list_del temp (onboard (elevator s)),
                       loads := dec32 (loads (elevator s))\<rparr>,
                   serviced := inc32 (serviced s)\<rparr>,
                 list_add_tail temp delete_list, 1)
       else Inr (s, delete_list, unloaded)))"

definition unloadPassengers :: "nat \<Rightarrow> int \<Rightarrow> kstate \<Rightarrow> fault + (int \<times> kstate)" where
  "unloadPassengers me lk s =
     rbind (locked_region me lk
              (\<lambda>(s, l). for_each_safe unload_visit (onboard (elevator s)) (s, l)) (s, [], 0))
       (\<lambda>(s, delete_list, unloaded).
     rbind (free_all delete_list (heap s)) (\<lambda>h.
       let s = s\<lparr>heap := h\<rparr>;
           s = (if loads (elevator s) = 0 then s\<lparr>elevator := (elevator s)\<lparr>status := 0\<rparr>\<rparr> else s)
       in Inr (unloaded, s)))"

section \<open>Loading: the code\<close>

text \<open>
  The statements that both boarding branches share: the entry moves from the waiting list of
  \<open>floor\<close> to the tail of \<open>onboard\<close>, and the three counters follow.
\<close>

definition take_aboard :: "int \<Rightarrow> addr \<Rightarrow> passenger_data \<Rightarrow> kstate \<Rightarrow> fault + kstate" where
  "take_aboard floor temp p s =
     rbind (aget (waiting_list s) (floor - 1)) (\<lambda>q.
     rbind (aset (waiting_list s) (floor - 1) (list_del temp q)) (\<lambda>wl.
     rbind (aget (waiting_on_floor s) (start_floor p - 1)) (\<lambda>n.
     rbind (aset (waiting_on_floor s) (start_floor p - 1) (dec32 n)) (\<lambda>wof.
       Inr (s\<lparr>elevator := (elevator s)
                 \<lparr>onboard := list_add_tail temp (onboard (elevator s)),
                  loads := inc32 (loads (elevator s))\<rparr>,
              waiting_list := wl,
              waiting_on_floor := wof,
              num_waiting := dec32 (num_waiting s)\<rparr>)))))"

definition load_visit ::
  "int \<Rightarrow> addr \<Rightarrow> kstate \<times> int \<Rightarrow> fault + (kstate \<times> int)" where
  "load_visit floor temp = (\<lambda>(s, loaded).
     rbind (deref (heap s) temp) (\<lambda>p.
       if start_floor p = floor then
         if wrap32 (loads (elevator s) + 1) \<le> CAPACITY then
           rbind (if ptype p = 1
                  then rbind (take_aboard floor temp p s)
                         (\<lambda>s. Inr (s\<lparr>elevator := (elevator s)\<lparr>status := 1\<rparr>\<rparr>, 1))
                  else Inr (s, loaded))
             (\<lambda>(s, loaded).
                if ptype p = 0 \<and> status (elevator s) = 0
                then rbind (take_aboard floor temp p s) (\<lambda>s. Inr (s, 1))
                else Inr (s, loaded))
         else Inr (s, loaded)
       else Inr (s, loaded)))"

definition loadPassengers :: "nat \<Rightarrow> int \<Rightarrow> kstate \<Rightarrow> fault + (int \<times> kstate)" where
  "loadPassengers me lk s =
     (let floor = current_floor (elevator s)
      in rbind (locked_region me lk
                  (\<lambda>(s, l). rbind (aget (waiting_list s) (floor - 1)) (\<lambda>q.
                             for_each_safe (load_visit floor) q (s, l))) (s, 0))
           (\<lambda>(s, loaded). Inr (loaded, s)))"

section \<open>Unloading: closed form\<close>

definition leaves :: "kstate \<Rightarrow> addr \<Rightarrow> bool" where
  "leaves s a \<longleftrightarrow> (\<exists>p. heap s a = Some p \<and> destination_floor p = current_floor (elevator s))"

lemma unload_loop:
  assumes "onboard (elevator s) = kept @ xs" and "distinct (kept @ xs)"
    and "set xs \<subseteq> dom (heap s)"
    and "loads (elevator s) = wrap32 L" and "serviced s = wrap32 S"
  shows "for_each_safe unload_visit xs (s, dl, u) =
    Inr (s\<lparr>elevator := (elevator s)
              \<lparr>onboard := kept @ filter (\<lambda>a. \<not> leaves s a) xs,
               loads := wrap32 (L - int (length (filter (leaves s) xs)))\<rparr>,
           serviced := wrap32 (S + int (length (filter (leaves s) xs)))\<rparr>,
         dl @ filter (leaves s) xs, if filter (leaves s) xs = [] then u else 1)"
  using assms
proof (induction xs arbitrary: s kept dl u L S)
  case Nil
  then show ?case by simp
next
  case (Cons x xs)
  from Cons.prems(3) obtain p where p: "heap s x = Some p" by auto
  show ?case
  proof (cases "destination_floor p = current_floor (elevator s)")
    case True
    let ?s = "s\<lparr>elevator := (elevator s)\<lparr>onboard := kept @ xs, loads := wrap32 (L - 1)\<rparr>,
               serviced := wrap32 (S + 1)\<rparr>"
    have x: "leaves s x" using p True by (simp add: leaves_def)
    have same: "leaves ?s = leaves s" by (simp add: leaves_def fun_eq_iff)
    have rem: "remove1 x (kept @ x # xs) = kept @ xs"
      using Cons.prems(2) by (simp add: remove1_append)
    have v: "unload_visit x (s, dl, u) = Inr (?s, dl @ [x], 1)"
      using p True Cons.prems(1,4,5) rem
      by (simp add: unload_visit_def deref_in res_simps list_del_def list_add_tail_def
          dec32_wrap32 inc32_wrap32)
    have "for_each_safe unload_visit xs (?s, dl @ [x], 1) =
      Inr (?s\<lparr>elevator := (elevator ?s)
              \<lparr>onboard := kept @ filter (\<lambda>a. \<not> leaves ?s a) xs,
               loads := wrap32 (L - 1 - int (length (filter (leaves ?s) xs)))\<rparr>,
           serviced := wrap32 (S + 1 + int (length (filter (leaves ?s) xs)))\<rparr>,
         (dl @ [x]) @ filter (leaves ?s) xs, if filter (leaves ?s) xs = [] then 1 else 1)"
      by (rule Cons.IH) (use Cons.prems in auto)
    then show ?thesis
      unfolding same using v x by (simp add: res_simps algebra_simps)
  next
    case False
    have x: "\<not> leaves s x" using p False by (simp add: leaves_def)
    have v: "unload_visit x (s, dl, u) = Inr (s, dl, u)"
      using p False by (simp add: unload_visit_def deref_in res_simps)
    have "for_each_safe unload_visit xs (s, dl, u) =
      Inr (s\<lparr>elevator := (elevator s)
              \<lparr>onboard := (kept @ [x]) @ filter (\<lambda>a. \<not> leaves s a) xs,
               loads := wrap32 (L - int (length (filter (leaves s) xs)))\<rparr>,
           serviced := wrap32 (S + int (length (filter (leaves s) xs)))\<rparr>,
         dl @ filter (leaves s) xs, if filter (leaves s) xs = [] then u else 1)"
      by (rule Cons.IH) (use Cons.prems in auto)
    then show ?thesis using v x by (simp add: res_simps)
  qed
qed

text \<open>The state after unloading, when no more than \<open>CAPACITY\<close> passengers are counted.\<close>

definition unloaded_state :: "kstate \<Rightarrow> kstate" where
  "unloaded_state s =
     (let out = filter (leaves s) (onboard (elevator s));
          n = loads (elevator s) - int (length out)
      in s\<lparr>elevator := (elevator s)
              \<lparr>onboard := filter (\<lambda>a. \<not> leaves s a) (onboard (elevator s)),
               loads := n,
               status := (if n = 0 then 0 else status (elevator s))\<rparr>,
           serviced := wrap32 (serviced s + int (length out)),
           heap := heap s |` (- set out)\<rparr>)"

lemma wf_loads_range: "well_formed s \<Longrightarrow> 0 \<le> loads (elevator s) \<and> loads (elevator s) \<le> 10
    \<and> int (length (onboard (elevator s))) \<le> loads (elevator s)"
  using wfD(5) [of s] by (simp add: loads_ok_def)

lemma set_mutex_simps [simp]:
  "elevator (set_mutex m s) = elevator s" "waiting_list (set_mutex m s) = waiting_list s"
  "serviced (set_mutex m s) = serviced s" "num_waiting (set_mutex m s) = num_waiting s"
  "waiting_on_floor (set_mutex m s) = waiting_on_floor s" "heap (set_mutex m s) = heap s"
  "clock (set_mutex m s) = clock s" "mutex (thread1 (set_mutex m s)) = m"
  by (simp_all add: set_mutex_def)

lemma thread_mutex_None: "mutex t = None \<Longrightarrow> t\<lparr>mutex := None\<rparr> = t"
  by (cases t) simp

lemma unloadPassengers_eq:
  assumes "well_formed s"
  shows "unloadPassengers me 0 s =
    Inr (if filter (leaves s) (onboard (elevator s)) = [] then 0 else 1, unloaded_state s)"
proof -
  let ?on = "onboard (elevator s)"
  let ?out = "filter (leaves s) ?on"
  let ?m = "set_mutex (Some me) s"
  have d: "distinct ?on" and h: "set ?on \<subseteq> dom (heap s)" and m: "mutex (thread1 s) = None"
    using wfD(1,9) [OF assms] by (auto simp: links_ok_def linked_def)
  obtain S where S: "serviced s = wrap32 S" using wfD(4) [OF assms] by (auto simp: counts_ok_def)
  have L: "loads (elevator s) = wrap32 (loads (elevator s))"
    using wf_loads_range [OF assms] by (simp add: wrap32_id)
  have len: "int (length ?out) \<le> loads (elevator s)"
    using wf_loads_range [OF assms] length_filter_le [of "leaves s" ?on] by linarith
  have lv: "leaves ?m = leaves s" by (simp add: leaves_def fun_eq_iff)
  let ?t = "?m\<lparr>elevator := (elevator s)\<lparr>onboard := filter (\<lambda>a. \<not> leaves s a) ?on,
               loads := wrap32 (loads (elevator s) - int (length ?out))\<rparr>,
             serviced := wrap32 (S + int (length ?out))\<rparr>"
  have loop: "for_each_safe unload_visit (onboard (elevator ?m)) (?m, [], 0) =
    Inr (?t, ?out, if ?out = [] then 0 else 1)"
    using unload_loop [of ?m "[]" ?on "loads (elevator s)" S "[]" 0] d h S L by (simp add: lv)
  have region: "locked_region me 0
      (\<lambda>(s, l). for_each_safe unload_visit (onboard (elevator s)) (s, l)) (s, [], 0)
    = Inr (set_mutex None ?t, ?out, if ?out = [] then 0 else 1)"
    by (rule locked_region_taken) (use loop in simp_all)
  have free: "free_all ?out (heap s) = Inr (heap s |` (- set ?out))"
    by (rule free_all_eq) (use d h in auto)
  have w: "wrap32 (loads (elevator s) - int (length ?out)) = loads (elevator s) - int (length ?out)"
    using wf_loads_range [OF assms] len by (simp add: wrap32_id)
  define T where "T = set_mutex None ?t"
  have hT: "heap T = heap s" by (simp add: T_def)
  have upd: "T\<lparr>heap := heap s |` (- set ?out)\<rparr> =
      s\<lparr>elevator := (elevator s)\<lparr>onboard := filter (\<lambda>a. \<not> leaves s a) ?on,
               loads := loads (elevator s) - int (length ?out)\<rparr>,
             serviced := wrap32 (serviced s + int (length ?out)),
       heap := heap s |` (- set ?out)\<rparr>"
    by (rule kstate.equality) (simp_all add: T_def set_mutex_def w S thread_mutex_None [OF m])
  show ?thesis
    unfolding unloadPassengers_def region T_def [symmetric]
    by (simp only: rbind.simps prod.case hT free upd Let_def) (simp add: unloaded_state_def Let_def)
qed

lemma unloadPassengers_interrupted:
  "well_formed s \<Longrightarrow> lk \<noteq> 0 \<Longrightarrow> unloadPassengers me lk s = Inl UnlockNotOwner"
  by (simp add: unloadPassengers_def locked_region_interrupted wfD(9) res_simps)

lemma length_partition: "length (filter P xs) + length (filter (\<lambda>x. \<not> P x) xs) = length xs"
  by (induction xs) auto

lemma wf_unloaded:
  assumes "well_formed s"
  shows "well_formed (unloaded_state s)"
proof -
  let ?t = "unloaded_state s"
  let ?on = "onboard (elevator s)"
  let ?out = "filter (leaves s) ?on"
  let ?in = "filter (\<lambda>a. \<not> leaves s a) ?on"
  have fields: "onboard (elevator ?t) = ?in" "loads (elevator ?t) = loads (elevator s) - int (length ?out)"
      "waiting_list ?t = waiting_list s" "waiting_on_floor ?t = waiting_on_floor s"
      "num_waiting ?t = num_waiting s" "heap ?t = heap s |` (- set ?out)"
      "serviced ?t = wrap32 (serviced s + int (length ?out))" "thread1 ?t = thread1 s"
      "state (elevator ?t) = state (elevator s)" "started (elevator ?t) = started (elevator s)"
      "deactiving (elevator ?t) = deactiving (elevator s)"
      "current_floor (elevator ?t) = current_floor (elevator s)"
      "next_floor (elevator ?t) = next_floor (elevator s)"
      "status (elevator ?t) = (if loads (elevator s) - int (length ?out) = 0 then 0 else status (elevator s))"
    by (simp_all add: unloaded_state_def Let_def)
  have len: "int (length ?in) = int (length ?on) - int (length ?out)"
    using length_partition [of "leaves s" ?on] by linarith
  have lr: "0 \<le> loads (elevator s)" "loads (elevator s) \<le> 10" "int (length ?on) \<le> loads (elevator s)"
    using wf_loads_range [OF assms] by auto
  have heap_sub: "heap ?t a = Some p \<Longrightarrow> heap s a = Some p" for a p
    by (auto simp: fields restrict_map_def split: if_splits)
  have "links_ok ?t"
    using wfD(1) [OF assms] by (auto simp: links_ok_def linked_def fields)
  moreover have "heap_ok ?t"
    using wfD(2) [OF assms] heap_sub unfolding heap_ok_def by blast
  moreover have "queues_ok ?t"
    using wfD(3) [OF assms] heap_sub unfolding queues_ok_def fields by blast
  moreover have "counts_ok ?t"
    using wfD(4) [OF assms] by (auto simp: counts_ok_def fields)
  moreover have "loads_ok ?t"
    using len lr by (simp add: loads_ok_def fields)
  moreover have "infection_ok ?t"
  proof -
    have empty: "?in = []" if "loads (elevator s) - int (length ?out) = 0"
    proof -
      have "int (length ?in) \<le> 0" using that len lr(3) by linarith
      then have "length ?in = 0" by linarith
      then show ?thesis by (simp only: length_0_conv)
    qed
    have st: "status (elevator s) = 0 \<or> status (elevator s) = 1"
        "\<And>a. a \<in> set ?on \<Longrightarrow> zombie_at s a \<Longrightarrow> status (elevator s) = 1"
      using wfD(6) [OF assms] unfolding infection_ok_def by blast+
    have z: "zombie_at ?t a \<Longrightarrow> zombie_at s a" for a
      using heap_sub unfolding zombie_at_def by blast
    have pos: "int (length ?out) \<le> loads (elevator s)" using len lr by linarith
    show ?thesis
    proof (cases "loads (elevator s) - int (length ?out) = 0")
      case True
      then show ?thesis using empty unfolding infection_ok_def fields by simp
    next
      case False
      then show ?thesis using st z pos unfolding infection_ok_def fields by auto
    qed
  qed
  moreover have "position_ok (elevator ?t)" "flags_ok (elevator ?t)" "mutex (thread1 ?t) = None"
    using wfD(7,8,9) [OF assms] by (auto simp: position_ok_def flags_ok_def fields)
  ultimately show ?thesis by (simp add: well_formed_def)
qed

end
