(* ===== verification/Loading.thy ===== *)
theory Loading
  imports Boarding
begin

text \<open>
  \<open>loadPassengers\<close> in closed form. Who boards is a prefix, as long as there is room, of the
  candidates in queue order: into an uninfected elevator the humans ahead of the first zombie
  and then every zombie, into an infected one the zombies only.
\<close>

section \<open>Who boards\<close>

definition candidates :: "('a \<Rightarrow> bool) \<Rightarrow> bool \<Rightarrow> 'a list \<Rightarrow> 'a list" where
  "candidates z infected q =
     (if infected then filter z q else takeWhile (\<lambda>a. \<not> z a) q @ filter z q)"

definition boarding :: "('a \<Rightarrow> bool) \<Rightarrow> nat \<Rightarrow> bool \<Rightarrow> 'a list \<Rightarrow> 'a list" where
  "boarding z room infected q = take room (candidates z infected q)"

lemma candidates_Nil [simp]: "candidates z infected [] = []"
  by (simp add: candidates_def)

lemma candidates_Cons:
  "candidates z infected (x # q) =
     (if z x then x # candidates z True q
      else if infected then candidates z True q else x # candidates z False q)"
  by (simp add: candidates_def)

lemma boarding_Nil [simp]: "boarding z room infected [] = []"
  by (simp add: boarding_def)

lemma boarding_full [simp]: "boarding z 0 infected q = []"
  by (simp add: boarding_def)

lemma boarding_Cons:
  "boarding z (Suc n) infected (x # q) =
     (if z x then x # boarding z n True q
      else if infected then boarding z (Suc n) True q else x # boarding z n False q)"
  by (simp add: boarding_def candidates_Cons)

lemma set_candidates: "set (candidates z infected q) \<subseteq> set q"
  by (auto simp: candidates_def dest: set_takeWhileD)

lemma set_boarding: "set (boarding z room infected q) \<subseteq> set q"
  unfolding boarding_def using set_take_subset set_candidates by (rule subset_trans)

lemma distinct_candidates: "distinct q \<Longrightarrow> distinct (candidates z infected q)"
  by (auto simp: candidates_def distinct_takeWhile dest: set_takeWhileD)

lemma distinct_boarding: "distinct q \<Longrightarrow> distinct (boarding z room infected q)"
  by (simp add: boarding_def distinct_candidates)

lemma length_boarding: "length (boarding z room infected q) \<le> room"
  by (simp add: boarding_def)

lemma boarding_infected_zombies: "a \<in> set (boarding z room True q) \<Longrightarrow> z a"
  unfolding boarding_def candidates_def by (auto dest: in_set_takeD)

lemma boarding_progress: "q \<noteq> [] \<Longrightarrow> boarding z (Suc n) False q \<noteq> []"
  by (cases q) (auto simp: boarding_Cons)

section \<open>One state update for any number of boarding passengers\<close>

definition load_result :: "nat \<Rightarrow> addr list \<Rightarrow> addr list \<Rightarrow> kstate \<Rightarrow> kstate" where
  "load_result i rest b s =
     s\<lparr>elevator := (elevator s)
          \<lparr>onboard := onboard (elevator s) @ b,
           loads := loads (elevator s) + int (length b),
           status := (if \<exists>a \<in> set b. zombie_at s a then 1 else status (elevator s))\<rparr>,
       waiting_list := (waiting_list s)[i := rest],
       waiting_on_floor :=
         (waiting_on_floor s)[i := wrap32 (waiting_on_floor s ! i - int (length b))],
       num_waiting := wrap32 (num_waiting s - int (length b))\<rparr>"

lemma load_result_Nil:
  assumes "waiting_list s ! i = rest" and "waiting_on_floor s ! i = wrap32 W"
    and "num_waiting s = wrap32 N"
  shows "load_result i rest [] s = s"
proof -
  have "(waiting_on_floor s)[i := wrap32 (waiting_on_floor s ! i)] = waiting_on_floor s"
    using assms(2) by (metis list_update_id wrap32_idem)
  moreover have "(waiting_list s)[i := rest] = waiting_list s" using assms(1) by auto
  ultimately show ?thesis
    using assms(3) by (intro kstate.equality) (simp_all add: load_result_def)
qed

lemma zombie_at_load_result [simp]: "zombie_at (load_result i rest b s) = zombie_at s"
  by (simp add: load_result_def zombie_at_def fun_eq_iff)

lemma load_result_Cons:
  assumes "i < length (waiting_on_floor s)"
  shows "load_result i rest b (load_result i mid [x] s) = load_result i rest (x # b) s"
proof (rule kstate.equality)
  show "elevator (load_result i rest b (load_result i mid [x] s)) = elevator (load_result i rest (x # b) s)"
    by (rule elevator_status.equality)
      (auto simp: load_result_def zombie_at_def)
qed (use assms in \<open>simp_all add: load_result_def algebra_simps\<close>)

lemma load_result_fields:
  "heap (load_result i rest b s) = heap s"
  "waiting_list (load_result i rest b s) = (waiting_list s)[i := rest]"
  "onboard (elevator (load_result i rest b s)) = onboard (elevator s) @ b"
  "loads (elevator (load_result i rest b s)) = loads (elevator s) + int (length b)"
  "num_waiting (load_result i rest b s) = wrap32 (num_waiting s - int (length b))"
  "waiting_on_floor (load_result i rest b s) =
     (waiting_on_floor s)[i := wrap32 (waiting_on_floor s ! i - int (length b))]"
  "status (elevator (load_result i rest b s)) =
     (if \<exists>a \<in> set b. zombie_at s a then 1 else status (elevator s))"
  "serviced (load_result i rest b s) = serviced s"
  "thread1 (load_result i rest b s) = thread1 s"
  "clock (load_result i rest b s) = clock s"
  "state (elevator (load_result i rest b s)) = state (elevator s)"
  "started (elevator (load_result i rest b s)) = started (elevator s)"
  "deactiving (elevator (load_result i rest b s)) = deactiving (elevator s)"
  "current_floor (elevator (load_result i rest b s)) = current_floor (elevator s)"
  "next_floor (elevator (load_result i rest b s)) = next_floor (elevator s)"
  by (simp_all add: load_result_def)

section \<open>The loop\<close>

text \<open>What the loop relies on: the queue of \<open>floor\<close> and the bounds of its arrays.\<close>

definition at_queue :: "int \<Rightarrow> addr list \<Rightarrow> kstate \<Rightarrow> bool" where
  "at_queue floor xs s \<longleftrightarrow> 1 \<le> floor \<and> floor \<le> 10
     \<and> length (waiting_list s) = 10 \<and> length (waiting_on_floor s) = 10
     \<and> (\<exists>kept. waiting_list s ! nat (floor - 1) = kept @ xs \<and> distinct (kept @ xs))
     \<and> (\<forall>a \<in> set xs. \<exists>p. heap s a = Some p \<and> passenger_ok p \<and> start_floor p = floor)
     \<and> (\<exists>W. waiting_on_floor s ! nat (floor - 1) = wrap32 W)
     \<and> (\<exists>N. num_waiting s = wrap32 N)
     \<and> 0 \<le> loads (elevator s) \<and> loads (elevator s) \<le> 10
     \<and> (status (elevator s) = 0 \<or> status (elevator s) = 1)"

lemma at_queue_skip: "at_queue floor (x # xs) s \<Longrightarrow> at_queue floor xs s"
  unfolding at_queue_def by (elim conjE exE) (intro conjI; force)

lemma at_queue_take:
  assumes q: "at_queue floor (x # xs) s" and "waiting_list s ! nat (floor - 1) = kept @ x # xs"
    and "loads (elevator s) < 10"
  shows "at_queue floor xs (load_result (nat (floor - 1)) (kept @ xs) [x] s)"
proof -
  have "distinct (kept @ x # xs)" using q assms(2) unfolding at_queue_def by auto
  moreover have "nat (floor - 1) < 10" using q by (auto simp: at_queue_def)
  ultimately show ?thesis
    using q assms(3) unfolding at_queue_def load_result_fields
    by (auto simp del: nat_diff_distrib')
qed

lemma take_aboard_eq:
  assumes "at_queue floor (x # xs) s" and "waiting_list s ! nat (floor - 1) = kept @ x # xs"
    and "start_floor p = floor" and "loads (elevator s) < 10"
  shows "take_aboard floor x p s =
    Inr ((load_result (nat (floor - 1)) (kept @ xs) [x] s)
           \<lparr>elevator := (elevator (load_result (nat (floor - 1)) (kept @ xs) [x] s))
              \<lparr>status := status (elevator s)\<rparr>\<rparr>)"
proof -
  have b: "0 \<le> floor - 1" "floor - 1 < 10" "length (waiting_list s) = 10"
      "length (waiting_on_floor s) = 10" and d: "x \<notin> set kept"
    using assms(1,2) by (auto simp: at_queue_def)
  obtain W N where "waiting_on_floor s ! nat (floor - 1) = wrap32 W" "num_waiting s = wrap32 N"
    using assms(1) unfolding at_queue_def by blast
  moreover have "0 \<le> loads (elevator s)" using assms(1) by (simp add: at_queue_def)
  ultimately show ?thesis
    using assms(2-4) b d
    by (simp add: take_aboard_def res_simps load_result_def list_del_def list_add_tail_def
        remove1_append dec32_def inc32_id)
qed

lemma load_visit_eq:
  assumes "at_queue floor (x # xs) s" and "waiting_list s ! nat (floor - 1) = kept @ x # xs"
  shows "load_visit floor x (s, ld) =
    Inr (if loads (elevator s) < 10 \<and> (zombie_at s x \<or> status (elevator s) = 0)
         then (load_result (nat (floor - 1)) (kept @ xs) [x] s, 1) else (s, ld))"
proof -
  obtain p where p: "heap s x = Some p" "passenger_ok p" "start_floor p = floor"
    using assms(1) unfolding at_queue_def by auto
  have l: "0 \<le> loads (elevator s)" "loads (elevator s) \<le> 10"
      "status (elevator s) = 0 \<or> status (elevator s) = 1"
    using assms(1) by (auto simp: at_queue_def)
  have z: "zombie_at s x \<longleftrightarrow> ptype p = 1" using p by (simp add: zombie_at_def)
  have t: "ptype p = 0 \<or> ptype p = 1" using p by (simp add: passenger_ok_def)
  let ?r = "load_result (nat (floor - 1)) (kept @ xs) [x] s"
  have st: "status (elevator ?r) = (if ptype p = 1 then 1 else status (elevator s))"
    by (simp add: load_result_fields z)
  show ?thesis
  proof (cases "loads (elevator s) < 10")
    case False
    then show ?thesis using p l by (simp add: load_visit_def deref_in res_simps wrap32_id)
  next
    case True
    note ta = take_aboard_eq [OF assms p(3) True]
    have w: "wrap32 (loads (elevator s) + 1) \<le> CAPACITY" using True l by (simp add: wrap32_id)
    show ?thesis
    proof (cases "ptype p = 1")
      case zombie: True
      have "?r\<lparr>elevator := (elevator ?r)\<lparr>status := 1\<rparr>\<rparr> = ?r"
        using st zombie by (intro kstate.equality elevator_status.equality) simp_all
      then show ?thesis
        using p(1,3) w zombie True by (simp add: load_visit_def deref_in res_simps ta z)
    next
      case human: False
      have "status (elevator s) = 0 \<Longrightarrow> ?r\<lparr>elevator := (elevator ?r)\<lparr>status := 0\<rparr>\<rparr> = ?r"
        using st human by (intro kstate.equality elevator_status.equality) simp_all
      then show ?thesis
        using p(1,3) w human t True by (simp add: load_visit_def deref_in res_simps ta z)
    qed
  qed
qed

abbreviation boards_here :: "kstate \<Rightarrow> addr list \<Rightarrow> addr list" where
  "boards_here s xs \<equiv>
     boarding (zombie_at s) (nat (10 - loads (elevator s))) (status (elevator s) = 1) xs"

lemma filter_not_boarding:
  "x \<notin> set xs \<Longrightarrow> filter (\<lambda>a. a \<notin> set (x # boarding z n b xs)) (x # xs)
     = filter (\<lambda>a. a \<notin> set (boarding z n b xs)) xs"
  by (auto intro: filter_cong)

lemma load_loop:
  assumes "at_queue floor xs s" and "waiting_list s ! nat (floor - 1) = kept @ xs"
  shows "for_each_safe (load_visit floor) xs (s, ld) =
    Inr (load_result (nat (floor - 1))
           (kept @ filter (\<lambda>a. a \<notin> set (boards_here s xs)) xs) (boards_here s xs) s,
         if boards_here s xs = [] then ld else 1)"
  using assms
proof (induction xs arbitrary: s kept ld)
  case Nil
  then obtain W N where "waiting_on_floor s ! nat (floor - 1) = wrap32 W" "num_waiting s = wrap32 N"
    unfolding at_queue_def by blast
  with Nil show ?case by (simp add: load_result_Nil)
next
  case (Cons x xs)
  let ?i = "nat (floor - 1)"
  have l: "loads (elevator s) \<le> 10" "status (elevator s) = 0 \<or> status (elevator s) = 1"
    using Cons.prems(1) by (auto simp: at_queue_def)
  have d: "x \<notin> set xs" using Cons.prems unfolding at_queue_def by auto
  note visit = load_visit_eq [OF Cons.prems]
  show ?case
  proof (cases "loads (elevator s) < 10 \<and> (zombie_at s x \<or> status (elevator s) = 0)")
    case True
    let ?s = "load_result ?i (kept @ xs) [x] s"
    define n where "n = nat (9 - loads (elevator s))"
    have n: "nat (10 - loads (elevator s)) = Suc n" using True unfolding n_def by arith
    have "10 - loads (elevator ?s) = 9 - loads (elevator s)" by (simp add: load_result_fields)
    then have n': "nat (10 - loads (elevator ?s)) = n" by (simp only: n_def)
    have b: "boards_here s (x # xs) = x # boards_here ?s xs"
      using True l(2) by (auto simp: n n' boarding_Cons load_result_fields(7))
    have i: "?i < length (waiting_on_floor s)" "?i < length (waiting_list s)"
      using Cons.prems(1) by (auto simp: at_queue_def)
    have "for_each_safe (load_visit floor) xs (?s, 1) =
      Inr (load_result ?i (kept @ filter (\<lambda>a. a \<notin> set (boards_here ?s xs)) xs) (boards_here ?s xs) ?s,
         if boards_here ?s xs = [] then 1 else 1)"
      by (rule Cons.IH) (use at_queue_take [OF Cons.prems] True i in \<open>auto simp: load_result_fields\<close>)
    then show ?thesis
      unfolding b filter_not_boarding [OF d]
      by (simp add: visit True res_simps load_result_Cons [OF i(1)] cong: if_cong)
  next
    case False
    have b: "boards_here s (x # xs) = boards_here s xs"
    proof (cases "loads (elevator s) < 10")
      case True
      then have n: "nat (10 - loads (elevator s)) = Suc (nat (9 - loads (elevator s)))" by arith
      with True False l(2) show ?thesis by (auto simp: n boarding_Cons)
    qed simp
    have "x \<notin> set (boards_here s xs)" using d set_boarding by (meson subsetD)
    then have f: "(kept @ [x]) @ filter (\<lambda>a. a \<notin> set (boards_here s xs)) xs
        = kept @ filter (\<lambda>a. a \<notin> set (boards_here s xs)) (x # xs)"
      by simp
    have "for_each_safe (load_visit floor) xs (s, ld) =
      Inr (load_result ?i ((kept @ [x]) @ filter (\<lambda>a. a \<notin> set (boards_here s xs)) xs) (boards_here s xs) s,
         if boards_here s xs = [] then ld else 1)"
      by (rule Cons.IH) (use at_queue_skip [OF Cons.prems(1)] Cons.prems(2) in auto)
    moreover have "load_visit floor x (s, ld) = Inr (s, ld)"
      by (simp only: visit False if_False)
    ultimately show ?thesis by (simp only: for_each_safe.simps rbind.simps b f)
  qed
qed

section \<open>loadPassengers\<close>

definition loaded_state :: "kstate \<Rightarrow> kstate" where
  "loaded_state s =
     (let i = nat (current_floor (elevator s) - 1); q = waiting_list s ! i; b = boards_here s q
      in load_result i (filter (\<lambda>a. a \<notin> set b) q) b s)"

abbreviation queue_here :: "kstate \<Rightarrow> addr list" where
  "queue_here s \<equiv> waiting_list s ! nat (current_floor (elevator s) - 1)"

lemma wf_position:
  assumes "well_formed s"
  shows "1 \<le> current_floor (elevator s)" and "current_floor (elevator s) \<le> 10"
    and "nat (current_floor (elevator s) - 1) < 10"
    and "length (waiting_list s) = 10" and "length (waiting_on_floor s) = 10"
  using wfD(3,4,7) [OF assms] by (auto simp: position_ok_def queues_ok_def counts_ok_def)

lemma wf_waiting:
  assumes "well_formed s" and "i < 10" and "a \<in> set (waiting_list s ! i)"
  obtains p where "heap s a = Some p" and "passenger_ok p" and "start_floor p = int i + 1"
proof -
  have "a \<in> set (concat (waiting_list s))"
    using assms wf_position(4) [OF assms(1)] concat_nth_subset by fastforce
  then obtain p where p: "heap s a = Some p"
    using linked_heap [OF wfD(1) [OF assms(1)]] by (auto simp: linked_def)
  show thesis
    by (rule that [OF p])
      (use p assms wfD(2,3) [OF assms(1)] in \<open>auto simp: heap_ok_def queues_ok_def\<close>)
qed

lemma wf_at_queue:
  assumes "well_formed s"
  shows "at_queue (current_floor (elevator s)) (queue_here s) s"
proof -
  let ?f = "current_floor (elevator s)"
  note pos = wf_position [OF assms]
  have "distinct (queue_here s)"
    using distinct_concat_nth [of "waiting_list s" "nat (?f - 1)"] wfD(1) [OF assms] pos(3,4)
    by (simp add: links_ok_def linked_def)
  moreover have "\<exists>p. heap s a = Some p \<and> passenger_ok p \<and> start_floor p = ?f"
    if "a \<in> set (queue_here s)" for a
    by (rule wf_waiting [OF assms pos(3) that]) (use pos in auto)
  moreover have "\<exists>W. waiting_on_floor s ! nat (?f - 1) = wrap32 W" "\<exists>N. num_waiting s = wrap32 N"
    using wfD(4) [OF assms] pos(3) by (auto simp: counts_ok_def)
  moreover have "status (elevator s) = 0 \<or> status (elevator s) = 1"
    using wfD(6) [OF assms] by (simp add: infection_ok_def)
  moreover have "\<exists>kept. queue_here s = kept @ queue_here s \<and> distinct (kept @ queue_here s)"
    using calculation(1) by (intro exI [of _ "[]"]) simp
  ultimately show ?thesis
    using pos wf_loads_range [OF assms] unfolding at_queue_def by blast
qed

lemma load_result_mutex:
  "mutex (thread1 s) = None \<Longrightarrow> set_mutex None (load_result i r b (set_mutex m s)) = load_result i r b s"
  by (rule kstate.equality)
    (auto simp: load_result_def set_mutex_def zombie_at_def thread_mutex_None)

lemma loadPassengers_eq:
  assumes "well_formed s"
  shows "loadPassengers me 0 s =
    Inr (if boards_here s (queue_here s) = [] then 0 else 1, loaded_state s)"
proof -
  let ?f = "current_floor (elevator s)" and ?q = "queue_here s"
  let ?i = "nat (?f - 1)" and ?m = "set_mutex (Some me) s"
  note pos = wf_position [OF assms]
  have z: "zombie_at ?m = zombie_at s" by (simp add: zombie_at_def fun_eq_iff)
  have g: "aget (waiting_list ?m) (?f - 1) = Inr ?q" using pos by (simp add: res_simps)
  have "at_queue ?f ?q ?m" using wf_at_queue [OF assms] by (simp add: at_queue_def)
  then have "for_each_safe (load_visit ?f) ?q (?m, 0) =
    Inr (load_result ?i (filter (\<lambda>a. a \<notin> set (boards_here s ?q)) ?q) (boards_here s ?q) ?m,
         if boards_here s ?q = [] then 0 else 1)"
    using load_loop [of ?f ?q ?m "[]" 0] by (simp add: z)
  then have "locked_region me 0 (\<lambda>(s, l). rbind (aget (waiting_list s) (?f - 1)) (\<lambda>q.
                             for_each_safe (load_visit ?f) q (s, l))) (s, 0)
    = Inr (set_mutex None (load_result ?i (filter (\<lambda>a. a \<notin> set (boards_here s ?q)) ?q)
             (boards_here s ?q) ?m), if boards_here s ?q = [] then 0 else 1)"
    by (intro locked_region_taken) (simp_all add: g [simplified] res_simps load_result_fields)
  then show ?thesis
    by (simp add: loadPassengers_def Let_def res_simps load_result_mutex [OF wfD(9) [OF assms]]
        loaded_state_def)
qed

lemma loadPassengers_interrupted:
  "well_formed s \<Longrightarrow> lk \<noteq> 0 \<Longrightarrow> loadPassengers me lk s = Inl UnlockNotOwner"
  by (simp add: loadPassengers_def locked_region_interrupted wfD(9) res_simps Let_def)

lemma mset_filter_out:
  "distinct q \<Longrightarrow> distinct b \<Longrightarrow> set b \<subseteq> set q \<Longrightarrow> mset (filter (\<lambda>a. a \<notin> set b) q) + mset b = mset q"
proof -
  assume d: "distinct q" "distinct b" "set b \<subseteq> set q"
  have "distinct (filter (\<lambda>a. a \<notin> set b) q @ b)" using d by auto
  moreover have "set (filter (\<lambda>a. a \<notin> set b) q @ b) = set q" using d(3) by auto
  ultimately have "mset (filter (\<lambda>a. a \<notin> set b) q @ b) = mset q"
    using d(1) set_eq_iff_mset_eq_distinct by blast
  then show ?thesis by simp
qed

lemma wf_queue_distinct:
  "well_formed s \<Longrightarrow> i < 10 \<Longrightarrow> distinct (waiting_list s ! i)"
  using distinct_concat_nth [of "waiting_list s" i] wfD(1) [of s] wf_position(4) [of s]
  by (simp add: links_ok_def linked_def)

lemma wf_loaded:
  assumes "well_formed s"
  shows "well_formed (loaded_state s)"
proof -
  let ?i = "nat (current_floor (elevator s) - 1)" and ?q = "queue_here s"
  let ?b = "boards_here s ?q"
  let ?r = "filter (\<lambda>a. a \<notin> set ?b) ?q"
  let ?t = "load_result ?i ?r ?b s"
  note pos = wf_position [OF assms]
  have dq: "distinct ?q" by (rule wf_queue_distinct [OF assms pos(3)])
  have ms: "mset ?r + mset ?b = mset ?q"
    using dq by (intro mset_filter_out distinct_boarding set_boarding)
  have len: "int (length ?q) = int (length ?r) + int (length ?b)"
    using arg_cong [OF ms, of size] by (simp del: mset_filter)
  have up: "mset (concat ((waiting_list s)[?i := ?r])) + mset ?q = mset (concat (waiting_list s)) + mset ?r"
    by (rule mset_concat_update) (use pos in simp)
  then have "mset (concat ((waiting_list s)[?i := ?r])) + mset ?b + mset ?r = mset (concat (waiting_list s)) + mset ?r"
    by (simp only: ms [symmetric] ac_simps)
  then have cb: "mset (concat ((waiting_list s)[?i := ?r])) + mset ?b = mset (concat (waiting_list s))"
    by (simp only: add_right_cancel)
  have "mset (linked ?t) = mset (linked s)"
    unfolding linked_def load_result_fields
    by (simp only: mset_append cb [symmetric] ac_simps)
  then have "links_ok ?t"
    using wfD(1) [OF assms] links_ok_mset unfolding links_ok_def load_result_fields by blast
  moreover have "heap_ok ?t"
    using wfD(2) [OF assms] by (simp add: heap_ok_def load_result_fields)
  moreover have "queues_ok ?t"
    using wfD(3) [OF assms] pos(3) unfolding queues_ok_def load_result_fields
    by (auto simp: nth_list_update)
  moreover have "counts_ok ?t"
  proof -
    have "int (length (concat ((waiting_list s)[?i := ?r])))
        = int (length (concat (waiting_list s))) - int (length ?b)"
      using length_concat_update [of ?i "waiting_list s" ?r] pos(3,4) len by linarith
    moreover have "int (length ?r) = int (length ?q) - int (length ?b)" using len by linarith
    ultimately show ?thesis
      using wfD(4) [OF assms] pos(3,4) unfolding counts_ok_def load_result_fields
      by (auto simp: nth_list_update simp del: length_concat)
  qed
  moreover have "loads_ok ?t"
  proof -
    have "length ?b \<le> nat (10 - loads (elevator s))" by (rule length_boarding)
    then have "int (length ?b) \<le> 10 - loads (elevator s)"
      using wf_loads_range [OF assms] by (simp add: le_nat_iff)
    then show ?thesis
      using wf_loads_range [OF assms] by (simp add: loads_ok_def load_result_fields)
  qed
  moreover have "infection_ok ?t"
  proof -
    have "\<exists>a \<in> set ?b. zombie_at s a \<Longrightarrow> 0 < loads (elevator s) + int (length ?b)"
      using wf_loads_range [OF assms] by (cases ?b) auto
    then show ?thesis
      using wfD(6) [OF assms]
      unfolding infection_ok_def load_result_fields zombie_at_load_result by auto
  qed
  moreover have "position_ok (elevator ?t)" "flags_ok (elevator ?t)" "mutex (thread1 ?t) = None"
    using wfD(7,8,9) [OF assms] by (auto simp: position_ok_def flags_ok_def load_result_fields)
  ultimately show ?thesis by (simp add: well_formed_def loaded_state_def Let_def)
qed

end
