(* ===== verification/ElevatorCalls.thy ===== *)
theory ElevatorCalls
  imports Loading
begin

text \<open>
  The three operations that the system calls reach, \<open>start_elevator\<close>, \<open>issue_request\<close> and
  \<open>stop_elevator\<close>, and \<open>removeAllPassengers\<close>, which the module's exit runs. \<open>me\<close> is the
  calling thread, \<open>lk\<close> what \<open>mutex_lock_interruptible\<close> returned and \<open>km\<close> what \<open>kmalloc\<close>
  returned (\<open>None\<close> for \<open>NULL\<close>).
\<close>

section \<open>The code\<close>

definition start_elevator :: "kstate \<Rightarrow> int \<times> kstate" where
  "start_elevator s =
     (if started (elevator s) \<noteq> 0 then (1, s)
      else (0, s\<lparr>elevator := (elevator s)\<lparr>started := 1, deactiving := 0\<rparr>\<rparr>))"

definition enqueue_passenger ::
  "addr option \<Rightarrow> int \<Rightarrow> int \<Rightarrow> int \<Rightarrow> kstate \<Rightarrow> fault + kstate" where
  "enqueue_passenger km start dest type s =
     (case km of None \<Rightarrow> Inl NullDeref
      | Some a \<Rightarrow>
          let p = \<lparr>ptype = type, start_floor = start, destination_floor = dest\<rparr>;
              s = s\<lparr>heap := store_obj a p (heap s)\<rparr>
          in rbind (aget (waiting_list s) (start - 1)) (\<lambda>q.
             rbind (aset (waiting_list s) (start - 1) (list_add_tail a q)) (\<lambda>wl.
             rbind (aget (waiting_on_floor s) (start_floor p - 1)) (\<lambda>n.
             rbind (aset (waiting_on_floor s) (start_floor p - 1) (inc32 n)) (\<lambda>wof.
               Inr (s\<lparr>waiting_list := wl, waiting_on_floor := wof,
                      num_waiting := inc32 (num_waiting s)\<rparr>))))))"

definition request_critical ::
  "nat \<Rightarrow> int \<Rightarrow> addr option \<Rightarrow> int \<Rightarrow> int \<Rightarrow> int \<Rightarrow> kstate \<Rightarrow> fault + (int \<times> kstate)" where
  "request_critical me lk km start dest type s =
     rbind (locked_region me lk
             (\<lambda>(s, l). if deactiving (elevator s) = 0
                       then rbind (enqueue_passenger km start dest type s) (\<lambda>s. Inr (s, l))
                       else Inr (s, l)) (s, ()))
           (\<lambda>(s, _). Inr (0, s))"

definition issue_request ::
  "nat \<Rightarrow> int \<Rightarrow> addr option \<Rightarrow> int \<Rightarrow> int \<Rightarrow> int \<Rightarrow> kstate \<Rightarrow> fault + (int \<times> kstate)" where
  "issue_request me lk km start dest type s =
     (if started (elevator s) = 0 then Inr (1, s)
      else if type < 0 \<or> type > 1 then Inr (1, s)
      else if start < 1 \<or> start > FLOORS then Inr (1, s)
      else if dest < 1 \<or> dest > FLOORS then Inr (1, s)
      else request_critical me lk km start dest type s)"

definition unlink_onboard :: "kstate \<times> addr list \<Rightarrow> fault + (kstate \<times> addr list)" where
  "unlink_onboard = (\<lambda>(s, delete_list).
     rbind (move_all (onboard (elevator s)) delete_list) (\<lambda>(rest, delete_list).
       Inr (s\<lparr>elevator := (elevator s)\<lparr>onboard := rest\<rparr>\<rparr>, delete_list)))"

definition stop_offload :: "nat \<Rightarrow> int \<Rightarrow> kstate \<Rightarrow> fault + (int \<times> kstate)" where
  "stop_offload me lk s =
     rbind (locked_region me lk unlink_onboard (s, [])) (\<lambda>(s, delete_list).
     rbind (free_all delete_list (heap s)) (\<lambda>h. Inr (0, s\<lparr>heap := h\<rparr>)))"

definition stop_elevator :: "nat \<Rightarrow> int \<Rightarrow> kstate \<Rightarrow> fault + (int \<times> kstate)" where
  "stop_elevator me lk s =
     (if started (elevator s) = 0 then Inr (1, s)
      else if deactiving (elevator s) \<noteq> 0 then Inr (1, s)
      else let s = s\<lparr>elevator := (elevator s)\<lparr>deactiving := 1\<rparr>\<rparr>;
               s = s\<lparr>elevator := (elevator s)\<lparr>started := 0\<rparr>\<rparr>
           in stop_offload me lk s)"

definition unlink_floor :: "nat \<Rightarrow> kstate \<times> addr list \<Rightarrow> fault + (kstate \<times> addr list)" where
  "unlink_floor i = (\<lambda>(s, delete_list).
     rbind (aget (waiting_list s) (int i)) (\<lambda>q.
     rbind (move_all q delete_list) (\<lambda>(rest, delete_list).
     rbind (aset (waiting_list s) (int i) rest) (\<lambda>wl.
       Inr (s\<lparr>waiting_list := wl\<rparr>, delete_list)))))"

definition removeAllPassengers :: "nat \<Rightarrow> int \<Rightarrow> kstate \<Rightarrow> fault + kstate" where
  "removeAllPassengers me lk s =
     rbind (locked_region me lk
              (\<lambda>x. rbind (unlink_onboard x) (for_upto (nat FLOORS) unlink_floor)) (s, []))
       (\<lambda>(s, delete_list).
     rbind (free_all delete_list (heap s)) (\<lambda>h. Inr (s\<lparr>heap := h\<rparr>)))"

section \<open>start_elevator\<close>

lemma wf_start: "well_formed s \<Longrightarrow> well_formed (snd (start_elevator s))"
  by (auto simp: start_elevator_def well_formed_def wf_parts linked_def zombie_at_def)

section \<open>issue_request\<close>

definition request_valid :: "int \<Rightarrow> int \<Rightarrow> int \<Rightarrow> bool" where
  "request_valid start dest type \<longleftrightarrow> 0 \<le> type \<and> type \<le> 1
     \<and> 1 \<le> start \<and> start \<le> FLOORS \<and> 1 \<le> dest \<and> dest \<le> FLOORS"

definition requested_state :: "addr \<Rightarrow> int \<Rightarrow> int \<Rightarrow> int \<Rightarrow> kstate \<Rightarrow> kstate" where
  "requested_state a start dest type s =
     (let i = nat (start - 1) in
      s\<lparr>heap := (heap s)(a \<mapsto> \<lparr>ptype = type, start_floor = start, destination_floor = dest\<rparr>),
        waiting_list := (waiting_list s)[i := waiting_list s ! i @ [a]],
        waiting_on_floor := (waiting_on_floor s)[i := inc32 (waiting_on_floor s ! i)],
        num_waiting := inc32 (num_waiting s)\<rparr>)"

lemma issue_request_rejected:
  "started (elevator s) = 0 \<or> \<not> request_valid start dest type \<Longrightarrow>
   issue_request me lk km start dest type s = Inr (1, s)"
  by (auto simp: issue_request_def request_valid_def)

lemma enqueue_passenger_eq:
  assumes "length (waiting_list s) = 10" and "length (waiting_on_floor s) = 10"
    and "1 \<le> start" and "start \<le> 10"
  shows "enqueue_passenger (Some a) start dest type (set_mutex m s) =
    Inr (set_mutex m (requested_state a start dest type s))"
  using assms
  by (auto simp: enqueue_passenger_def requested_state_def Let_def res_simps store_obj_def
      list_add_tail_def set_mutex_def intro!: kstate.equality)

lemma set_mutex_set_mutex: "mutex (thread1 s) = None \<Longrightarrow> set_mutex None (set_mutex m s) = s"
  by (rule kstate.equality) (simp_all add: set_mutex_def thread_mutex_None)

lemma requested_state_elevator [simp]: "elevator (requested_state a start dest type s) = elevator s"
  by (simp add: requested_state_def Let_def)

lemma requested_state_mutex: "thread1 (requested_state a start dest type s) = thread1 s"
  by (simp add: requested_state_def Let_def)

lemma request_critical_queues:
  assumes "mutex (thread1 s) = None" and "length (waiting_list s) = 10"
    and "length (waiting_on_floor s) = 10" and "deactiving (elevator s) = 0"
    and "request_valid start dest type"
  shows "request_critical me 0 (Some a) start dest type s = Inr (0, requested_state a start dest type s)"
proof -
  have v: "1 \<le> start" "start \<le> 10" using assms(5) by (auto simp: request_valid_def)
  let ?body = "\<lambda>(s, l :: unit). if deactiving (elevator s) = 0
     then rbind (enqueue_passenger (Some a) start dest type s) (\<lambda>s. Inr (s, l)) else Inr (s, l)"
  have "?body (set_mutex (Some me) s, ()) = Inr (set_mutex (Some me) (requested_state a start dest type s), ())"
    by (simp add: assms(4) enqueue_passenger_eq [OF assms(2,3) v] res_simps)
  then have "locked_region me 0 ?body (s, ()) =
      Inr (set_mutex None (set_mutex (Some me) (requested_state a start dest type s)), ())"
    by (rule locked_region_taken) simp
  also have "\<dots> = Inr (requested_state a start dest type s, ())"
    using assms(1) by (simp add: set_mutex_set_mutex requested_state_mutex)
  finally show ?thesis by (simp add: request_critical_def res_simps)
qed

lemma request_critical_accepted:
  assumes "well_formed s" and "deactiving (elevator s) = 0" and "request_valid start dest type"
  shows "request_critical me 0 (Some a) start dest type s = Inr (0, requested_state a start dest type s)"
  by (rule request_critical_queues)
    (use assms wfD(9) [OF assms(1)] wf_position [OF assms(1)] in simp_all)

text \<open>Between the flag of a stop and its end, a request is dropped and still returns 0.\<close>

lemma request_critical_ignored:
  assumes "well_formed s" and "deactiving (elevator s) \<noteq> 0"
  shows "request_critical me 0 km start dest type s = Inr (0, s)"
  using assms(2) set_mutex_set_mutex [OF wfD(9) [OF assms(1)]]
  by (simp add: request_critical_def locked_region_def Let_def mutex_lock_interruptible_def res_simps)

lemma request_critical_no_memory:
  assumes "deactiving (elevator s) = 0" and "mutex (thread1 s) = None"
  shows "request_critical me 0 None start dest type s = Inl NullDeref"
  using assms
  by (simp add: request_critical_def locked_region_def Let_def mutex_lock_interruptible_def
      enqueue_passenger_def res_simps)

lemma request_critical_interrupted:
  "well_formed s \<Longrightarrow> lk \<noteq> 0 \<Longrightarrow> request_critical me lk km start dest type s = Inl UnlockNotOwner"
  by (simp add: request_critical_def res_simps locked_region_interrupted wfD(9))

lemma issue_request_enters:
  "started (elevator s) \<noteq> 0 \<Longrightarrow> request_valid start dest type \<Longrightarrow>
   issue_request me lk km start dest type s = request_critical me lk km start dest type s"
  by (simp add: issue_request_def request_valid_def)

lemma issue_request_accepted:
  assumes "well_formed s" and "started (elevator s) \<noteq> 0" and "deactiving (elevator s) = 0"
    and "request_valid start dest type"
  shows "issue_request me 0 (Some a) start dest type s = Inr (0, requested_state a start dest type s)"
  using assms by (simp add: issue_request_enters request_critical_accepted)

lemma issue_request_no_memory:
  assumes "well_formed s" and "started (elevator s) \<noteq> 0" and "deactiving (elevator s) = 0"
    and "request_valid start dest type"
  shows "issue_request me 0 None start dest type s = Inl NullDeref"
  using assms by (simp add: issue_request_enters request_critical_no_memory wfD(9))

lemma issue_request_interrupted:
  assumes "well_formed s" and "started (elevator s) \<noteq> 0" and "request_valid start dest type" and "lk \<noteq> 0"
  shows "issue_request me lk km start dest type s = Inl UnlockNotOwner"
  using assms by (simp add: issue_request_enters request_critical_interrupted)

lemma wf_requested:
  assumes "well_formed s" and "request_valid start dest type" and "a \<notin> dom (heap s)"
  shows "well_formed (requested_state a start dest type s)"
proof -
  let ?i = "nat (start - 1)" and ?t = "requested_state a start dest type s"
  let ?p = "\<lparr>ptype = type, start_floor = start, destination_floor = dest\<rparr>"
  have i: "?i < 10" "int ?i + 1 = start" using assms(2) by (auto simp: request_valid_def)
  have p: "passenger_ok ?p" using assms(2) by (auto simp: request_valid_def passenger_ok_def)
  note pos = wf_position [OF assms(1)]
  have fields: "waiting_list ?t = (waiting_list s)[?i := waiting_list s ! ?i @ [a]]"
      "waiting_on_floor ?t = (waiting_on_floor s)[?i := inc32 (waiting_on_floor s ! ?i)]"
      "heap ?t = (heap s)(a \<mapsto> ?p)" "num_waiting ?t = inc32 (num_waiting s)"
      "elevator ?t = elevator s" "serviced ?t = serviced s" "thread1 ?t = thread1 s"
    by (simp_all add: requested_state_def Let_def)
  have fresh: "a \<notin> set (linked s)" using assms(3) wfD(1) [OF assms(1)] by (simp add: links_ok_def)
  have "mset (concat ((waiting_list s)[?i := waiting_list s ! ?i @ [a]])) + mset (waiting_list s ! ?i)
      = mset (concat (waiting_list s)) + mset (waiting_list s ! ?i @ [a])"
    by (rule mset_concat_update) (use i pos in simp)
  then have "mset (concat (waiting_list ?t)) = add_mset a (mset (concat (waiting_list s)))"
    by (simp add: fields del: mset_concat)
  then have ml: "mset (linked ?t) = mset (a # linked s)"
    by (simp add: linked_def fields del: mset_concat)
  have "links_ok ?t"
    using wfD(1) [OF assms(1)] fresh mset_eq_setD [OF ml] mset_eq_imp_distinct_iff [OF ml]
    by (simp add: links_ok_def fields)
  moreover have "heap_ok ?t"
    using wfD(2) [OF assms(1)] p by (simp add: heap_ok_def fields)
  moreover have "queues_ok ?t"
  proof -
    have "heap s b = Some q \<Longrightarrow> a \<noteq> b" for b q using assms(3) by auto
    moreover have "a \<notin> set (waiting_list s ! j)" if "j < 10" for j
      using fresh that pos(4) concat_nth_subset by (fastforce simp: linked_def)
    ultimately show ?thesis
      using wfD(3) [OF assms(1)] i unfolding queues_ok_def fields
      by (auto simp: nth_list_update)
  qed
  moreover have "counts_ok ?t"
    using wfD(4) [OF assms(1)] i pos length_concat_update [of ?i "waiting_list s" "waiting_list s ! ?i @ [a]"]
    unfolding counts_ok_def fields
    by (auto simp: nth_list_update inc32_wrap32 add.commute simp del: length_concat)
  moreover have "infection_ok ?t"
  proof -
    have "a \<notin> set (onboard (elevator s))" using fresh by (simp add: linked_def)
    then have "b \<in> set (onboard (elevator s)) \<Longrightarrow> zombie_at ?t b \<longleftrightarrow> zombie_at s b" for b
      by (auto simp: zombie_at_def fields)
    then show ?thesis using wfD(6) [OF assms(1)] by (auto simp: infection_ok_def fields)
  qed
  ultimately show ?thesis
    using wfD(5,7,8,9) [OF assms(1)] by (simp add: well_formed_def loads_ok_def fields)
qed

section \<open>stop_elevator\<close>

definition offloaded_state :: "kstate \<Rightarrow> kstate" where
  "offloaded_state s =
     s\<lparr>elevator := (elevator s)\<lparr>onboard := []\<rparr>, heap := heap s |` (- set (onboard (elevator s)))\<rparr>"

definition stopped_state :: "kstate \<Rightarrow> kstate" where
  "stopped_state s = offloaded_state (s\<lparr>elevator := (elevator s)\<lparr>deactiving := 1, started := 0\<rparr>\<rparr>)"

lemmas stopped_defs = stopped_state_def offloaded_state_def

lemma unlink_onboard_eq:
  "unlink_onboard (s, dl) =
     Inr (s\<lparr>elevator := (elevator s)\<lparr>onboard := []\<rparr>\<rparr>, dl @ onboard (elevator s))"
  by (simp add: unlink_onboard_def move_all_eq res_simps)

lemma stop_elevator_refused:
  "started (elevator s) = 0 \<or> deactiving (elevator s) \<noteq> 0 \<Longrightarrow> stop_elevator me lk s = Inr (1, s)"
  by (auto simp: stop_elevator_def)

lemma stop_offload_eq:
  assumes "well_formed s"
  shows "stop_offload me 0 s = Inr (0, offloaded_state s)"
proof -
  let ?on = "onboard (elevator s)"
  have "unlink_onboard (set_mutex (Some me) s, []) =
      Inr ((set_mutex (Some me) s)\<lparr>elevator := (elevator s)\<lparr>onboard := []\<rparr>\<rparr>, ?on)"
    by (simp add: unlink_onboard_eq)
  then have region: "locked_region me 0 unlink_onboard (s, []) =
      Inr (set_mutex None ((set_mutex (Some me) s)\<lparr>elevator := (elevator s)\<lparr>onboard := []\<rparr>\<rparr>), ?on)"
    by (rule locked_region_taken) simp
  have "distinct ?on" "set ?on \<subseteq> dom (heap s)"
    using wfD(1) [OF assms(1)] by (auto simp: links_ok_def linked_def)
  then have free: "free_all ?on (heap s) = Inr (heap s |` (- set ?on))" by (rule free_all_eq)
  have "(set_mutex None ((set_mutex (Some me) s)\<lparr>elevator := (elevator s)\<lparr>onboard := []\<rparr>\<rparr>))
      \<lparr>heap := heap s |` (- set ?on)\<rparr> = offloaded_state s"
    by (rule kstate.equality)
      (simp_all add: offloaded_state_def set_mutex_def thread_mutex_None [OF wfD(9) [OF assms(1)]])
  then show ?thesis by (simp add: stop_offload_def region res_simps free)
qed

lemma stop_offload_interrupted:
  "well_formed s \<Longrightarrow> lk \<noteq> 0 \<Longrightarrow> stop_offload me lk s = Inl UnlockNotOwner"
  by (simp add: stop_offload_def locked_region_interrupted wfD(9) res_simps)

lemma wf_set_started:
  "well_formed s \<Longrightarrow> i = 0 \<or> i = 1 \<Longrightarrow> well_formed (s\<lparr>elevator := (elevator s)\<lparr>started := i\<rparr>\<rparr>)"
  by (auto simp: well_formed_def wf_parts linked_def zombie_at_def)

lemma wf_set_deactiving:
  "well_formed s \<Longrightarrow> d = 0 \<or> d = 1 \<Longrightarrow> well_formed (s\<lparr>elevator := (elevator s)\<lparr>deactiving := d\<rparr>\<rparr>)"
  by (auto simp: well_formed_def wf_parts linked_def zombie_at_def)

lemma wf_stop_flags:
  "well_formed s \<Longrightarrow> well_formed (s\<lparr>elevator := (elevator s)\<lparr>deactiving := 1, started := 0\<rparr>\<rparr>)"
  using wf_set_started [OF wf_set_deactiving [of s 1], of 0] by simp

lemma stop_elevator_eq:
  assumes "well_formed s" and "started (elevator s) \<noteq> 0" and "deactiving (elevator s) = 0"
  shows "stop_elevator me 0 s = Inr (0, stopped_state s)"
  using stop_offload_eq [OF wf_stop_flags [OF assms(1)], of me] assms(2,3)
  by (simp add: stop_elevator_def stopped_state_def)

lemma stop_elevator_interrupted:
  assumes "well_formed s" and "started (elevator s) \<noteq> 0" and "deactiving (elevator s) = 0" and "lk \<noteq> 0"
  shows "stop_elevator me lk s = Inl UnlockNotOwner"
  using stop_offload_interrupted [OF wf_stop_flags [OF assms(1)] assms(4), of me] assms(2,3)
  by (simp add: stop_elevator_def)

lemma call_results:
  "issue_request me lk km start dest type s = Inr (r, s') \<Longrightarrow> r = 0 \<or> r = 1"
  "stop_elevator me lk s = Inr (r, s') \<Longrightarrow> r = 0 \<or> r = 1"
  by (auto simp: issue_request_def request_critical_def stop_elevator_def stop_offload_def Let_def
      rbind_eq_Inr split: if_splits)

lemma wf_offloaded:
  assumes "well_formed s"
  shows "well_formed (offloaded_state s)"
proof -
  let ?t = "offloaded_state s"
  have fields: "onboard (elevator ?t) = []" "waiting_list ?t = waiting_list s"
      "waiting_on_floor ?t = waiting_on_floor s" "num_waiting ?t = num_waiting s"
      "serviced ?t = serviced s" "thread1 ?t = thread1 s"
      "heap ?t = heap s |` (- set (onboard (elevator s)))"
      "loads (elevator ?t) = loads (elevator s)" "status (elevator ?t) = status (elevator s)"
      "started (elevator ?t) = started (elevator s)" "deactiving (elevator ?t) = deactiving (elevator s)"
      "state (elevator ?t) = state (elevator s)"
      "current_floor (elevator ?t) = current_floor (elevator s)"
      "next_floor (elevator ?t) = next_floor (elevator s)"
    by (simp_all add: offloaded_state_def)
  have sub: "heap ?t a = Some p \<Longrightarrow> heap s a = Some p" for a p
    by (auto simp: fields restrict_map_def split: if_splits)
  have "links_ok ?t" using wfD(1) [OF assms] by (auto simp: links_ok_def linked_def fields)
  moreover have "heap_ok ?t" using wfD(2) [OF assms] sub unfolding heap_ok_def by blast
  moreover have "queues_ok ?t" using wfD(3) [OF assms] sub unfolding queues_ok_def fields by blast
  moreover have "counts_ok ?t" using wfD(4) [OF assms] by (simp add: counts_ok_def fields)
  moreover have "loads_ok ?t" using wf_loads_range [OF assms] by (simp add: loads_ok_def fields)
  moreover have "infection_ok ?t" using wfD(6) [OF assms] by (simp add: infection_ok_def fields)
  moreover have "position_ok (elevator ?t)" "flags_ok (elevator ?t)" "mutex (thread1 ?t) = None"
    using wfD(7,8,9) [OF assms] by (simp_all add: position_ok_def flags_ok_def fields)
  ultimately show ?thesis by (simp add: well_formed_def)
qed

lemma wf_stopped: "well_formed s \<Longrightarrow> well_formed (stopped_state s)"
  unfolding stopped_state_def by (intro wf_offloaded wf_stop_flags)

section \<open>removeAllPassengers\<close>

lemma unlink_floors:
  "n \<le> length (waiting_list s) \<Longrightarrow>
   for_upto n unlink_floor (s, dl) =
     Inr (s\<lparr>waiting_list := replicate n [] @ drop n (waiting_list s)\<rparr>,
          dl @ concat (take n (waiting_list s)))"
proof (induction n)
  case 0
  then show ?case by (simp add: res_simps)
next
  case (Suc n)
  let ?wl = "waiting_list s"
  let ?s = "s\<lparr>waiting_list := replicate n [] @ drop n ?wl\<rparr>"
  have n: "n < length ?wl" using Suc.prems by simp
  have nth: "(replicate n [] @ drop n ?wl) ! n = ?wl ! n" using n by (simp add: nth_append)
  have upd: "(replicate n [] @ drop n ?wl)[n := []] = replicate (Suc n) [] @ drop (Suc n) ?wl"
    using n by (simp add: list_update_append Cons_nth_drop_Suc [symmetric]
        replicate_append_same [symmetric])
  have "unlink_floor n (?s, dl @ concat (take n ?wl)) =
      Inr (s\<lparr>waiting_list := replicate (Suc n) [] @ drop (Suc n) ?wl\<rparr>,
           dl @ concat (take n ?wl) @ ?wl ! n)"
    using n by (simp add: unlink_floor_def res_simps move_all_eq nth upd)
  then show ?case
    using Suc n by (simp only: for_upto_Suc rbind.simps) (simp add: take_Suc_conv_app_nth)
qed

text \<open>All passengers gone, the counters as they were.\<close>

definition emptied_state :: "kstate \<Rightarrow> kstate" where
  "emptied_state s = s\<lparr>elevator := (elevator s)\<lparr>onboard := []\<rparr>,
     waiting_list := replicate (nat FLOORS) [], heap := Map.empty\<rparr>"

lemma removeAllPassengers_eq:
  assumes "well_formed s"
  shows "removeAllPassengers me 0 s = Inr (emptied_state s)"
proof -
  let ?m = "set_mutex (Some me) s" and ?on = "onboard (elevator s)"
  let ?u = "?m\<lparr>elevator := (elevator s)\<lparr>onboard := []\<rparr>\<rparr>"
  let ?e = "?u\<lparr>waiting_list := replicate 10 []\<rparr>"
  have len: "length (waiting_list s) = 10" by (rule wf_position(4) [OF assms])
  have "rbind (unlink_onboard (?m, [])) (for_upto (nat FLOORS) unlink_floor) = Inr (?e, linked s)"
    using unlink_floors [of 10 ?u ?on] len
    by (simp add: unlink_onboard_eq res_simps linked_def)
  then have region: "locked_region me 0
      (\<lambda>x. rbind (unlink_onboard x) (for_upto (nat FLOORS) unlink_floor)) (s, []) =
      Inr (set_mutex None ?e, linked s)"
    by (rule locked_region_taken) simp
  have lk: "distinct (linked s)" "set (linked s) = dom (heap s)"
    using wfD(1) [OF assms] by (auto simp: links_ok_def)
  then have "free_all (linked s) (heap s) = Inr (heap s |` (- set (linked s)))"
    by (intro free_all_eq) simp_all
  also have "heap s |` (- set (linked s)) = Map.empty"
    unfolding lk(2) by (rule ext) (auto simp: restrict_map_def)
  finally have free: "free_all (linked s) (heap (set_mutex None ?e)) = Inr Map.empty" by simp
  have "(set_mutex None ?e)\<lparr>heap := Map.empty\<rparr> = emptied_state s"
    by (rule kstate.equality)
      (simp_all add: emptied_state_def set_mutex_def thread_mutex_None [OF wfD(9) [OF assms]])
  then show ?thesis
    unfolding removeAllPassengers_def region rbind.simps prod.case free by simp
qed

lemma removeAllPassengers_result:
  assumes "well_formed s"
  shows "removeAllPassengers me lk s = (if lk = 0 then Inr (emptied_state s) else Inl UnlockNotOwner)"
  using assms
  by (simp add: removeAllPassengers_eq)
    (simp add: removeAllPassengers_def locked_region_interrupted wfD(9) res_simps)

end
