(* ===== verification/Movement.thy ===== *)
theory Movement
  imports ElevatorState
begin

text \<open>
  \<open>changeElevatorState\<close> and \<open>moveElevator\<close>: the elevator sweeps from floor 1 to floor 10 and
  back, one floor per iteration, whatever the requests are. The position is one of 18 phases
  (floor and heading); a move advances the phase by one, so every floor comes up within 18
  moves.
\<close>

section \<open>The code\<close>

definition changeElevatorState :: "elevator_status \<Rightarrow> elevator_status" where
  "changeElevatorState e =
     (if next_floor e > current_floor e then e\<lparr>state := UP\<rparr> else e\<lparr>state := DOWN\<rparr>)"

definition move_up :: "elevator_status \<Rightarrow> elevator_status" where
  "move_up e =
     (let e = e\<lparr>current_floor := inc32 (current_floor e)\<rparr>
      in if current_floor e = FLOORS
         then e\<lparr>next_floor := wrap32 (current_floor e - 1)\<rparr>
         else e\<lparr>next_floor := wrap32 (current_floor e + 1)\<rparr>)"

definition move_down :: "elevator_status \<Rightarrow> elevator_status" where
  "move_down e =
     (let e = e\<lparr>current_floor := dec32 (current_floor e)\<rparr>
      in if current_floor e = 1
         then e\<lparr>next_floor := wrap32 (current_floor e + 1)\<rparr>
         else e\<lparr>next_floor := wrap32 (current_floor e - 1)\<rparr>)"

definition moveElevator :: "elevator_status \<Rightarrow> elevator_status" where
  "moveElevator e =
     (let e = (if state e = UP then move_up e else e)
      in if state e = DOWN then move_down e else e)"

section \<open>Bounds\<close>

text \<open>
  Between \<open>changeElevatorState\<close> and \<open>moveElevator\<close> the thread sleeps; \<open>headed\<close> says that the
  movement state still agrees with the next floor when it wakes up.
\<close>

definition headed :: "elevator_status \<Rightarrow> bool" where
  "headed e \<longleftrightarrow> position_ok e
     \<and> (state e = UP \<and> next_floor e = current_floor e + 1
        \<or> state e = DOWN \<and> next_floor e = current_floor e - 1)"

lemma headed_change: "position_ok e \<Longrightarrow> headed (changeElevatorState e)"
  by (auto simp: headed_def position_ok_def changeElevatorState_def)

text \<open>A move in closed form: the elevator arrives at \<open>next_floor\<close> and picks the one after.\<close>

definition turn :: "int \<Rightarrow> int \<Rightarrow> int" where
  "turn cur nxt = (if cur < nxt then (if nxt = FLOORS then nxt - 1 else nxt + 1)
                   else (if nxt = 1 then nxt + 1 else nxt - 1))"

lemma moveElevator_headed:
  assumes "headed e"
  shows "moveElevator e =
    e\<lparr>current_floor := next_floor e, next_floor := turn (current_floor e) (next_floor e)\<rparr>"
proof (cases "state e = UP")
  case True
  with assms have "next_floor e = current_floor e + 1" "1 \<le> current_floor e" "current_floor e \<le> 9"
    by (auto simp: headed_def position_ok_def)
  with True show ?thesis
    by (simp add: moveElevator_def move_up_def Let_def inc32_def wrap32_id turn_def)
next
  case False
  with assms have "state e = DOWN" "next_floor e = current_floor e - 1" "2 \<le> current_floor e"
      "current_floor e \<le> 10"
    by (auto simp: headed_def position_ok_def)
  then show ?thesis
    by (simp add: moveElevator_def move_down_def Let_def dec32_def wrap32_id turn_def)
qed

lemma moveElevator_position: "headed e \<Longrightarrow> position_ok (moveElevator e)"
  by (auto simp: moveElevator_headed headed_def position_ok_def turn_def)

lemma moveElevator_frame:
  "headed e \<Longrightarrow> loads (moveElevator e) = loads e \<and> onboard (moveElevator e) = onboard e
     \<and> status (moveElevator e) = status e \<and> started (moveElevator e) = started e
     \<and> deactiving (moveElevator e) = deactiving e \<and> state (moveElevator e) = state e"
  by (simp add: moveElevator_headed)

lemma changeElevatorState_frame:
  "loads (changeElevatorState e) = loads e \<and> onboard (changeElevatorState e) = onboard e
     \<and> status (changeElevatorState e) = status e \<and> started (changeElevatorState e) = started e
     \<and> deactiving (changeElevatorState e) = deactiving e
     \<and> current_floor (changeElevatorState e) = current_floor e
     \<and> next_floor (changeElevatorState e) = next_floor e"
  by (simp add: changeElevatorState_def)

section \<open>Phases\<close>

definition phase :: "elevator_status \<Rightarrow> nat" where
  "phase e = nat (if current_floor e < next_floor e then current_floor e - 1
                  else 19 - current_floor e)"

definition phase_floor :: "nat \<Rightarrow> int" where
  "phase_floor k = (if k < 10 then int k + 1 else 19 - int k)"

lemma phase_bound: "position_ok e \<Longrightarrow> phase e < 18"
  by (auto simp: phase_def position_ok_def)

lemma phase_floor_phase: "position_ok e \<Longrightarrow> phase_floor (phase e) = current_floor e"
  by (auto simp: phase_def phase_floor_def position_ok_def)

lemma phase_move:
  assumes "headed e"
  shows "phase (moveElevator e) = (phase e + 1) mod 18"
proof -
  have "phase (moveElevator e) = (if phase e = 17 then 0 else phase e + 1)"
    using assms
    by (auto simp: moveElevator_headed headed_def position_ok_def turn_def phase_def)
  moreover have "phase e < 18" using assms by (simp add: headed_def phase_bound)
  ultimately show ?thesis by simp
qed

text \<open>
  The sweep as an interface: whatever advances a phase by one modulo 18 and shows the floor
  of its phase comes past every floor, again and again, at most 18 moves apart.
\<close>

locale sweep =
  fixes advance :: "'s \<Rightarrow> 's" and at_phase :: "'s \<Rightarrow> nat" and ok :: "'s \<Rightarrow> bool"
    and at_floor :: "'s \<Rightarrow> int"
  assumes advance_ok: "ok s \<Longrightarrow> ok (advance s)"
    and advance_phase: "ok s \<Longrightarrow> at_phase (advance s) = (at_phase s + 1) mod 18"
    and phase_range: "ok s \<Longrightarrow> at_phase s < 18"
    and floor_of_phase: "ok s \<Longrightarrow> at_floor s = phase_floor (at_phase s)"
begin

lemma advance_pow: "ok s \<Longrightarrow> ok ((advance ^^ k) s) \<and> at_phase ((advance ^^ k) s) = (at_phase s + k) mod 18"
proof (induction k)
  case 0
  then show ?case by (simp add: phase_range)
next
  case (Suc k)
  then have "ok ((advance ^^ k) s)" "at_phase ((advance ^^ k) s) = (at_phase s + k) mod 18"
    by simp_all
  then show ?case by (simp add: advance_ok advance_phase mod_Suc_eq)
qed

lemma reaches_floor:
  assumes "ok s" and "1 \<le> f" and "f \<le> 10"
  shows "\<exists>k < 18. at_floor ((advance ^^ k) s) = f"
proof -
  define g where "g = nat (f - 1)"
  define k where "k = (g + 18 - at_phase s) mod 18"
  have r: "at_phase s < 18" using assms(1) by (rule phase_range)
  have g: "g < 10" "int g = f - 1" using assms(2,3) by (auto simp: g_def)
  have "(at_phase s + k) mod 18 = (at_phase s + (g + 18 - at_phase s)) mod 18"
    unfolding k_def by (rule mod_add_right_eq)
  also have "\<dots> = g" using r g by simp
  finally have "at_phase ((advance ^^ k) s) = g" using advance_pow [OF assms(1)] by simp
  then have "at_floor ((advance ^^ k) s) = f"
    using floor_of_phase advance_pow [OF assms(1)] g by (simp add: phase_floor_def)
  moreover have "k < 18" by (simp add: k_def)
  ultimately show ?thesis by blast
qed

lemma period: "ok s \<Longrightarrow> at_floor ((advance ^^ 18) s) = at_floor s"
  using advance_pow [of s 18] phase_range [of s] by (simp add: floor_of_phase)

end

definition sweep_move :: "elevator_status \<Rightarrow> elevator_status" where
  "sweep_move e = moveElevator (changeElevatorState e)"

lemma phase_change [simp]: "phase (changeElevatorState e) = phase e"
  by (simp add: phase_def changeElevatorState_frame)

interpretation cabin: sweep sweep_move phase position_ok current_floor
  by unfold_locales
    (auto simp: sweep_move_def headed_change moveElevator_position phase_move phase_bound
      phase_floor_phase)

end
