(* ===== verification/Scheduler.thy ===== *)
theory Scheduler
  imports ElevatorCalls Movement
begin

text \<open>
  The scheduler thread and its interleaving with the system calls. \<open>scheduler_body\<close> is one
  round of the thread's loop run without interruption, \<open>scheduler\<close> the loop.
  \<open>sched_segment\<close> cuts the round at the points where another thread can run in between
  (before and after each critical section and each sleep); \<open>kstep\<close> interleaves these segments
  with the system calls. \<open>sys_ok\<close> is the invariant of that machine.
\<close>

section \<open>One round of the loop\<close>

definition set_state :: "int \<Rightarrow> kstate \<Rightarrow> kstate" where
  "set_state v s = s\<lparr>elevator := (elevator s)\<lparr>state := v\<rparr>\<rparr>"

definition has_work :: "kstate \<Rightarrow> bool" where
  "has_work s \<longleftrightarrow> num_waiting s \<noteq> 0 \<or> \<not> list_empty (onboard (elevator s))"

text \<open>\<open>lu\<close> and \<open>ll\<close> are the results of the two lock calls of the round.\<close>

definition scheduler_body :: "nat \<Rightarrow> int \<Rightarrow> int \<Rightarrow> kstate \<Rightarrow> fault + kstate" where
  "scheduler_body me lu ll s =
     (if has_work s then
        rbind (unloadPassengers me lu s) (\<lambda>(unload_sleep, s).
        rbind (if loads (elevator s) < CAPACITY then loadPassengers me ll s else Inr (0, s))
          (\<lambda>(load_sleep, s).
             let s = (if unload_sleep \<noteq> 0 \<or> load_sleep \<noteq> 0
                      then ssleep LOAD_TIME (set_state LOADING s) else s)
             in if loads (elevator s) \<noteq> 0 \<or> num_waiting s \<noteq> 0 then
                  let s = s\<lparr>elevator := changeElevatorState (elevator s)\<rparr>;
                      s = ssleep MOVE_TIME s
                  in Inr (s\<lparr>elevator := moveElevator (elevator s)\<rparr>)
                else if deactiving (elevator s) \<noteq> 0 then
                  Inr (s\<lparr>elevator := (elevator s)\<lparr>state := 0, deactiving := 0\<rparr>\<rparr>)
                else Inr s))
      else if started (elevator s) \<noteq> 0 then
        Inr (ssleep DEFAULT_SLEEP_TIME (set_state IDLE s))
      else Inr (ssleep DEFAULT_SLEEP_TIME (set_state OFFLINE s)))"

text \<open>
  The loop, with one pair of lock results for every round that begins with
  \<open>kthread_should_stop()\<close> false.
\<close>

fun scheduler :: "nat \<Rightarrow> (int \<times> int) list \<Rightarrow> kstate \<Rightarrow> fault + kstate" where
  "scheduler me [] s = Inr s"
| "scheduler me ((lu, ll) # rounds) s = rbind (scheduler_body me lu ll s) (scheduler me rounds)"

section \<open>The round cut into segments\<close>

text \<open>
  Where the scheduler's thread can be when another thread runs: at the top of its loop, before
  the test of \<open>started\<close>, before each critical section, before the sleep for loading, before the
  decision to move, before the test of \<open>deactiving\<close> and between its two assignments, asleep
  while the cabin moves.
\<close>

datatype sched_pc =
  AtTop | AtIdle | AtUnload | AtLoad int | AtRest int int | AtDecide | AtDeact | AtClear | AtMove

fun sched_segment :: "nat \<Rightarrow> int \<Rightarrow> sched_pc \<Rightarrow> kstate \<Rightarrow> fault + (sched_pc \<times> kstate)" where
  "sched_segment me lk AtTop s = Inr (if has_work s then AtUnload else AtIdle, s)"
| "sched_segment me lk AtIdle s =
     Inr (AtTop, ssleep DEFAULT_SLEEP_TIME
       (set_state (if started (elevator s) \<noteq> 0 then IDLE else OFFLINE) s))"
| "sched_segment me lk AtUnload s =
     rbind (unloadPassengers me lk s) (\<lambda>(u, s). Inr (AtLoad u, s))"
| "sched_segment me lk (AtLoad u) s =
     (if loads (elevator s) < CAPACITY
      then rbind (loadPassengers me lk s) (\<lambda>(l, s). Inr (AtRest u l, s))
      else Inr (AtRest u 0, s))"
| "sched_segment me lk (AtRest u l) s =
     Inr (AtDecide, if u \<noteq> 0 \<or> l \<noteq> 0 then ssleep LOAD_TIME (set_state LOADING s) else s)"
| "sched_segment me lk AtDecide s =
     (if loads (elevator s) \<noteq> 0 \<or> num_waiting s \<noteq> 0
      then Inr (AtMove, ssleep MOVE_TIME (s\<lparr>elevator := changeElevatorState (elevator s)\<rparr>))
      else Inr (AtDeact, s))"
| "sched_segment me lk AtDeact s =
     (if deactiving (elevator s) \<noteq> 0 then Inr (AtClear, set_state 0 s) else Inr (AtTop, s))"
| "sched_segment me lk AtClear s =
     Inr (AtTop, s\<lparr>elevator := (elevator s)\<lparr>deactiving := 0\<rparr>\<rparr>)"
| "sched_segment me lk AtMove s = Inr (AtTop, s\<lparr>elevator := moveElevator (elevator s)\<rparr>)"

text \<open>At most \<open>n\<close> segments, up to the top of the loop; \<open>lk\<close> gives the result of each lock call.\<close>

fun run_segments ::
  "nat \<Rightarrow> nat \<Rightarrow> (sched_pc \<Rightarrow> int) \<Rightarrow> sched_pc \<Rightarrow> kstate \<Rightarrow> fault + (sched_pc \<times> kstate)" where
  "run_segments 0 me lk pc s = Inr (pc, s)"
| "run_segments (Suc n) me lk pc s =
     rbind (sched_segment me (lk pc) pc s)
       (\<lambda>(pc, s). if pc = AtTop then Inr (pc, s) else run_segments n me lk pc s)"

section \<open>The calls cut into segments\<close>

text \<open>
  The flags \<open>started\<close> and \<open>deactiving\<close> are tested and set outside the mutex, one access to a
  segment. A segment yields the next position of the calling thread and, when the call returns,
  its result.
\<close>

datatype call = StartCall | RequestCall int int int | StopCall

datatype call_pc =
    Ready
  | StartSet | StartClear
  | RequestLock int int int
  | StopTest | StopSet | StopClear | StopLock

fun enter_call :: "call \<Rightarrow> kstate \<Rightarrow> call_pc \<times> int option" where
  "enter_call StartCall s =
     (if started (elevator s) \<noteq> 0 then (Ready, Some 1) else (StartSet, None))"
| "enter_call (RequestCall start dest type) s =
     (if started (elevator s) = 0 then (Ready, Some 1)
      else if type < 0 \<or> type > 1 then (Ready, Some 1)
      else if start < 1 \<or> start > FLOORS then (Ready, Some 1)
      else if dest < 1 \<or> dest > FLOORS then (Ready, Some 1)
      else (RequestLock start dest type, None))"
| "enter_call StopCall s =
     (if started (elevator s) = 0 then (Ready, Some 1) else (StopTest, None))"

fun call_segment ::
  "nat \<Rightarrow> int \<Rightarrow> addr option \<Rightarrow> call_pc \<Rightarrow> kstate \<Rightarrow> fault + ((call_pc \<times> int option) \<times> kstate)" where
  "call_segment me lk km Ready s = Inr ((Ready, None), s)"
| "call_segment me lk km StartSet s =
     Inr ((StartClear, None), s\<lparr>elevator := (elevator s)\<lparr>started := 1\<rparr>\<rparr>)"
| "call_segment me lk km StartClear s =
     Inr ((Ready, Some 0), s\<lparr>elevator := (elevator s)\<lparr>deactiving := 0\<rparr>\<rparr>)"
| "call_segment me lk km (RequestLock start dest type) s =
     rbind (request_critical me lk km start dest type s) (\<lambda>(r, s). Inr ((Ready, Some r), s))"
| "call_segment me lk km StopTest s =
     Inr (if deactiving (elevator s) \<noteq> 0 then (Ready, Some 1) else (StopSet, None), s)"
| "call_segment me lk km StopSet s =
     Inr ((StopClear, None), s\<lparr>elevator := (elevator s)\<lparr>deactiving := 1\<rparr>\<rparr>)"
| "call_segment me lk km StopClear s =
     Inr ((StopLock, None), s\<lparr>elevator := (elevator s)\<lparr>started := 0\<rparr>\<rparr>)"
| "call_segment me lk km StopLock s =
     rbind (stop_offload me lk s) (\<lambda>(r, s). Inr ((Ready, Some r), s))"

text \<open>A call run without interruption: at most \<open>n\<close> segments after the first.\<close>

fun run_call ::
  "nat \<Rightarrow> nat \<Rightarrow> int \<Rightarrow> addr option \<Rightarrow> call_pc \<times> int option \<Rightarrow> kstate \<Rightarrow> fault + (int option \<times> kstate)" where
  "run_call n me lk km (p, Some r) s = Inr (Some r, s)"
| "run_call 0 me lk km (p, None) s = Inr (None, s)"
| "run_call (Suc n) me lk km (p, None) s =
     rbind (call_segment me lk km p s) (\<lambda>(q, s). run_call n me lk km q s)"

section \<open>The interleaved machine\<close>

text \<open>
  The state: where the scheduler is, where each calling thread is in its call, and the globals.
  One event per segment, with what the environment decided and what the call returned. Thread 0
  is the scheduler. \<open>kmalloc\<close>, where it is called and does not fail, returns the address of an
  object that is not allocated.
\<close>

type_synonym sys = "sched_pc \<times> (nat \<Rightarrow> call_pc) \<times> kstate"

abbreviation globals :: "sys \<Rightarrow> kstate" where
  "globals x \<equiv> snd (snd x)"

datatype kevent =
    Sched int
  | Enter nat call "int option"
  | Continue nat int "addr option" "int option"

definition fresh :: "addr option \<Rightarrow> call_pc \<Rightarrow> kstate \<Rightarrow> bool" where
  "fresh km p s \<longleftrightarrow> (case km of None \<Rightarrow> True
     | Some a \<Rightarrow> heap s a = None \<and> deactiving (elevator s) = 0
         \<and> (case p of RequestLock _ _ _ \<Rightarrow> True | _ \<Rightarrow> False))"

inductive kstep :: "sys \<Rightarrow> kevent \<Rightarrow> sys \<Rightarrow> bool" where
  kstep_sched: "sched_segment 0 lk pc s = Inr (pc', s') \<Longrightarrow> kstep (pc, c, s) (Sched lk) (pc', c, s')"
| kstep_enter: "0 < me \<Longrightarrow> c me = Ready \<Longrightarrow> enter_call call s = (p, r) \<Longrightarrow>
     kstep (pc, c, s) (Enter me call r) (pc, c(me := p), s)"
| kstep_continue: "c me \<noteq> Ready \<Longrightarrow> fresh km (c me) s \<Longrightarrow>
     call_segment me lk km (c me) s = Inr ((p, r), s') \<Longrightarrow>
     kstep (pc, c, s) (Continue me lk km r) (pc, c(me := p), s')"

inductive_cases kstep_schedE: "kstep x (Sched lk) y"
inductive_cases kstep_enterE: "kstep x (Enter me call r) y"
inductive_cases kstep_continueE: "kstep x (Continue me lk km r) y"

definition booted :: sys where
  "booted = (AtTop, \<lambda>_. Ready, boot_state)"

text \<open>What the scheduler has made sure of when it is at a position, and no other thread can undo.\<close>

fun pc_ok :: "sched_pc \<Rightarrow> kstate \<Rightarrow> bool" where
  "pc_ok AtMove s \<longleftrightarrow> headed (elevator s)"
| "pc_ok AtIdle s \<longleftrightarrow> onboard (elevator s) = []"
| "pc_ok AtDeact s \<longleftrightarrow> loads (elevator s) = 0"
| "pc_ok AtClear s \<longleftrightarrow> loads (elevator s) = 0"
| "pc_ok _ s \<longleftrightarrow> True"

fun call_ok :: "call_pc \<Rightarrow> bool" where
  "call_ok (RequestLock start dest type) \<longleftrightarrow> request_valid start dest type"
| "call_ok _ \<longleftrightarrow> True"

definition sys_ok :: "sys \<Rightarrow> bool" where
  "sys_ok = (\<lambda>(pc, c, s). well_formed s \<and> pc_ok pc s \<and> (\<forall>me. call_ok (c me)))"

section \<open>The invariant\<close>

lemma wf_set_elevator:
  assumes "well_formed s" and "position_ok e" and "flags_ok e"
    and "onboard e = onboard (elevator s)" and "loads e = loads (elevator s)"
    and "status e = status (elevator s)"
  shows "well_formed (s\<lparr>elevator := e, clock := c\<rparr>)"
  using assms by (simp add: well_formed_def wf_parts linked_def zombie_at_def)

lemmas wf_set_elevator' = wf_set_elevator [where c = "clock s" and s = s for s, simplified]

lemma wf_set_state:
  "well_formed s \<Longrightarrow> 0 \<le> v \<Longrightarrow> v \<le> 4 \<Longrightarrow> well_formed (ssleep n (set_state v s))"
  unfolding ssleep_def set_state_def
  using wf_set_elevator [of s "(elevator s)\<lparr>state := v\<rparr>" "clock s + n"] wfD(7,8) [of s]
  by (simp add: position_ok_def flags_ok_def)

lemma wf_change:
  "well_formed s \<Longrightarrow> well_formed (ssleep n (s\<lparr>elevator := changeElevatorState (elevator s)\<rparr>))"
  unfolding ssleep_def
  using wf_set_elevator [of s "changeElevatorState (elevator s)" "clock s + n"] wfD(7,8) [of s]
  by (auto simp: position_ok_def flags_ok_def changeElevatorState_def)

lemma wf_move:
  assumes "well_formed s" and "headed (elevator s)"
  shows "well_formed (s\<lparr>elevator := moveElevator (elevator s)\<rparr>)"
  using wf_set_elevator [of s "moveElevator (elevator s)" "clock s"] wfD(8) [OF assms(1)]
    moveElevator_position [OF assms(2)] moveElevator_frame [OF assms(2)] assms(1)
  by (auto simp: flags_ok_def)

lemma wf_offline:
  "well_formed s \<Longrightarrow> well_formed (s\<lparr>elevator := (elevator s)\<lparr>state := 0, deactiving := 0\<rparr>\<rparr>)"
  using wf_set_elevator [of s "(elevator s)\<lparr>state := 0, deactiving := 0\<rparr>" "clock s"] wfD(7,8) [of s]
  by (auto simp: position_ok_def flags_ok_def)

lemma segment_ok:
  assumes w: "well_formed s" and pc: "pc_ok pc s"
  shows "\<exists>pc' s'. sched_segment me 0 pc s = Inr (pc', s') \<and> well_formed s' \<and> pc_ok pc' s'"
proof (cases pc)
  case AtTop
  then show ?thesis using w by (simp add: has_work_def list_empty_def)
next
  case AtIdle
  then show ?thesis using w by (simp add: wf_set_state)
next
  case AtUnload
  then show ?thesis by (simp add: unloadPassengers_eq [OF w] res_simps wf_unloaded [OF w])
next
  case (AtLoad u)
  then show ?thesis using w by (simp add: loadPassengers_eq [OF w] res_simps wf_loaded [OF w])
next
  case (AtRest u l)
  then show ?thesis using w by (simp add: wf_set_state)
next
  case AtDecide
  have "headed (elevator (ssleep n (s\<lparr>elevator := changeElevatorState (elevator s)\<rparr>)))" for n
    using headed_change [OF wfD(7) [OF w]] by (simp add: ssleep_def)
  then show ?thesis using AtDecide w wf_change [OF w] by simp
next
  case AtDeact
  then show ?thesis
    using w pc wf_set_state [OF w, of 0 0] by (simp add: ssleep_def) (simp add: set_state_def)
next
  case AtClear
  then show ?thesis using w by (simp add: wf_set_deactiving)
next
  case AtMove
  then show ?thesis using w pc by (simp add: wf_move)
qed

lemma segment_interrupted:
  assumes "well_formed s" and "lk \<noteq> 0" and "sched_segment me lk pc s = Inr x"
  shows "sched_segment me 0 pc s = Inr x"
  using assms
  by (cases pc) (auto simp: unloadPassengers_interrupted loadPassengers_interrupted
      res_simps split: if_splits)

lemma segment_lock_free:
  "well_formed s \<Longrightarrow> sched_segment me lk pc s = Inr x \<Longrightarrow> sched_segment me 0 pc s = Inr x"
  using segment_interrupted by (cases "lk = 0") auto

text \<open>What a segment of a call that did not fault has done to the passengers.\<close>

definition same_passengers :: "kstate \<Rightarrow> kstate \<Rightarrow> bool" where
  "same_passengers s s' \<longleftrightarrow> onboard (elevator s') = onboard (elevator s)
     \<and> loads (elevator s') = loads (elevator s) \<and> status (elevator s') = status (elevator s)
     \<and> waiting_list s' = waiting_list s \<and> num_waiting s' = num_waiting s
     \<and> serviced s' = serviced s \<and> heap s' = heap s"

definition same_place :: "kstate \<Rightarrow> kstate \<Rightarrow> bool" where
  "same_place s s' \<longleftrightarrow> state (elevator s') = state (elevator s)
     \<and> current_floor (elevator s') = current_floor (elevator s)
     \<and> next_floor (elevator s') = next_floor (elevator s)"

lemma request_critical_cases:
  assumes "well_formed s" and "request_valid start dest type"
    and "request_critical me lk km start dest type s = Inr (r, s')"
  obtains "r = 0" and "s' = s" and "deactiving (elevator s) \<noteq> 0"
  | a where "r = 0" and "km = Some a" and "s' = requested_state a start dest type s"
proof -
  have lk: "lk = 0"
    using request_critical_interrupted [OF assms(1)] assms(3) by (metis Inl_Inr_False)
  show thesis
  proof (cases "deactiving (elevator s) = 0")
    case False
    then show thesis using that(1) request_critical_ignored [OF assms(1) False] assms(3) lk by auto
  next
    case True
    obtain a where a: "km = Some a"
      using request_critical_no_memory [OF True wfD(9) [OF assms(1)]] assms(3) lk by (cases km) auto
    then show thesis
      using that(2) request_critical_accepted [OF assms(1) True assms(2)] assms(3) lk by auto
  qed
qed

lemma stop_offload_result:
  assumes "well_formed s" and "stop_offload me lk s = Inr (r, s')"
  shows "r = 0" and "s' = offloaded_state s"
proof -
  have "lk = 0" using stop_offload_interrupted [OF assms(1)] assms(2) by (metis Inl_Inr_False)
  then show "r = 0" "s' = offloaded_state s" using stop_offload_eq [OF assms(1)] assms(2) by auto
qed

lemma call_segment_cases:
  assumes w: "well_formed s" and ok: "call_ok p" and "p \<noteq> Ready" and fresh: "fresh km p s"
    and seg: "call_segment me lk km p s = Inr ((p', r), s')"
  obtains (requests) a start dest type where "p = RequestLock start dest type" and "km = Some a"
      and "request_valid start dest type" and "heap s a = None" and "p' = Ready" and "r = Some 0"
      and "s' = requested_state a start dest type s"
  | (offloads) "p = StopLock" and "km = None" and "p' = Ready" and "r = Some 0" and "s' = offloaded_state s"
  | (else) "km = None" and "p \<noteq> StopLock" and "same_passengers s s'" and "same_place s s'"
      and "well_formed s'" and "call_ok p'"
proof -
  note same = same_passengers_def same_place_def
  have km: "km = None" if "\<And>a b t. p \<noteq> RequestLock a b t"
    using fresh that by (cases p) (auto simp: fresh_def split: option.splits)
  show thesis
  proof (cases p)
    case (RequestLock start dest type)
    then have v: "request_valid start dest type" using ok by simp
    obtain r' where r: "request_critical me lk km start dest type s = Inr (r', s')" "p' = Ready" "r = Some r'"
      using seg RequestLock by (auto simp: rbind_eq_Inr)
    from w v r(1) show thesis
    proof (cases rule: request_critical_cases)
      case 1
      then have "km = None" using fresh by (auto simp: fresh_def split: option.splits)
      then show thesis using that(3) 1 r RequestLock w by (simp add: same)
    next
      case (2 a)
      then show thesis using that(1) RequestLock v r fresh by (auto simp: fresh_def)
    qed
  next
    case StopLock
    then obtain r' where "stop_offload me lk s = Inr (r', s')" "p' = Ready" "r = Some r'"
      using seg by (auto simp: rbind_eq_Inr)
    then show thesis using that(2) StopLock km stop_offload_result [OF w] by auto
  qed (use that(3) seg w km assms(3) in
      \<open>auto simp: same wf_set_started wf_set_deactiving split: if_splits\<close>)
qed

lemma wf_call_segment:
  assumes "well_formed s" and "call_ok p" and "p \<noteq> Ready" and "fresh km p s"
    and "call_segment me lk km p s = Inr ((p', r), s')"
  shows "well_formed s' \<and> same_place s s' \<and> loads (elevator s') = loads (elevator s)
    \<and> set (onboard (elevator s')) \<subseteq> set (onboard (elevator s)) \<and> call_ok p'"
  using assms
proof (cases rule: call_segment_cases)
  case (requests a start dest type)
  then have "well_formed s'" using wf_requested [OF assms(1), of start dest type a] by auto
  then show ?thesis using requests by (simp add: same_place_def requested_state_def Let_def)
next
  case offloads
  then show ?thesis using wf_offloaded [OF assms(1)] by (simp add: same_place_def offloaded_state_def)
next
  case else
  then show ?thesis by (simp add: same_passengers_def)
qed

lemma pc_ok_cong:
  assumes "pc_ok pc s" and "same_place s s'" and "loads (elevator s') = loads (elevator s)"
    and "set (onboard (elevator s')) \<subseteq> set (onboard (elevator s))"
  shows "pc_ok pc s'"
  using assms by (cases pc) (auto simp: same_place_def headed_def position_ok_def)

lemma enter_call_ok: "enter_call call s = (p, r) \<Longrightarrow> call_ok p"
  by (cases call) (auto simp: request_valid_def split: if_splits)

lemma kstep_sys_ok:
  assumes "kstep x e y" and "sys_ok x"
  shows "sys_ok y"
  using assms
proof (induction rule: kstep.induct)
  case (kstep_sched lk pc s pc' s' c)
  then have "well_formed s" "pc_ok pc s" "sched_segment 0 0 pc s = Inr (pc', s')"
    using segment_lock_free by (auto simp: sys_ok_def)
  then show ?case using segment_ok [of s pc 0] kstep_sched.prems by (auto simp: sys_ok_def)
next
  case (kstep_enter me c call s p r pc)
  then show ?case using enter_call_ok by (auto simp: sys_ok_def)
next
  case (kstep_continue c me km s lk p r s' pc)
  then have ok: "well_formed s" "call_ok (c me)" "pc_ok pc s" by (auto simp: sys_ok_def)
  note step = wf_call_segment [OF ok(1,2) kstep_continue.hyps]
  show ?case
    using step pc_ok_cong [OF ok(3), of s'] kstep_continue.prems by (auto simp: sys_ok_def)
qed

interpretation ksys: machine kstep sys_ok
  by unfold_locales (rule kstep_sys_ok)

lemma sys_ok_booted: "sys_ok booted"
  by (simp add: booted_def sys_ok_def wf_boot)

lemma reachable_ok: "steps kstep booted es x \<Longrightarrow> sys_ok x"
  using ksys.run_inv sys_ok_booted by blast

end
