(* ===== verification/Delivery.thy ===== *)
theory Delivery
  imports Scheduler
begin

text \<open>
  Bounded delivery: in every interleaving with the system calls, a passenger on board is off
  again after a bounded number of the scheduler's segments. The potential counts the moves up
  to the next upward pass of the passenger's floor, and the segments left in the round.
\<close>

section \<open>The segments make the whole\<close>

lemma run_segments_eq:
  "run_segments 7 me (\<lambda>pc. if pc = AtUnload then lu else ll) AtTop s =
     rbind (scheduler_body me lu ll s) (\<lambda>s'. Inr (AtTop, s'))"
proof (cases "has_work s")
  case False
  then show ?thesis by (simp add: numeral_eq_Suc scheduler_body_def res_simps)
next
  case work: True
  show ?thesis
  proof (cases "unloadPassengers me lu s")
    case (Inl f)
    then show ?thesis using work by (simp add: numeral_eq_Suc scheduler_body_def res_simps)
  next
    case (Inr us)
    obtain u t where us: "us = (u, t)" by (cases us)
    define m where "m = (if loads (elevator t) < CAPACITY then loadPassengers me ll t else Inr (0, t))"
    have "run_segments 7 me (\<lambda>pc. if pc = AtUnload then lu else ll) AtTop s = rbind m (\<lambda>(l, s).
        run_segments 4 me (\<lambda>pc. if pc = AtUnload then lu else ll) (AtRest u l) s)"
      using work Inr us by (cases m) (auto simp: numeral_eq_Suc m_def res_simps split: if_splits)
    moreover have "scheduler_body me lu ll s = rbind m (\<lambda>(l, s).
        let s = (if u \<noteq> 0 \<or> l \<noteq> 0 then ssleep LOAD_TIME (set_state LOADING s) else s)
        in if loads (elevator s) \<noteq> 0 \<or> num_waiting s \<noteq> 0 then
             let s = s\<lparr>elevator := changeElevatorState (elevator s)\<rparr>; s = ssleep MOVE_TIME s
             in Inr (s\<lparr>elevator := moveElevator (elevator s)\<rparr>)
           else if deactiving (elevator s) \<noteq> 0 then
             Inr (s\<lparr>elevator := (elevator s)\<lparr>state := 0, deactiving := 0\<rparr>\<rparr>)
           else Inr s)"
      using work Inr us by (simp add: scheduler_body_def m_def res_simps)
    moreover have "run_segments 4 me lk (AtRest u l) s = rbind (
        let s = (if u \<noteq> 0 \<or> l \<noteq> 0 then ssleep LOAD_TIME (set_state LOADING s) else s)
        in if loads (elevator s) \<noteq> 0 \<or> num_waiting s \<noteq> 0 then
             let s = s\<lparr>elevator := changeElevatorState (elevator s)\<rparr>; s = ssleep MOVE_TIME s
             in Inr (s\<lparr>elevator := moveElevator (elevator s)\<rparr>)
           else if deactiving (elevator s) \<noteq> 0 then
             Inr (s\<lparr>elevator := (elevator s)\<lparr>state := 0, deactiving := 0\<rparr>\<rparr>)
           else Inr s) (\<lambda>s. Inr (AtTop, s))" for lk l s
      by (simp add: numeral_eq_Suc Let_def res_simps set_state_def)
    ultimately show ?thesis by (cases m) (simp_all add: split_def res_simps)
  qed
qed

lemma run_start_eq:
  "run_call 4 me lk km (enter_call StartCall s) s = Inr (Some (fst (start_elevator s)), snd (start_elevator s))"
  by (simp add: numeral_eq_Suc start_elevator_def res_simps)

lemma run_request_eq:
  "run_call 4 me lk km (enter_call (RequestCall start dest type) s) s =
     rbind (issue_request me lk km start dest type s) (\<lambda>(r, s'). Inr (Some r, s'))"
  by (cases "request_critical me lk km start dest type s")
    (auto simp: numeral_eq_Suc issue_request_def res_simps)

lemma run_stop_eq:
  "run_call 4 me lk km (enter_call StopCall s) s =
     rbind (stop_elevator me lk s) (\<lambda>(r, s'). Inr (Some r, s'))"
  by (cases "stop_offload me lk (s\<lparr>elevator := (elevator s)\<lparr>deactiving := 1, started := 0\<rparr>\<rparr>)")
    (auto simp: numeral_eq_Suc stop_elevator_def res_simps)

section \<open>Staying on board\<close>

definition on_board :: "addr \<Rightarrow> sys \<Rightarrow> bool" where
  "on_board a x \<longleftrightarrow> a \<in> set (onboard (elevator (globals x)))"

text \<open>
  \<open>rides a x n y\<close>: from \<open>x\<close> to \<open>y\<close> the passenger \<open>a\<close> was on board all the time, while the
  scheduler ran \<open>n\<close> segments and other threads any number of segments of system calls.
\<close>

inductive rides :: "addr \<Rightarrow> sys \<Rightarrow> nat \<Rightarrow> sys \<Rightarrow> bool" for a where
  rides_here: "on_board a x \<Longrightarrow> rides a x 0 x"
| rides_sched: "on_board a x \<Longrightarrow> kstep x (Sched lk) y \<Longrightarrow> rides a y n z \<Longrightarrow> rides a x (Suc n) z"
| rides_call: "on_board a x \<Longrightarrow> kstep x e y \<Longrightarrow> (\<forall>lk. e \<noteq> Sched lk) \<Longrightarrow> rides a y n z \<Longrightarrow> rides a x n z"

lemma rides_on_board: "rides a x n y \<Longrightarrow> on_board a x"
  by (cases rule: rides.cases) auto

section \<open>The potential\<close>

definition to_go :: "int \<Rightarrow> elevator_status \<Rightarrow> nat" where
  "to_go d e = (nat (d - 1) + 18 - phase e) mod 18"

definition to_go_after :: "int \<Rightarrow> elevator_status \<Rightarrow> nat" where
  "to_go_after d e = (if to_go d e = 0 then 18 else to_go d e)"

text \<open>Nobody is on board at the positions that count 0.\<close>

fun potential :: "int \<Rightarrow> sched_pc \<Rightarrow> kstate \<Rightarrow> nat" where
  "potential d AtTop s = 6 * to_go d (elevator s) + 5"
| "potential d AtUnload s = 6 * to_go d (elevator s) + 4"
| "potential d (AtLoad u) s = 6 * to_go_after d (elevator s) + 3"
| "potential d (AtRest u l) s = 6 * to_go_after d (elevator s) + 2"
| "potential d AtDecide s = 6 * to_go_after d (elevator s) + 1"
| "potential d AtMove s = 6 * to_go_after d (elevator s)"
| "potential d _ s = 0"

lemma to_go_bound: "to_go d e < 18"
  by (simp add: to_go_def)

lemma potential_bound: "potential d pc s \<le> 111"
  using to_go_bound [of d "elevator s"] by (cases pc) (auto simp: to_go_after_def)

lemma to_go_zero:
  assumes "position_ok e" and "1 \<le> d" and "d \<le> 10" and "to_go d e = 0"
  shows "current_floor e = d"
proof -
  have p: "phase e < 18" by (rule phase_bound [OF assms(1)])
  have g: "nat (d - 1) < 10" using assms(2,3) by linarith
  have "phase e = nat (d - 1)"
  proof (cases "phase e \<le> nat (d - 1)")
    case True
    then have "(nat (d - 1) + 18 - phase e) mod 18 = nat (d - 1) - phase e"
      using g by (simp add: mod_if)
    with assms(4) True show ?thesis by (simp add: to_go_def)
  next
    case False
    then have "(nat (d - 1) + 18 - phase e) mod 18 = nat (d - 1) + 18 - phase e"
      using p by simp
    with assms(4) p show ?thesis by (simp add: to_go_def)
  qed
  then have "current_floor e = phase_floor (nat (d - 1))"
    using phase_floor_phase [OF assms(1)] by simp
  with g assms(2) show ?thesis by (simp add: phase_floor_def)
qed

lemma mod_18_pred: "q mod 18 = (if Suc q mod 18 = 0 then 18 else Suc q mod 18) - 1" for q :: nat
  by (simp add: mod_Suc)

lemma to_go_arith:
  fixes g k :: nat
  assumes k: "k < 18"
  shows "(g + 18 - (k + 1) mod 18) mod 18
      = (if (g + 18 - k) mod 18 = 0 then 18 else (g + 18 - k) mod 18) - 1"
proof -
  define q where "q = g + (17 - k)"
  have q: "g + 18 - k = Suc q" using k unfolding q_def by linarith
  have "(g + 18 - (k + 1) mod 18) mod 18 = q mod 18"
  proof (cases "k = 17")
    case True
    then show ?thesis by (simp add: q_def)
  next
    case False
    then have m: "(k + 1) mod 18 = k + 1" using k by (intro mod_less) linarith
    have "g + 18 - (k + 1) = q" using k unfolding q_def by linarith
    then show ?thesis unfolding m by (rule arg_cong)
  qed
  then show ?thesis unfolding q mod_18_pred [of q, symmetric] .
qed
lemma to_go_move:
  assumes "headed e"
  shows "to_go d (moveElevator e) = to_go_after d e - 1"
  unfolding to_go_def to_go_after_def phase_move [OF assms]
  by (rule to_go_arith) (use assms in \<open>simp add: headed_def phase_bound\<close>)

section \<open>Every segment brings the passenger nearer\<close>

lemma on_board_heap:
  assumes "well_formed s" and "a \<in> set (onboard (elevator s))"
  obtains p where "heap s a = Some p" and "passenger_ok p"
proof -
  obtain p where p: "heap s a = Some p"
    using linked_heap [OF wfD(1) [OF assms(1)]] assms(2) by (auto simp: linked_def)
  then show thesis using that wfD(2) [OF assms(1)] by (auto simp: heap_ok_def)
qed

lemma set_state_fields [simp]:
  "onboard (elevator (set_state v s)) = onboard (elevator s)"
  "loads (elevator (set_state v s)) = loads (elevator s)"
  "current_floor (elevator (set_state v s)) = current_floor (elevator s)"
  "next_floor (elevator (set_state v s)) = next_floor (elevator s)"
  "started (elevator (set_state v s)) = started (elevator s)"
  "deactiving (elevator (set_state v s)) = deactiving (elevator s)"
  "status (elevator (set_state v s)) = status (elevator s)"
  "heap (set_state v s) = heap s" "num_waiting (set_state v s) = num_waiting s"
  "waiting_list (set_state v s) = waiting_list s" "serviced (set_state v s) = serviced s"
  "waiting_on_floor (set_state v s) = waiting_on_floor s"
  by (simp_all add: set_state_def)

lemma ssleep_fields [simp]:
  "elevator (ssleep n s) = elevator s" "heap (ssleep n s) = heap s"
  "num_waiting (ssleep n s) = num_waiting s" "waiting_list (ssleep n s) = waiting_list s"
  "serviced (ssleep n s) = serviced s" "waiting_on_floor (ssleep n s) = waiting_on_floor s"
  by (simp_all add: ssleep_def)

lemma to_go_cong:
  assumes "current_floor e' = current_floor e" and "next_floor e' = next_floor e"
  shows "to_go d e' = to_go d e \<and> to_go_after d e' = to_go_after d e"
proof -
  have "phase e' = phase e" using assms by (simp only: phase_def)
  then show ?thesis by (simp only: to_go_after_def to_go_def)
qed

lemma unloaded_fields:
  "onboard (elevator (unloaded_state s)) = filter (\<lambda>a. \<not> leaves s a) (onboard (elevator s))"
  "current_floor (elevator (unloaded_state s)) = current_floor (elevator s)"
  "next_floor (elevator (unloaded_state s)) = next_floor (elevator s)"
  "waiting_list (unloaded_state s) = waiting_list s"
  "num_waiting (unloaded_state s) = num_waiting s"
  "a \<notin> set (filter (leaves s) (onboard (elevator s))) \<Longrightarrow> heap (unloaded_state s) a = heap s a"
  by (simp_all add: unloaded_state_def Let_def)

lemma loaded_fields:
  "onboard (elevator (loaded_state s)) = onboard (elevator s) @ boards_here s (queue_here s)"
  "current_floor (elevator (loaded_state s)) = current_floor (elevator s)"
  "next_floor (elevator (loaded_state s)) = next_floor (elevator s)"
  "heap (loaded_state s) = heap s"
  by (simp_all add: loaded_state_def Let_def load_result_fields)

text \<open>
  What a step does to the passengers: the scheduler unloads or loads, a call queues one or
  throws out those on board, or every list and every count stays as it is.
\<close>

lemma segment_cases:
  assumes w: "well_formed s" and pc: "pc_ok pc s" and seg: "sched_segment me lk pc s = Inr (pc', s')"
  obtains (unloads) u where "pc = AtUnload" and "pc' = AtLoad u" and "s' = unloaded_state s"
  | (loads) u l where "pc = AtLoad u" and "pc' = AtRest u l" and "s' = loaded_state s"
      and "loads (elevator s) < CAPACITY"
  | (else) "pc \<noteq> AtUnload" and "same_passengers s s'"
proof -
  note seg0 = segment_lock_free [OF w seg]
  note frames = same_passengers_def changeElevatorState_frame
  show thesis
  proof (cases pc)
    case AtUnload
    then show thesis
      using that(1) seg0 by (auto simp: unloadPassengers_eq [OF w] res_simps)
  next
    case (AtLoad u)
    then show thesis
      using that(2,3) seg0
      by (cases "loads (elevator s) < CAPACITY")
        (auto simp: loadPassengers_eq [OF w] res_simps same_passengers_def)
  next
    case AtMove
    show thesis
      by (rule that(3))
        (use AtMove seg0 pc moveElevator_frame [of "elevator s"] in \<open>auto simp: frames\<close>)
  qed (rule that(3); use seg0 in \<open>auto simp: frames split: if_splits\<close>)+
qed

lemma kstep_cases:
  assumes step: "kstep (pc, c, s) e (pc', c', s')" and ok: "sys_ok (pc, c, s)"
  obtains (unloads) lk u where "e = Sched lk" and "pc = AtUnload" and "pc' = AtLoad u"
      and "s' = unloaded_state s"
  | (loads) lk u l where "e = Sched lk" and "pc = AtLoad u" and "pc' = AtRest u l"
      and "s' = loaded_state s" and "loads (elevator s) < CAPACITY"
  | (requests) me lk a start dest type where "e = Continue me lk (Some a) (Some 0)"
      and "c me = RequestLock start dest type" and "request_valid start dest type"
      and "heap s a = None" and "s' = requested_state a start dest type s" and "pc' = pc"
  | (offloads) me lk where "e = Continue me lk None (Some 0)" and "c me = StopLock"
      and "s' = offloaded_state s" and "pc' = pc"
  | (else) "same_passengers s s'" and "(\<exists>lk. e = Sched lk) \<or> (pc' = pc \<and> same_place s s')"
      and "\<And>me lk a r. e \<noteq> Continue me lk (Some a) r"
      and "\<And>me lk km r. e = Continue me lk km r \<Longrightarrow> c me \<noteq> StopLock"
proof -
  have w: "well_formed s" "pc_ok pc s" "\<And>me. call_ok (c me)" using ok by (auto simp: sys_ok_def)
  from step show thesis
  proof (cases rule: kstep.cases)
    case (kstep_sched lk)
    from w(1,2) kstep_sched(3) show thesis
      by (cases rule: segment_cases) (use that kstep_sched in auto)
  next
    case (kstep_enter me call p r)
    then show thesis using that(5) by (auto simp: same_passengers_def same_place_def)
  next
    case (kstep_continue me km lk p r)
    from w(1) w(3) kstep_continue(4-6) show thesis
      by (cases rule: call_segment_cases) (use that kstep_continue in auto)
  qed
qed

lemma segment_progress:
  assumes w: "well_formed s" and pc: "pc_ok pc s" and seg: "sched_segment me lk pc s = Inr (pc', s')"
    and a: "a \<in> set (onboard (elevator s))" and a': "a \<in> set (onboard (elevator s'))"
    and p: "heap s a = Some p"
  shows "heap s' a = Some p \<and>
    potential (destination_floor p) pc' s' < potential (destination_floor p) pc s"
proof -
  have d: "1 \<le> destination_floor p" "destination_floor p \<le> 10"
    using wfD(2) [OF w] p by (auto simp: heap_ok_def passenger_ok_def)
  have l: "0 < loads (elevator s)"
    using wf_loads_range [OF w] a by (cases "onboard (elevator s)") auto
  note seg0 = segment_lock_free [OF w seg]
  show ?thesis
  proof (cases pc)
    case AtTop
    then have "pc' = AtUnload \<and> s' = s"
      using seg0 a by (cases "onboard (elevator s)") (auto simp: has_work_def list_empty_def)
    then show ?thesis using AtTop p by simp
  next
    case AtUnload
    then obtain u where s': "s' = unloaded_state s" "pc' = AtLoad u"
      using seg0 by (auto simp: unloadPassengers_eq [OF w] res_simps)
    have stay: "\<not> leaves s a" using a' s' by (simp add: unloaded_fields)
    then have "current_floor (elevator s) \<noteq> destination_floor p"
      using p by (auto simp: leaves_def)
    then have "to_go (destination_floor p) (elevator s) \<noteq> 0"
      using to_go_zero [OF wfD(7) [OF w] d] by blast
    moreover have "heap s' a = Some p" using stay p s' by (simp add: unloaded_fields)
    ultimately show ?thesis
      using AtUnload s' to_go_cong [OF unloaded_fields(2,3), of _ s]
      by (simp add: to_go_after_def)
  next
    case (AtLoad u)
    then have "(s' = loaded_state s \<or> s' = s) \<and> (\<exists>l. pc' = AtRest u l)"
      using seg0 by (auto simp: loadPassengers_eq [OF w] res_simps split: if_splits)
    then show ?thesis
      using AtLoad p to_go_cong [OF loaded_fields(2,3), of _ s] by (auto simp: loaded_fields)
  next
    case (AtRest u l)
    then have "pc' = AtDecide" and "s' = s \<or> s' = ssleep LOAD_TIME (set_state LOADING s)"
      using seg0 by (auto split: if_splits)
    then show ?thesis
      using AtRest p to_go_cong [of "elevator (set_state LOADING s)" "elevator s"] by auto
  next
    case AtDecide
    then have "pc' = AtMove" and "s' = ssleep MOVE_TIME (s\<lparr>elevator := changeElevatorState (elevator s)\<rparr>)"
      using seg0 l by auto
    then show ?thesis
      using AtDecide p changeElevatorState_frame [of "elevator s"]
        to_go_cong [of "changeElevatorState (elevator s)" "elevator s"] by simp
  next
    case AtMove
    then have s': "pc' = AtTop" "s' = s\<lparr>elevator := moveElevator (elevator s)\<rparr>" using seg0 by auto
    moreover have "0 < to_go_after (destination_floor p) (elevator s)" by (simp add: to_go_after_def)
    ultimately show ?thesis using AtMove pc p by (simp add: to_go_move)
  qed (use pc a l in auto)
qed

lemma call_keeps_potential:
  assumes step: "kstep (pc, c, s) e (pc', c', s')" and ok: "sys_ok (pc, c, s)"
    and call: "\<forall>lk. e \<noteq> Sched lk"
    and a: "a \<in> set (onboard (elevator s'))" and p: "heap s a = Some p"
  shows "heap s' a = Some p \<and> potential d pc' s' = potential d pc s"
  using step ok
proof (cases rule: kstep_cases)
  case (requests me lk b start dest type)
  then have "heap s' a = heap s a" using p by (auto simp: requested_state_def Let_def)
  then show ?thesis using requests p by (cases pc) auto
next
  case offloads
  then show ?thesis using a by (simp add: offloaded_state_def)
next
  case else
  then have "to_go d (elevator s') = to_go d (elevator s)
      \<and> to_go_after d (elevator s') = to_go_after d (elevator s)"
    using call by (intro to_go_cong) (auto simp: same_place_def)
  then show ?thesis using else call p by (cases pc) (auto simp: same_passengers_def)
qed (use call in blast)+

lemma rides_potential:
  assumes "rides a x n y" and "sys_ok x" and "heap (globals x) a = Some p"
  shows "n + potential (destination_floor p) (fst y) (globals y)
    \<le> potential (destination_floor p) (fst x) (globals x)"
  using assms
proof (induction rule: rides.induct)
  case (rides_here x)
  then show ?case by simp
next
  case (rides_sched x lk y n z)
  obtain pc c s where x: "x = (pc, c, s)" by (cases x)
  obtain pc' s' where y: "y = (pc', c, s')" and seg: "sched_segment 0 lk pc s = Inr (pc', s')"
    using rides_sched.hyps(2) unfolding x by (auto elim: kstep_schedE)
  have "heap s' a = Some p \<and> potential (destination_floor p) pc' s' < potential (destination_floor p) pc s"
    by (rule segment_progress [OF _ _ seg])
      (use rides_sched.hyps(1) rides_sched.prems rides_on_board [OF rides_sched.hyps(3)] x y
       in \<open>simp_all add: on_board_def sys_ok_def\<close>)
  moreover have "sys_ok y" using kstep_sys_ok rides_sched by blast
  ultimately show ?case using rides_sched.IH x y by auto
next
  case (rides_call x e y n z)
  obtain pc c s pc' c' s' where xy: "x = (pc, c, s)" "y = (pc', c', s')" by (cases x, cases y)
  have "heap s' a = Some p \<and> potential (destination_floor p) pc' s' = potential (destination_floor p) pc s"
    by (rule call_keeps_potential [OF rides_call.hyps(2) [unfolded xy]])
      (use rides_call.hyps rides_call.prems rides_on_board [OF rides_call.hyps(4)] xy
       in \<open>simp_all add: on_board_def\<close>)
  moreover have "sys_ok y" using kstep_sys_ok rides_call by blast
  ultimately show ?case using rides_call.IH xy by auto
qed

text \<open>How a passenger gets off: at the destination, or thrown out by a stop.\<close>

lemma leaves_board:
  assumes step: "kstep (pc, c, s) e (pc', c', s')" and ok: "sys_ok (pc, c, s)"
    and a: "a \<in> set (onboard (elevator s))" and a': "a \<notin> set (onboard (elevator s'))"
  shows "(\<exists>lk p. e = Sched lk \<and> pc = AtUnload \<and> heap s a = Some p
            \<and> destination_floor p = current_floor (elevator s))
       \<or> (\<exists>me lk. e = Continue me lk None (Some 0) \<and> c me = StopLock)"
  using step ok
  by (cases rule: kstep_cases)
    (use a a' in \<open>auto simp: unloaded_fields loaded_fields leaves_def same_passengers_def\<close>)

end
