(* ===== verification/Reachability.thy ===== *)
theory Reachability
  imports Delivery
begin

text \<open>
  What holds in every state the running module can reach, in every interleaving of the
  scheduler with the system calls: the ledger of accepted passengers (an instance of the
  \<open>tally\<close> locale), capacity, memory safety, infection, counters, bounded delivery. The
  small run of the section "A run" is where the witnesses evaluate.
\<close>

section \<open>The ledger\<close>

definition ledger :: "sys \<Rightarrow> int" where
  "ledger x = num_waiting (globals x) + loads (elevator (globals x)) + serviced (globals x)"

text \<open>The requests that were queued are those that allocated a passenger.\<close>

fun accepted :: "kevent \<Rightarrow> bool" where
  "accepted (Continue me lk (Some a) r) \<longleftrightarrow> True"
| "accepted _ \<longleftrightarrow> False"

definition ledger_gain :: "kevent \<Rightarrow> int" where
  "ledger_gain e = (if accepted e then 1 else 0)"

lemma sum_ledger_gain: "sum_list (map ledger_gain es) = int (length (filter accepted es))"
  by (induction es) (auto simp: ledger_gain_def)

lemma wrap32_cancel:
  "(wrap32 (x - n) + (y + n) + z) mod 4294967296 = (x + y + z) mod 4294967296"
  "(x + (y - n) + wrap32 (z + n)) mod 4294967296 = (x + y + z) mod 4294967296"
  "(inc32 x + y + z) mod 4294967296 = (x + y + z + 1) mod 4294967296"
proof -
  have "(wrap32 (x - n) + (y + n) + z) mod 4294967296 = (x - n + (y + n) + z) mod 4294967296"
    by (metis mod_add_left_eq wrap32_mod)
  then show "(wrap32 (x - n) + (y + n) + z) mod 4294967296 = (x + y + z) mod 4294967296" by simp
  have "(x + (y - n) + wrap32 (z + n)) mod 4294967296 = (x + (y - n) + (z + n)) mod 4294967296"
    by (metis mod_add_right_eq wrap32_mod)
  then show "(x + (y - n) + wrap32 (z + n)) mod 4294967296 = (x + y + z) mod 4294967296"
    by (simp add: add.assoc)
  have "(inc32 x + y + z) mod 4294967296 = (x + 1 + y + z) mod 4294967296"
    unfolding inc32_def by (metis mod_add_left_eq wrap32_mod)
  then show "(inc32 x + y + z) mod 4294967296 = (x + y + z + 1) mod 4294967296"
    by (simp add: algebra_simps)
qed

lemma kstep_ledger:
  assumes "kstep x e y" and "sys_ok x"
  shows "ledger y mod 4294967296 = (ledger x + ledger_gain e) mod 4294967296"
proof -
  obtain pc c s pc' c' s' where xy: "x = (pc, c, s)" "y = (pc', c', s')" by (cases x, cases y)
  from assms [unfolded xy] show ?thesis
  proof (cases rule: kstep_cases)
    case (unloads lk u)
    then show ?thesis
      by (simp add: xy ledger_def ledger_gain_def unloaded_state_def Let_def wrap32_cancel)
  next
    case (loads lk u l)
    then show ?thesis
      by (simp add: xy ledger_def ledger_gain_def loaded_state_def Let_def load_result_fields wrap32_cancel)
  next
    case (requests me lk a start dest type)
    then show ?thesis
      by (simp add: xy ledger_def ledger_gain_def requested_state_def Let_def wrap32_cancel)
  next
    case (offloads me lk)
    then show ?thesis by (simp add: xy ledger_def ledger_gain_def offloaded_state_def)
  next
    case else
    then have "\<not> accepted e" by (cases e rule: accepted.cases) auto
    then show ?thesis using else by (simp add: xy ledger_def ledger_gain_def same_passengers_def)
  qed
qed

interpretation passengers: tally kstep sys_ok ledger ledger_gain 4294967296
  by unfold_locales (rule kstep_ledger)

lemma ledger_booted: "ledger booted = 0"
  by (simp add: ledger_def booted_def boot_explicit)

section \<open>A run\<close>

text \<open>
  Started, one zombie asks on floor 1 for floor 5, the scheduler unloads (nobody) and loads:
  the zombie, at address 7, is on board.
\<close>

definition demo_waiting :: kstate where
  "demo_waiting = requested_state 7 1 5 1 (snd (start_elevator boot_state))"

definition demo_riding :: kstate where
  "demo_riding = loaded_state (unloaded_state demo_waiting)"

lemma demo_waiting_eq: "demo_waiting =
     \<lparr>elevator = \<lparr>state = 0, current_floor = 1, next_floor = 2, loads = 0, deactiving = 0,
        started = 1, status = 0, onboard = []\<rparr>,
      thread1 = \<lparr>thread_id = 1, cnt = 0, kthread = Task 0, mutex = None, mutex_ready = True\<rparr>,
      waiting_list = [[7], [], [], [], [], [], [], [], [], []], serviced = 0, num_waiting = 1,
      waiting_on_floor = [1, 0, 0, 0, 0, 0, 0, 0, 0, 0],
      heap = [7 \<mapsto> \<lparr>ptype = 1, start_floor = 1, destination_floor = 5\<rparr>], clock = 0\<rparr>"
  by (simp add: demo_waiting_def requested_state_def start_elevator_def boot_explicit Let_def
      inc32_def wrap32_def)

lemma demo_unloaded: "unloaded_state demo_waiting = demo_waiting"
  by (simp add: demo_waiting_eq unloaded_state_def Let_def wrap32_def)

lemma demo_boarding: "boards_here demo_waiting (queue_here demo_waiting) = [7]"
  by (simp add: demo_waiting_eq boarding_def candidates_def zombie_at_def)

lemma demo_riding_fields:
  "onboard (elevator demo_riding) = [7]" "loads (elevator demo_riding) = 1"
  "status (elevator demo_riding) = 1" "current_floor (elevator demo_riding) = 1"
  "next_floor (elevator demo_riding) = 2" "num_waiting demo_riding = 0"
  "started (elevator demo_riding) = 1" "deactiving (elevator demo_riding) = 0"
  "heap demo_riding 7 = Some \<lparr>ptype = 1, start_floor = 1, destination_floor = 5\<rparr>"
  "serviced demo_riding = 0" "waiting_list demo_riding = replicate 10 []"
  unfolding demo_riding_def demo_unloaded loaded_state_def Let_def demo_boarding
  by (simp_all add: load_result_def demo_waiting_eq zombie_at_def wrap32_def numeral_eq_Suc)

abbreviation nobody :: "nat \<Rightarrow> call_pc" where
  "nobody \<equiv> \<lambda>_. Ready"

lemma nobody_upd [simp]: "nobody(me := Ready) = nobody"
  by (simp add: fun_eq_iff)

definition demo_events :: "kevent list" where
  "demo_events = [Enter 1 StartCall None, Continue 1 0 None None, Continue 1 0 None (Some 0),
     Enter 1 (RequestCall 1 5 1) None, Continue 1 0 (Some 7) (Some 0)]"

lemma started_steps:
  "steps kstep booted [Enter 1 StartCall None, Continue 1 0 None None, Continue 1 0 None (Some 0)]
     (AtTop, nobody, snd (start_elevator boot_state))"
proof -
  let ?s0 = "boot_state" and ?s2 = "snd (start_elevator boot_state)"
  let ?s1 = "boot_state\<lparr>elevator := (elevator boot_state)\<lparr>started := 1\<rparr>\<rparr>"
  have f: "started (elevator ?s0) = 0" "?s2 = ?s1\<lparr>elevator := (elevator ?s1)\<lparr>deactiving := 0\<rparr>\<rparr>"
    by (simp_all add: start_elevator_def boot_explicit)
  have 1: "kstep booted (Enter 1 StartCall None) (AtTop, nobody(1 := StartSet), ?s0)"
    unfolding booted_def by (rule kstep_enter) (simp_all add: f(1))
  have 2: "kstep (AtTop, nobody(1 := StartSet), ?s0) (Continue 1 0 None None)
      (AtTop, nobody(1 := StartClear), ?s1)"
    using kstep_continue [of "nobody(1 := StartSet)" 1 None ?s0 0] by (simp add: fresh_def)
  have 3: "kstep (AtTop, nobody(1 := StartClear), ?s1) (Continue 1 0 None (Some 0)) (AtTop, nobody, ?s2)"
    using kstep_continue [of "nobody(1 := StartClear)" 1 None ?s1 0] f(2) by (simp add: fresh_def)
  show ?thesis using 1 2 3 by blast
qed

lemma request_steps:
  assumes "well_formed s" and "started (elevator s) \<noteq> 0" and "deactiving (elevator s) = 0"
    and "request_valid start dest type" and "heap s a = None"
  shows "steps kstep (pc, nobody, s)
    [Enter 1 (RequestCall start dest type) None, Continue 1 0 (Some a) (Some 0)]
    (pc, nobody, requested_state a start dest type s)"
proof -
  let ?c = "nobody(1 := RequestLock start dest type)"
  have "kstep (pc, nobody, s) (Enter 1 (RequestCall start dest type) None) (pc, ?c, s)"
    by (rule kstep_enter) (use assms in \<open>auto simp: request_valid_def\<close>)
  moreover have "kstep (pc, ?c, s) (Continue 1 0 (Some a) (Some 0))
      (pc, ?c(1 := Ready), requested_state a start dest type s)"
    by (rule kstep_continue) (use assms request_critical_accepted [OF assms(1,3,4)] in \<open>simp_all add: fresh_def res_simps\<close>)
  ultimately show ?thesis by (simp only: nobody_upd fun_upd_upd) (blast intro: steps_cons steps_nil)
qed

lemma started_boot:
  "well_formed (snd (start_elevator boot_state))" "started (elevator (snd (start_elevator boot_state))) = 1"
  "deactiving (elevator (snd (start_elevator boot_state))) = 0" "heap (snd (start_elevator boot_state)) = Map.empty"
  by (rule wf_start [OF wf_boot]) (simp_all add: start_elevator_def boot_explicit)

lemma demo_request: "steps kstep booted demo_events (AtTop, nobody, demo_waiting)"
proof -
  have "steps kstep (AtTop, nobody, snd (start_elevator boot_state))
      [Enter 1 (RequestCall 1 5 1) None, Continue 1 0 (Some 7) (Some 0)] (AtTop, nobody, demo_waiting)"
    unfolding demo_waiting_def by (rule request_steps) (simp_all add: started_boot request_valid_def)
  from steps_append [OF started_steps this] show ?thesis by (simp add: demo_events_def)
qed

lemma wf_demo_waiting: "well_formed demo_waiting"
  using reachable_ok [OF demo_request] by (simp add: sys_ok_def)

lemma demo_to_load:
  "steps kstep (AtTop, nobody, demo_waiting) [Sched 0, Sched 0] (AtLoad 0, nobody, unloaded_state demo_waiting)"
proof -
  have "has_work demo_waiting" by (simp add: has_work_def demo_waiting_eq)
  then have 1: "kstep (AtTop, nobody, demo_waiting) (Sched 0) (AtUnload, nobody, demo_waiting)"
    by (intro kstep_sched) simp
  have "onboard (elevator demo_waiting) = []" by (simp add: demo_waiting_eq)
  then have 2: "kstep (AtUnload, nobody, demo_waiting) (Sched 0) (AtLoad 0, nobody, unloaded_state demo_waiting)"
    by (intro kstep_sched) (simp add: unloadPassengers_eq [OF wf_demo_waiting] res_simps)
  show ?thesis using 1 2 by blast
qed

lemma demo_load_step:
  "kstep (AtLoad 0, nobody, unloaded_state demo_waiting) (Sched 0) (AtRest 0 1, nobody, demo_riding)"
proof -
  have "loads (elevator demo_waiting) < CAPACITY" by (simp add: demo_waiting_eq)
  then show ?thesis
    unfolding demo_unloaded
    by (intro kstep_sched)
      (simp add: loadPassengers_eq [OF wf_demo_waiting] demo_boarding res_simps demo_riding_def demo_unloaded)
qed

lemma demo_run:
  "steps kstep booted (demo_events @ [Sched 0, Sched 0] @ [Sched 0]) (AtRest 0 1, nobody, demo_riding)"
  by (intro steps_append [OF demo_request] steps_append [OF demo_to_load]
      steps_cons [where step = kstep, OF demo_load_step] steps_nil)

text \<open>And then the caller stops the elevator, up to the point where it throws out the zombie.\<close>

definition demo_stopping :: kstate where
  "demo_stopping = demo_riding\<lparr>elevator := (elevator demo_riding)\<lparr>deactiving := 1, started := 0\<rparr>\<rparr>"

definition demo_stop_events :: "kevent list" where
  "demo_stop_events = [Enter 1 StopCall None, Continue 1 0 None None, Continue 1 0 None None,
     Continue 1 0 None None]"

lemma demo_stop:
  assumes "c 1 = Ready"
  shows "steps kstep (pc, c, demo_riding) demo_stop_events (pc, c(1 := StopLock), demo_stopping)"
proof -
  let ?d = "demo_riding\<lparr>elevator := (elevator demo_riding)\<lparr>deactiving := 1\<rparr>\<rparr>"
  have 1: "kstep (pc, c, demo_riding) (Enter 1 StopCall None) (pc, c(1 := StopTest), demo_riding)"
    by (rule kstep_enter) (use assms in \<open>simp_all add: demo_riding_fields\<close>)
  have 2: "kstep (pc, c(1 := StopTest), demo_riding) (Continue 1 0 None None)
      (pc, c(1 := StopSet), demo_riding)"
    using kstep_continue [of "c(1 := StopTest)" 1 None demo_riding 0]
    by (simp add: fresh_def demo_riding_fields)
  have 3: "kstep (pc, c(1 := StopSet), demo_riding) (Continue 1 0 None None) (pc, c(1 := StopClear), ?d)"
    using kstep_continue [of "c(1 := StopSet)" 1 None demo_riding 0] by (simp add: fresh_def)
  have 4: "kstep (pc, c(1 := StopClear), ?d) (Continue 1 0 None None) (pc, c(1 := StopLock), demo_stopping)"
    using kstep_continue [of "c(1 := StopClear)" 1 None ?d 0]
    by (simp add: fresh_def demo_stopping_def)
  show ?thesis unfolding demo_stop_events_def using 1 2 3 4 by blast
qed

lemma demo_stop_run:
  "steps kstep booted ((demo_events @ [Sched 0, Sched 0] @ [Sched 0]) @ demo_stop_events)
     (AtRest 0 1, nobody(1 := StopLock), demo_stopping)"
  by (rule steps_append [OF demo_run demo_stop]) (rule refl)

lemma demo_offload:
  "kstep (AtRest 0 1, nobody(1 := StopLock), demo_stopping) (Continue 1 0 None (Some 0))
     (AtRest 0 1, nobody, offloaded_state demo_stopping)"
proof -
  have "well_formed demo_stopping" using reachable_ok [OF demo_stop_run] by (simp add: sys_ok_def)
  from stop_offload_eq [OF this, of 1] show ?thesis
    using kstep_continue [of "nobody(1 := StopLock)" 1 None demo_stopping 0]
    by (simp add: fresh_def res_simps)
qed

lemma demo_rides_1: "rides 7 (AtRest 0 1, nobody, demo_riding) 1 (AtDecide, nobody, ssleep LOAD_TIME (set_state LOADING demo_riding))"
proof -
  let ?y = "(AtDecide, nobody, ssleep LOAD_TIME (set_state LOADING demo_riding))"
  have "kstep (AtRest 0 1, nobody, demo_riding) (Sched 0) ?y" by (rule kstep_sched) simp
  moreover have "rides 7 ?y 0 ?y"
    by (rule rides_here) (simp add: on_board_def demo_riding_fields)
  ultimately have "rides 7 (AtRest 0 1, nobody, demo_riding) (Suc 0) ?y"
    using rides_sched [of 7 "(AtRest 0 1, nobody, demo_riding)"]
    by (simp add: on_board_def demo_riding_fields)
  then show ?thesis by simp
qed

section \<open>Properties\<close>

text \<open>
  C3. Whatever the interleaving of the scheduler with start, request and stop calls of any
  number of threads, the elevator never carries more passengers than \<open>loads\<close> says, \<open>loads\<close> never exceeds
  \<open>CAPACITY\<close>, and both the current and the next floor are floors of the building.
\<close>

theorem reachable_capacity:
  assumes "steps kstep booted es (pc, c, s)"
  shows "int (length (onboard (elevator s))) \<le> loads (elevator s) \<and> loads (elevator s) \<le> CAPACITY
     \<and> 1 \<le> current_floor (elevator s) \<and> current_floor (elevator s) \<le> FLOORS
     \<and> 1 \<le> next_floor (elevator s) \<and> next_floor (elevator s) \<le> FLOORS"
proof -
  have "well_formed s" using reachable_ok [OF assms] by (simp add: sys_ok_def)
  then show ?thesis using wfD(5,7) by (auto simp: loads_ok_def position_ok_def)
qed

theorem reachable_capacity_witness:
  "int (length (onboard (elevator demo_riding))) \<le> 1 \<and> loads (elevator demo_riding) \<le> CAPACITY
     \<and> next_floor (elevator demo_riding) = 2"
  using reachable_capacity [OF demo_run] demo_riding_fields by simp

text \<open>
  The counters that \<open>/proc/elevator\<close> shows agree with the lists in every reachable state:
  \<open>waiting_on_floor[i]\<close> is the length of \<open>waiting_list[i]\<close> and \<open>num_waiting\<close> their sum, both
  as 32-bit integers.
\<close>

lemma reachable_counters:
  assumes "steps kstep booted es (pc, c, s)"
  shows "length (waiting_on_floor s) = 10 \<and> length (waiting_list s) = 10
     \<and> (\<forall>i < 10. waiting_on_floor s ! i = wrap32 (int (length (waiting_list s ! i))))
     \<and> num_waiting s = wrap32 (int (length (concat (waiting_list s))))"
proof -
  have "well_formed s" using reachable_ok [OF assms] by (simp add: sys_ok_def)
  then show ?thesis using wfD(3,4) by (auto simp: counts_ok_def queues_ok_def simp del: length_concat)
qed

lemma reachable_counters_witness:
  "num_waiting demo_waiting = wrap32 1 \<and> waiting_on_floor demo_waiting ! 0 = 1"
proof -
  have "num_waiting demo_waiting = wrap32 (int (length (concat (waiting_list demo_waiting))))"
    "waiting_on_floor demo_waiting ! 0 = wrap32 (int (length (waiting_list demo_waiting ! 0)))"
    using reachable_counters [OF demo_request] by simp_all
  then show ?thesis by (simp add: demo_waiting_eq)
qed

text \<open>
  C2. Memory safety of the lists: in every reachable state each entry of the elevator's list
  and of the ten waiting lists is an allocated passenger, no entry is linked twice, and no
  allocated passenger is unlinked (nothing leaks); passengers wait on the floor they start
  from; and the counters agree with the lists, as 32-bit integers.
\<close>

theorem reachable_memory_safe:
  assumes "steps kstep booted es (pc, c, s)"
  shows "distinct (onboard (elevator s) @ concat (waiting_list s))
     \<and> set (onboard (elevator s) @ concat (waiting_list s)) = dom (heap s)
     \<and> (\<forall>i < 10. \<forall>a \<in> set (waiting_list s ! i). \<exists>p. heap s a = Some p \<and> start_floor p = int i + 1)
     \<and> (\<forall>i < 10. waiting_on_floor s ! i = wrap32 (int (length (waiting_list s ! i))))
     \<and> num_waiting s = wrap32 (int (length (concat (waiting_list s))))"
proof -
  have w: "well_formed s" using reachable_ok [OF assms] by (simp add: sys_ok_def)
  have "\<exists>p. heap s a = Some p \<and> start_floor p = int i + 1"
    if "i < 10" "a \<in> set (waiting_list s ! i)" for i a
    by (rule wf_waiting [OF w that]) blast
  then show ?thesis
    using wfD(1) [OF w] reachable_counters [OF assms]
    by (simp add: links_ok_def linked_def del: length_concat)
qed

theorem reachable_memory_safe_witness:
  "distinct (onboard (elevator demo_riding) @ concat (waiting_list demo_riding))
     \<and> {7} = dom (heap demo_riding)"
  using reachable_memory_safe [OF demo_run] by (simp add: demo_riding_fields)

text \<open>
  C12. Infection safety: in every reachable state an elevator shown as uninfected carries
  humans only, and one shown as infected is counted as occupied, so the status is reset
  whenever the elevator empties.
\<close>

theorem reachable_infection:
  assumes "steps kstep booted es (pc, c, s)"
  shows "(status (elevator s) = 0 \<longrightarrow>
            (\<forall>a \<in> set (onboard (elevator s)). \<exists>p. heap s a = Some p \<and> ptype p = 0))
     \<and> (status (elevator s) \<noteq> 0 \<longrightarrow> 0 < loads (elevator s))"
proof -
  have w: "well_formed s" using reachable_ok [OF assms] by (simp add: sys_ok_def)
  have "\<exists>p. heap s a = Some p \<and> ptype p = 0"
    if s0: "status (elevator s) = 0" and a: "a \<in> set (onboard (elevator s))" for a
  proof -
    obtain p where p: "heap s a = Some p" "passenger_ok p" by (rule on_board_heap [OF w a])
    moreover have "\<not> zombie_at s a" using wfD(6) [OF w] s0 a by (auto simp: infection_ok_def)
    ultimately show ?thesis by (auto simp: zombie_at_def passenger_ok_def)
  qed
  then show ?thesis using wfD(6) [OF w] by (auto simp: infection_ok_def)
qed

theorem reachable_infection_witness:
  "status (elevator demo_riding) = 1 \<and> 0 < loads (elevator demo_riding)"
  using reachable_infection [OF demo_run] demo_riding_fields by simp

text \<open>
  No faults in the background thread: in every reachable state the scheduler's next
  segment, when no signal interrupts its lock, runs to its end. No null or freed passenger is
  read, nothing is freed twice, no array index is out of bounds.
\<close>

lemma scheduler_never_faults:
  assumes "steps kstep booted es (pc, c, s)"
  shows "\<exists>pc' s'. sched_segment me 0 pc s = Inr (pc', s')"
  using segment_ok [of s pc me] reachable_ok [OF assms] by (auto simp: sys_ok_def)

lemma scheduler_never_faults_witness:
  "\<exists>pc' s'. sched_segment 3 0 (AtRest 0 1) demo_riding = Inr (pc', s')"
  by (rule scheduler_never_faults [OF demo_run])

text \<open>
  C9. Conservation: in every reachable state the waiting, the loads and the serviced
  passengers add up to the number of requests that were accepted, as 32-bit integers. No
  interleaving loses or duplicates an accepted passenger in the books.
\<close>

theorem accepted_passengers_conserved:
  assumes "steps kstep booted es (pc, c, s)"
  shows "wrap32 (num_waiting s + loads (elevator s) + serviced s)
     = wrap32 (int (length (filter accepted es)))"
proof -
  have "ledger (pc, c, s) mod 4294967296 = (ledger booted + int (length (filter accepted es))) mod 4294967296"
    using passengers.run_weight [OF assms sys_ok_booted] by (simp add: sum_ledger_gain)
  then show ?thesis by (simp add: wrap32_cong_iff ledger_booted) (simp add: ledger_def)
qed

theorem accepted_passengers_conserved_witness:
  "wrap32 (num_waiting demo_riding + loads (elevator demo_riding) + serviced demo_riding) = wrap32 1"
  using accepted_passengers_conserved [OF demo_run] by (simp add: demo_events_def)

text \<open>
  C4. Bounded delivery: from any reachable state, in any interleaving with system calls, a
  passenger stays on board during at most 111 segments of the scheduler (at most six to a
  round, so fewer than 19 rounds).
\<close>

theorem delivered_within_111_segments:
  assumes "steps kstep booted es x" and "rides a x n y"
  shows "n \<le> 111"
proof -
  have ok: "sys_ok x" by (rule reachable_ok [OF assms(1)])
  have "a \<in> set (onboard (elevator (globals x)))"
    using rides_on_board [OF assms(2)] by (simp add: on_board_def)
  moreover have "well_formed (globals x)" using ok by (auto simp: sys_ok_def)
  ultimately obtain p where "heap (globals x) a = Some p" by (metis on_board_heap)
  from rides_potential [OF assms(2) ok this] show ?thesis
    using potential_bound le_trans add_leD1 by blast
qed

theorem delivered_within_111_segments_witness:
  "rides 7 (AtRest 0 1, nobody, demo_riding) 1
     (AtDecide, nobody, ssleep LOAD_TIME (set_state LOADING demo_riding)) \<and> (1 :: nat) \<le> 111"
  using delivered_within_111_segments [OF demo_run demo_rides_1] demo_rides_1 by blast

text \<open>
  A passenger who is on board before a step and not after it got off at the destination,
  during unloading, or was thrown out by the last segment of a \<open>stop_elevator\<close> that returned 0.
\<close>

lemma gets_off_at_destination:
  assumes "steps kstep booted es (pc, c, s)" and "kstep (pc, c, s) e (pc', c', s')"
    and "a \<in> set (onboard (elevator s))" and "a \<notin> set (onboard (elevator s'))"
  shows "(\<exists>lk p. e = Sched lk \<and> pc = AtUnload \<and> heap s a = Some p
            \<and> destination_floor p = current_floor (elevator s))
       \<or> (\<exists>me lk. e = Continue me lk None (Some 0) \<and> c me = StopLock)"
  by (rule leaves_board [OF assms(2) reachable_ok [OF assms(1)] assms(3,4)])

lemma gets_off_at_destination_witness:
  "(\<exists>lk p. Continue 1 0 None (Some 0) = Sched lk \<and> AtRest 0 1 = AtUnload \<and> heap demo_stopping 7 = Some p
       \<and> destination_floor p = current_floor (elevator demo_stopping))
   \<or> (\<exists>me lk. Continue 1 0 None (Some 0) = Continue me lk None (Some 0) \<and> (nobody(1 := StopLock)) me = StopLock)"
  by (rule gets_off_at_destination [OF demo_stop_run demo_offload])
    (simp_all add: demo_stopping_def demo_riding_fields offloaded_state_def)

end
