(* ===== verification/AbstractLift.thy ===== *)
theory AbstractLift
  imports Loading Movement
begin

text \<open>
  The elevator as its specification describes it: passengers, not addresses; queues, not
  linked lists; no locks. \<open>uncounted\<close> is the number of places that are counted as taken
  although nobody is in them (see \<open>stop_elevator\<close>). The refinement to the code is in theory
  \<open>Refinement\<close>.
\<close>

record lift =
  cabin_floor :: int
  cabin_next :: int
  riders :: "passenger_data list"
  uncounted :: nat
  infected :: bool
  queues :: "passenger_data list list"
  delivered :: int

definition is_zombie :: "passenger_data \<Rightarrow> bool" where
  "is_zombie p \<longleftrightarrow> ptype p = 1"

section \<open>Who stays on the floor\<close>

fun staying :: "('a \<Rightarrow> bool) \<Rightarrow> nat \<Rightarrow> bool \<Rightarrow> 'a list \<Rightarrow> 'a list" where
  "staying z 0 sick q = q"
| "staying z (Suc n) sick [] = []"
| "staying z (Suc n) sick (x # q) =
     (if z x then staying z n True q
      else if sick then x # staying z (Suc n) True q else staying z n False q)"

lemma staying_Nil [simp]: "staying z n sick [] = []"
  by (cases n) simp_all

lemma staying_boarding:
  "distinct q \<Longrightarrow> filter (\<lambda>a. a \<notin> set (boarding z n sick q)) q = staying z n sick q"
proof (induction z n sick q rule: staying.induct)
  case (3 z n sick x q)
  have d: "x \<notin> set q" "distinct q" using "3.prems" by auto
  have s: "x \<notin> set (boarding z k b q)" for k b using d(1) set_boarding by (meson subsetD)
  show ?case
    using 3 d filter_not_boarding [OF d(1), of z] by (auto simp: boarding_Cons s simp del: filter.simps)
      (simp_all add: s)
qed simp_all

lemma boarding_map: "boarding z n sick (map f q) = map f (boarding (z \<circ> f) n sick q)"
  by (simp add: boarding_def candidates_def take_map takeWhile_map filter_map comp_def)

lemma staying_map: "staying z n sick (map f q) = map f (staying (z \<circ> f) n sick q)"
  by (induction "z \<circ> f" n sick q rule: staying.induct) simp_all

lemma boarding_cong:
  "(\<And>a. a \<in> set q \<Longrightarrow> z a = z' a) \<Longrightarrow> boarding z n sick q = boarding z' n sick q"
  by (induction z n sick q rule: staying.induct) (auto simp: boarding_Cons)

lemma staying_cong:
  "(\<And>a. a \<in> set q \<Longrightarrow> z a = z' a) \<Longrightarrow> staying z n sick q = staying z' n sick q"
  by (induction z n sick q rule: staying.induct) auto

lemma length_boarding_staying:
  "length (boarding z n sick q) + length (staying z n sick q) = length q"
  by (induction z n sick q rule: staying.induct) (auto simp: boarding_Cons)

lemma staying_all: "boarding z n sick q = [] \<Longrightarrow> staying z n sick q = q"
proof (induction z n sick q rule: staying.induct)
  case (3 z n sick x q)
  then show ?case by (cases "z x"; cases sick) (simp_all add: boarding_Cons)
qed simp_all

section \<open>Operations\<close>

definition lift_unload :: "lift \<Rightarrow> lift" where
  "lift_unload l =
     (let stay = filter (\<lambda>p. destination_floor p \<noteq> cabin_floor l) (riders l) in
      l\<lparr>riders := stay,
        delivered := wrap32 (delivered l + (int (length (riders l)) - int (length stay))),
        infected := (infected l \<and> \<not> (stay = [] \<and> uncounted l = 0))\<rparr>)"

definition lift_room :: "lift \<Rightarrow> nat" where
  "lift_room l = 10 - (length (riders l) + uncounted l)"

definition lift_load :: "lift \<Rightarrow> lift" where
  "lift_load l =
     (let i = nat (cabin_floor l - 1); q = queues l ! i;
          b = boarding is_zombie (lift_room l) (infected l) q in
      l\<lparr>riders := riders l @ b,
        infected := (infected l \<or> (\<exists>p \<in> set b. is_zombie p)),
        queues := (queues l)[i := staying is_zombie (lift_room l) (infected l) q]\<rparr>)"

definition lift_move :: "lift \<Rightarrow> lift" where
  "lift_move l = l\<lparr>cabin_floor := cabin_next l, cabin_next := turn (cabin_floor l) (cabin_next l)\<rparr>"

definition lift_busy :: "lift \<Rightarrow> bool" where
  "lift_busy l \<longleftrightarrow> riders l \<noteq> [] \<or> concat (queues l) \<noteq> []"

definition lift_round :: "lift \<Rightarrow> lift" where
  "lift_round l =
     (if lift_busy l then
        let l' = lift_load (lift_unload l)
        in if riders l' \<noteq> [] \<or> uncounted l' \<noteq> 0 \<or> concat (queues l') \<noteq> [] then lift_move l' else l'
      else l)"

definition lift_request :: "passenger_data \<Rightarrow> lift \<Rightarrow> lift" where
  "lift_request p l =
     (let i = nat (start_floor p - 1) in l\<lparr>queues := (queues l)[i := queues l ! i @ [p]]\<rparr>)"

definition lift_stop :: "lift \<Rightarrow> lift" where
  "lift_stop l = l\<lparr>riders := [], uncounted := uncounted l + length (riders l)\<rparr>"

section \<open>Positions\<close>

definition lift_ok :: "lift \<Rightarrow> bool" where
  "lift_ok l \<longleftrightarrow> 1 \<le> cabin_floor l \<and> cabin_floor l \<le> 10 \<and> 1 \<le> cabin_next l \<and> cabin_next l \<le> 10
     \<and> (cabin_next l = cabin_floor l + 1 \<or> cabin_next l = cabin_floor l - 1)
     \<and> length (queues l) = 10 \<and> length (riders l) + uncounted l \<le> 10
     \<and> (\<forall>p \<in> set (riders l). 1 \<le> destination_floor p \<and> destination_floor p \<le> 10)
     \<and> (\<forall>q \<in> set (queues l). \<forall>p \<in> set q. 1 \<le> destination_floor p \<and> destination_floor p \<le> 10)"

definition lift_phase :: "lift \<Rightarrow> nat" where
  "lift_phase l = nat (if cabin_floor l < cabin_next l then cabin_floor l - 1 else 19 - cabin_floor l)"

interpretation lift_sweep: sweep lift_move lift_phase lift_ok cabin_floor
proof unfold_locales
  fix l :: lift
  assume ok: "lift_ok l"
  show "lift_ok (lift_move l)" using ok by (auto simp: lift_ok_def lift_move_def turn_def)
  show r: "lift_phase l < 18" using ok by (auto simp: lift_ok_def lift_phase_def)
  have "lift_phase (lift_move l) = (if lift_phase l = 17 then 0 else lift_phase l + 1)"
    using ok by (auto simp: lift_ok_def lift_move_def turn_def lift_phase_def)
  then show "lift_phase (lift_move l) = (lift_phase l + 1) mod 18" using r by simp
  show "cabin_floor l = phase_floor (lift_phase l)"
    using ok by (auto simp: lift_ok_def lift_phase_def phase_floor_def)
qed

end
