(* ===== verification/LiftProgress.thy ===== *)
theory LiftProgress
  imports AbstractLift
begin

text \<open>
  Progress of the specification's elevator when nobody else asks: as long as no place is
  counted as taken by nobody, every passenger is fetched and delivered. A round in which
  nobody gets on or off is quiet; the cabin sweeps, so within 18 rounds one is not quiet, and
  that one lowers the remaining work.
\<close>

definition lift_work :: "lift \<Rightarrow> nat" where
  "lift_work l = 2 * length (concat (queues l)) + length (riders l)"

definition boarders :: "lift \<Rightarrow> passenger_data list" where
  "boarders l = boarding is_zombie (lift_room l) (infected l) (queues l ! nat (cabin_floor l - 1))"

definition quiet :: "lift \<Rightarrow> bool" where
  "quiet l \<longleftrightarrow> (\<forall>p \<in> set (riders l). destination_floor p \<noteq> cabin_floor l)
     \<and> boarders (lift_unload l) = []"

section \<open>One round\<close>

abbreviation lift_stop_phase :: "lift \<Rightarrow> lift" where
  "lift_stop_phase l \<equiv> lift_load (lift_unload l)"

lemma lift_unload_fields:
  "cabin_floor (lift_unload l) = cabin_floor l" "cabin_next (lift_unload l) = cabin_next l"
  "queues (lift_unload l) = queues l" "uncounted (lift_unload l) = uncounted l"
  "riders (lift_unload l) = filter (\<lambda>p. destination_floor p \<noteq> cabin_floor l) (riders l)"
  by (simp_all add: lift_unload_def Let_def)

lemma lift_load_fields:
  "cabin_floor (lift_load l) = cabin_floor l" "cabin_next (lift_load l) = cabin_next l"
  "uncounted (lift_load l) = uncounted l" "riders (lift_load l) = riders l @ boarders l"
  "queues (lift_load l) = (queues l)[nat (cabin_floor l - 1) :=
     staying is_zombie (lift_room l) (infected l) (queues l ! nat (cabin_floor l - 1))]"
  by (simp_all add: lift_load_def Let_def boarders_def)

lemma lift_move_fields:
  "riders (lift_move l) = riders l" "queues (lift_move l) = queues l"
  "uncounted (lift_move l) = uncounted l" "infected (lift_move l) = infected l"
  "cabin_floor (lift_move l) = cabin_next l"
  "cabin_next (lift_move l) = turn (cabin_floor l) (cabin_next l)"
  by (simp_all add: lift_move_def)

lemma lift_ok_unload:
  assumes "lift_ok l"
  shows "lift_ok (lift_unload l)"
proof -
  have "length (riders (lift_unload l)) \<le> length (riders l)" by (simp add: lift_unload_fields)
  then have "length (riders (lift_unload l)) + uncounted l \<le> 10"
    using assms unfolding lift_ok_def by linarith
  moreover have "set (riders (lift_unload l)) \<subseteq> set (riders l)" by (simp add: lift_unload_fields)
  ultimately show ?thesis
    using assms unfolding lift_ok_def lift_unload_fields(1-4) by blast
qed

lemma lift_ok_floor: "lift_ok l \<Longrightarrow> nat (cabin_floor l - 1) < length (queues l)"
  by (auto simp: lift_ok_def)

lemma set_staying: "set (staying z n sick q) \<subseteq> set q"
  by (induction z n sick q rule: staying.induct) auto

lemma lift_ok_load:
  assumes "lift_ok l"
  shows "lift_ok (lift_load l)"
proof -
  let ?i = "nat (cabin_floor l - 1)"
  have i: "?i < length (queues l)" by (rule lift_ok_floor [OF assms])
  have q: "queues l ! ?i \<in> set (queues l)" using i by (rule nth_mem)
  have b: "set (boarders l) \<subseteq> set (queues l ! ?i)" unfolding boarders_def by (rule set_boarding)
  have n: "length (boarders l) \<le> 10 - (length (riders l) + uncounted l)"
    unfolding boarders_def lift_room_def by (rule length_boarding)
  let ?r = "staying is_zombie (lift_room l) (infected l) (queues l ! ?i)"
  have "set ((queues l)[?i := ?r]) \<subseteq> insert ?r (set (queues l))" by (rule set_update_subset_insert)
  moreover have "set ?r \<subseteq> set (queues l ! ?i)" by (rule set_staying)
  ultimately have "\<forall>x \<in> set ((queues l)[?i := ?r]). \<forall>p \<in> set x.
      1 \<le> destination_floor p \<and> destination_floor p \<le> 10"
    using assms q unfolding lift_ok_def by blast
  moreover have "\<forall>p \<in> set (riders l @ boarders l). 1 \<le> destination_floor p \<and> destination_floor p \<le> 10"
    using assms b q unfolding lift_ok_def set_append by blast
  moreover have "length (riders l) + uncounted l \<le> 10" using assms unfolding lift_ok_def by blast
  then have "length (riders l @ boarders l) + uncounted l \<le> 10" using n by simp
  ultimately show ?thesis
    using assms unfolding lift_ok_def lift_load_fields by simp
qed

lemma lift_ok_round: "lift_ok l \<Longrightarrow> lift_ok (lift_round l)"
  by (auto simp: lift_round_def Let_def lift_sweep.advance_ok lift_ok_load lift_ok_unload)

lemma uncounted_round [simp]: "uncounted (lift_round l) = uncounted l"
  by (simp add: lift_round_def Let_def lift_move_fields lift_load_fields lift_unload_fields)

lemma length_queues_load:
  assumes "lift_ok l"
  shows "length (concat (queues (lift_load l))) + length (boarders l) = length (concat (queues l))"
proof -
  let ?i = "nat (cabin_floor l - 1)"
  let ?s = "staying is_zombie (lift_room l) (infected l) (queues l ! ?i)"
  have "length (boarders l) + length ?s = length (queues l ! ?i)"
    unfolding boarders_def by (rule length_boarding_staying)
  then show ?thesis
    using length_concat_update [OF lift_ok_floor [OF assms], of ?s]
    unfolding lift_load_fields by linarith
qed

lemma lift_work_stop:
  assumes "lift_ok l"
  shows "lift_work (lift_stop_phase l) + length (boarders (lift_unload l)) + length (riders l)
    = lift_work l + length (riders (lift_unload l))"
  using length_queues_load [OF lift_ok_unload [OF assms]]
  by (simp add: lift_work_def lift_load_fields(4) lift_unload_fields(3) del: length_concat)

lemma round_work:
  assumes "lift_busy l"
  shows "lift_work (lift_round l) = lift_work (lift_stop_phase l)"
  using assms by (simp add: lift_round_def Let_def lift_work_def lift_move_fields)

lemma filter_shorter: "length (filter P xs) = length xs \<Longrightarrow> x \<in> set xs \<Longrightarrow> P x"
  by (metis length_filter_less less_irrefl)

lemma loud_round:
  assumes "lift_ok l" and "lift_busy l" and "\<not> quiet l"
  shows "lift_work (lift_round l) < lift_work l"
proof -
  have le: "length (riders (lift_unload l)) \<le> length (riders l)"
    by (simp add: lift_unload_fields)
  have "boarders (lift_unload l) \<noteq> [] \<or> length (riders (lift_unload l)) \<noteq> length (riders l)"
  proof (rule ccontr)
    assume n: "\<not> ?thesis"
    have "destination_floor p \<noteq> cabin_floor l" if p: "p \<in> set (riders l)" for p
      by (rule filter_shorter [OF _ p, where P = "\<lambda>p. destination_floor p \<noteq> cabin_floor l"])
        (use n in \<open>simp add: lift_unload_fields\<close>)
    with n assms(3) show False unfolding quiet_def by blast
  qed
  then show ?thesis
    using le lift_work_stop [OF assms(1)] round_work [OF assms(2)]
    by (cases "boarders (lift_unload l)") auto
qed

lemma quiet_round:
  assumes "lift_ok l" and "lift_busy l" and "quiet l"
  shows "riders (lift_round l) = riders l" and "queues (lift_round l) = queues l"
    and "cabin_floor (lift_round l) = cabin_next l"
    and "cabin_next (lift_round l) = turn (cabin_floor l) (cabin_next l)"
proof -
  let ?u = "lift_unload l" and ?i = "nat (cabin_floor l - 1)"
  have r: "riders ?u = riders l" using assms(3) by (simp add: quiet_def lift_unload_fields filter_id_conv)
  have b: "boarders ?u = []" using assms(3) by (simp add: quiet_def)
  have "boarding is_zombie (lift_room ?u) (infected ?u) (queues l ! ?i) = []"
    using b unfolding boarders_def lift_unload_fields .
  then have "queues (lift_load ?u) = (queues l)[?i := queues l ! ?i]"
    by (simp only: lift_load_fields lift_unload_fields staying_all)
  then have q: "queues (lift_load ?u) = queues l" by simp
  have rr: "riders (lift_load ?u) = riders l" using r b by (simp add: lift_load_fields)
  have "lift_round l = lift_move (lift_load ?u)"
    using assms(2) q rr by (auto simp: lift_round_def Let_def lift_busy_def)
  then show "riders (lift_round l) = riders l" "queues (lift_round l) = queues l"
    "cabin_floor (lift_round l) = cabin_next l"
    "cabin_next (lift_round l) = turn (cabin_floor l) (cabin_next l)"
    using q rr by (simp_all add: lift_move_fields lift_load_fields(1,2) lift_unload_fields(1,2))
qed

section \<open>Within 18 rounds something happens\<close>

lemma quiet_rounds:
  assumes "lift_ok l" and "lift_busy l" and "\<forall>j < k. quiet ((lift_round ^^ j) l)"
  shows "riders ((lift_round ^^ k) l) = riders l \<and> queues ((lift_round ^^ k) l) = queues l
    \<and> cabin_floor ((lift_round ^^ k) l) = cabin_floor ((lift_move ^^ k) l)
    \<and> cabin_next ((lift_round ^^ k) l) = cabin_next ((lift_move ^^ k) l)
    \<and> uncounted ((lift_round ^^ k) l) = uncounted l \<and> lift_ok ((lift_round ^^ k) l)"
  using assms(3)
proof (induction k)
  case 0
  then show ?case using assms(1) by simp
next
  case (Suc k)
  let ?l = "(lift_round ^^ k) l"
  have IH: "riders ?l = riders l" "queues ?l = queues l" "lift_ok ?l" "uncounted ?l = uncounted l"
    "cabin_floor ?l = cabin_floor ((lift_move ^^ k) l)" "cabin_next ?l = cabin_next ((lift_move ^^ k) l)"
    using Suc by auto
  have busy: "lift_busy ?l" using assms(2) IH(1,2) by (simp add: lift_busy_def)
  have "quiet ?l" using Suc.prems by simp
  from quiet_round [OF IH(3) busy this] show ?case
    using IH lift_ok_round [OF IH(3)] by (simp add: lift_move_fields)
qed

lemma loud_soon:
  assumes ok: "lift_ok l" and busy: "lift_busy l" and none: "uncounted l = 0"
  shows "\<exists>k < 18. \<not> quiet ((lift_round ^^ k) l)"
proof (rule ccontr)
  assume "\<not> (\<exists>k < 18. \<not> quiet ((lift_round ^^ k) l))"
  then have q: "quiet ((lift_round ^^ k) l)" if "k < 18" for k using that by blast
  have frame: "riders ((lift_round ^^ k) l) = riders l \<and> queues ((lift_round ^^ k) l) = queues l
    \<and> cabin_floor ((lift_round ^^ k) l) = cabin_floor ((lift_move ^^ k) l)
    \<and> uncounted ((lift_round ^^ k) l) = 0" if "k < 18" for k
    using quiet_rounds [OF ok busy, of k] q that none by simp
  show False
  proof (cases "riders l = []")
    case False
    then obtain p where p: "p \<in> set (riders l)" by (cases "riders l") auto
    then have "1 \<le> destination_floor p" "destination_floor p \<le> 10" using ok by (auto simp: lift_ok_def)
    then obtain k where k: "k < 18" "cabin_floor ((lift_move ^^ k) l) = destination_floor p"
      using lift_sweep.reaches_floor [OF ok] by blast
    then show False using q [OF k(1)] frame [OF k(1)] p by (auto simp: quiet_def)
  next
    case True
    then have "concat (queues l) \<noteq> []" using busy by (simp add: lift_busy_def)
    then obtain i where i: "i < length (queues l)" "queues l ! i \<noteq> []"
      by (auto simp: in_set_conv_nth)
    then have "i < 10" using ok by (simp add: lift_ok_def)
    then obtain k where k: "k < 18" "cabin_floor ((lift_move ^^ k) l) = int i + 1"
      using lift_sweep.reaches_floor [OF ok, of "int i + 1"] by auto
    let ?u = "lift_unload ((lift_round ^^ k) l)"
    have "riders ?u = []" "uncounted ?u = 0" "queues ?u ! nat (cabin_floor ?u - 1) = queues l ! i"
      using frame [OF k(1)] k(2) True by (simp_all add: lift_unload_fields)
    moreover from this have "\<not> infected ?u"
      using frame [OF k(1)] True by (simp add: lift_unload_def Let_def)
    ultimately have "boarders ?u = boarding is_zombie (Suc 9) False (queues l ! i)"
      by (simp add: boarders_def lift_room_def)
    then have "boarders ?u \<noteq> []" using boarding_progress i(2) by metis
    then show False using q [OF k(1)] by (simp add: quiet_def)
  qed
qed

lemma quiet_rounds_work:
  assumes "lift_ok l" and "lift_busy l" and "\<forall>j < k. quiet ((lift_round ^^ j) l)"
  shows "lift_work ((lift_round ^^ k) l) = lift_work l \<and> lift_busy ((lift_round ^^ k) l)
    \<and> lift_ok ((lift_round ^^ k) l)"
  using quiet_rounds [OF assms] assms(2) by (simp add: lift_work_def lift_busy_def)

lemma work_falls:
  assumes "lift_ok l" and "lift_busy l" and "uncounted l = 0"
  shows "\<exists>k \<le> 18. lift_work ((lift_round ^^ k) l) < lift_work l"
proof -
  define k where "k = (LEAST k. \<not> quiet ((lift_round ^^ k) l))"
  obtain k0 where k0: "k0 < 18" "\<not> quiet ((lift_round ^^ k0) l)" using loud_soon [OF assms] by blast
  have loud: "\<not> quiet ((lift_round ^^ k) l)" unfolding k_def using k0(2) by (rule LeastI)
  have le: "k \<le> k0" unfolding k_def using k0(2) by (rule Least_le)
  have "\<forall>j < k. quiet ((lift_round ^^ j) l)" unfolding k_def using not_less_Least by blast
  note same = quiet_rounds_work [OF assms(1,2) this]
  have "lift_work (lift_round ((lift_round ^^ k) l)) < lift_work ((lift_round ^^ k) l)"
    by (rule loud_round) (use same loud in simp_all)
  then have "lift_work ((lift_round ^^ Suc k) l) < lift_work l" using same by simp
  then show ?thesis using le k0(1) by (intro exI [of _ "Suc k"]) simp
qed

lemma rounds_ok: "lift_ok l \<Longrightarrow> lift_ok ((lift_round ^^ k) l) \<and> uncounted ((lift_round ^^ k) l) = uncounted l"
  by (induction k) (auto simp: lift_ok_round)

lemma lift_drains:
  "lift_ok l \<Longrightarrow> uncounted l = 0 \<Longrightarrow> \<exists>n \<le> 18 * lift_work l. \<not> lift_busy ((lift_round ^^ n) l)"
proof (induction "lift_work l" arbitrary: l rule: less_induct)
  case less
  show ?case
  proof (cases "lift_busy l")
    case False
    then show ?thesis by (intro exI [of _ 0]) simp
  next
    case True
    obtain k where k: "k \<le> 18" "lift_work ((lift_round ^^ k) l) < lift_work l"
      using work_falls [OF less.prems(1) True less.prems(2)] by blast
    let ?m = "(lift_round ^^ k) l"
    obtain n where n: "n \<le> 18 * lift_work ?m" "\<not> lift_busy ((lift_round ^^ n) ?m)"
      using less.hyps [OF k(2)] rounds_ok [OF less.prems(1)] less.prems(2) by auto
    have "(lift_round ^^ (n + k)) l = (lift_round ^^ n) ?m" by (simp add: funpow_add)
    moreover have "n + k \<le> 18 * lift_work l" using n(1) k by linarith
    ultimately show ?thesis using n(2) by metis
  qed
qed

end
