(* ===== verification/Refinement.thy ===== *)
theory Refinement
  imports Reachability LiftProgress
begin

text \<open>
  The code refines the specification's elevator: \<open>lift_of\<close> forgets addresses, locks, sleeps
  and derived counters, and every operation of the code commutes with it. Consequences: an
  undisturbed scheduler serves everybody, and after a stop with a full elevator it serves
  nobody ever again.
\<close>

section \<open>Abstraction\<close>

definition passenger_of :: "kstate \<Rightarrow> addr \<Rightarrow> passenger_data" where
  "passenger_of s a = the (heap s a)"

definition lift_of :: "kstate \<Rightarrow> lift" where
  "lift_of s =
     \<lparr>cabin_floor = current_floor (elevator s), cabin_next = next_floor (elevator s),
      riders = map (passenger_of s) (onboard (elevator s)),
      uncounted = nat (loads (elevator s) - int (length (onboard (elevator s)))),
      infected = (status (elevator s) = 1),
      queues = map (map (passenger_of s)) (waiting_list s),
      delivered = serviced s\<rparr>"

text \<open>What is left to do: each passenger waiting counts twice, each on board once.\<close>

definition work_left :: "kstate \<Rightarrow> nat" where
  "work_left s = 2 * length (concat (waiting_list s)) + length (onboard (elevator s))"

lemma lift_work_of: "lift_work (lift_of s) = work_left s"
  by (simp add: lift_work_def lift_of_def work_left_def flip: map_concat)

lemma wf_passenger:
  assumes "well_formed s" and "a \<in> set (linked s)"
  shows "heap s a = Some (passenger_of s a)" and "passenger_ok (passenger_of s a)"
proof -
  obtain p where "heap s a = Some p" by (rule linked_heap [OF wfD(1) [OF assms(1)] assms(2)])
  then show "heap s a = Some (passenger_of s a)" "passenger_ok (passenger_of s a)"
    using wfD(2) [OF assms(1)] by (auto simp: passenger_of_def heap_ok_def)
qed

lemma lift_ok_of:
  assumes "well_formed s"
  shows "lift_ok (lift_of s)"
proof -
  have d: "1 \<le> destination_floor (passenger_of s a) \<and> destination_floor (passenger_of s a) \<le> 10"
    if "a \<in> set (linked s)" for a
    using wf_passenger(2) [OF assms that] by (simp add: passenger_ok_def)
  have "length (onboard (elevator s)) + nat (loads (elevator s) - int (length (onboard (elevator s)))) \<le> 10"
    using wf_loads_range [OF assms] by linarith
  then show ?thesis
    using wfD(7) [OF assms] wf_position(4) [OF assms] d
    unfolding lift_ok_def lift_of_def position_ok_def linked_def by auto
qed

section \<open>Unloading and loading\<close>

lemma leaves_passenger:
  assumes "well_formed s" and "a \<in> set (linked s)"
  shows "leaves s a \<longleftrightarrow> destination_floor (passenger_of s a) = current_floor (elevator s)"
  using wf_passenger(1) [OF assms] by (simp add: leaves_def)

lemma zombie_passenger:
  assumes "well_formed s" and "a \<in> set (linked s)"
  shows "zombie_at s a \<longleftrightarrow> is_zombie (passenger_of s a)"
  using wf_passenger(1) [OF assms] by (simp add: zombie_at_def is_zombie_def)

lemma refines_unload:
  assumes w: "well_formed s"
  shows "lift_of (unloaded_state s) = lift_unload (lift_of s)"
proof -
  let ?on = "onboard (elevator s)" and ?t = "unloaded_state s"
  let ?out = "filter (leaves s) ?on" and ?in = "filter (\<lambda>a. \<not> leaves s a) ?on"
  have len: "length ?on = length ?out + length ?in" using length_partition [of "leaves s" ?on] by simp
  have lr: "int (length ?on) \<le> loads (elevator s)" using wf_loads_range [OF w] by simp
  have same: "passenger_of ?t a = passenger_of s a" if "a \<notin> set ?out" for a
    unfolding passenger_of_def unloaded_fields(6) [OF that] ..
  have on: "a \<in> set ?on \<Longrightarrow> a \<in> set (linked s)" for a by (simp add: linked_def)
  have "filter (\<lambda>p. destination_floor p \<noteq> current_floor (elevator s)) (map (passenger_of s) ?on)
      = map (passenger_of s) (filter (\<lambda>a. destination_floor (passenger_of s a) \<noteq> current_floor (elevator s)) ?on)"
    by (simp add: filter_map comp_def)
  also have "filter (\<lambda>a. destination_floor (passenger_of s a) \<noteq> current_floor (elevator s)) ?on = ?in"
    by (rule filter_cong) (use leaves_passenger [OF w on] in auto)
  finally have stay: "riders (lift_unload (lift_of s)) = map (passenger_of s) ?in"
    by (simp add: lift_unload_fields) (simp add: lift_of_def)
  have riders: "riders (lift_of ?t) = map (passenger_of s) ?in"
    by (simp add: lift_of_def unloaded_fields same)
  have queues: "queues (lift_of ?t) = queues (lift_of s)"
  proof -
    have "a \<notin> set ?out" if "q \<in> set (waiting_list s)" "a \<in> set q" for q a
      using wfD(1) [OF w] that by (auto simp: links_ok_def linked_def)
    then show ?thesis by (simp add: lift_of_def unloaded_fields same cong: map_cong)
  qed
  have un: "uncounted (lift_of ?t) = uncounted (lift_of s)"
    using len lr by (simp add: lift_of_def unloaded_state_def Let_def)
  have em: "loads (elevator s) - int (length ?out) = 0 \<longleftrightarrow> ?in = [] \<and> uncounted (lift_of s) = 0"
  proof -
    have "?in = [] \<longleftrightarrow> length ?in = 0" by (simp only: length_0_conv)
    moreover have "uncounted (lift_of s) = nat (loads (elevator s) - int (length ?on))"
      by (simp add: lift_of_def)
    ultimately show ?thesis using len lr by linarith
  qed
  have inf: "infected (lift_of ?t) = infected (lift_unload (lift_of s))"
  proof -
    have "infected (lift_unload (lift_of s)) \<longleftrightarrow> status (elevator s) = 1 \<and> \<not> (?in = [] \<and> uncounted (lift_of s) = 0)"
      using stay by (simp add: lift_unload_def Let_def) (simp add: lift_of_def)
    moreover have "infected (lift_of ?t) \<longleftrightarrow> status (elevator s) = 1 \<and> loads (elevator s) - int (length ?out) \<noteq> 0"
      by (simp add: lift_of_def unloaded_state_def Let_def)
    ultimately show ?thesis using em by blast
  qed
  have del: "delivered (lift_of ?t) = delivered (lift_unload (lift_of s))"
  proof -
    have "delivered (lift_unload (lift_of s)) =
        wrap32 (serviced s + (int (length ?on) - int (length (riders (lift_unload (lift_of s))))))"
      by (simp add: lift_unload_def Let_def) (simp add: lift_of_def)
    also have "\<dots> = wrap32 (serviced s + int (length ?out))" using len by (simp add: stay)
    finally show ?thesis by (simp add: lift_of_def unloaded_state_def Let_def)
  qed
  show ?thesis
  proof (rule lift.equality)
    show "riders (lift_of ?t) = riders (lift_unload (lift_of s))" by (simp only: riders stay)
    show "queues (lift_of ?t) = queues (lift_unload (lift_of s))"
      "uncounted (lift_of ?t) = uncounted (lift_unload (lift_of s))"
      by (simp_all only: queues un lift_unload_fields)
    show "cabin_floor (lift_of ?t) = cabin_floor (lift_unload (lift_of s))"
      "cabin_next (lift_of ?t) = cabin_next (lift_unload (lift_of s))"
      unfolding lift_unload_fields by (simp_all add: lift_of_def unloaded_fields)
  qed (simp_all add: inf del)
qed

lemma refines_load:
  assumes w: "well_formed s"
  shows "lift_of (loaded_state s) = lift_load (lift_of s)"
proof -
  let ?l = "lift_of s" and ?t = "loaded_state s" and ?q = "queue_here s"
  let ?i = "nat (current_floor (elevator s) - 1)" and ?z = "zombie_at s"
  let ?n = "nat (10 - loads (elevator s))" and ?sick = "status (elevator s) = 1"
  let ?b = "boarding ?z ?n ?sick ?q"
  note pos = wf_position [OF w]
  have q: "a \<in> set ?q \<Longrightarrow> a \<in> set (linked s)" for a
    using concat_nth_subset [of ?i "waiting_list s"] pos by (auto simp: linked_def simp del: set_concat)
  have z: "a \<in> set ?q \<Longrightarrow> ?z a = (is_zombie \<circ> passenger_of s) a" for a
    using zombie_passenger [OF w q] by simp
  have "10 - (k + nat (v - int k)) = nat (10 - v)" if "int k \<le> v" for k v using that by arith
  then have room: "lift_room ?l = ?n"
    using wf_loads_range [OF w] by (simp add: lift_room_def lift_of_def)
  have ql: "queues ?l ! nat (cabin_floor ?l - 1) = map (passenger_of s) ?q"
    using pos by (simp add: lift_of_def)
  have sick: "infected ?l = ?sick" by (simp add: lift_of_def)
  have bz: "boarding (is_zombie \<circ> passenger_of s) ?n ?sick ?q = ?b"
    by (rule boarding_cong) (simp add: z)
  have sz: "staying (is_zombie \<circ> passenger_of s) ?n ?sick ?q = staying ?z ?n ?sick ?q"
    by (rule staying_cong) (simp add: z)
  have b: "boarders ?l = map (passenger_of s) ?b"
    unfolding boarders_def room ql sick boarding_map bz ..
  have st: "staying is_zombie (lift_room ?l) (infected ?l) (queues ?l ! nat (cabin_floor ?l - 1))
      = map (passenger_of s) (filter (\<lambda>a. a \<notin> set ?b) ?q)"
    unfolding room ql sick staying_map staying_boarding [OF wf_queue_distinct [OF w pos(3)]] sz ..
  have h: "passenger_of ?t = passenger_of s" by (simp add: passenger_of_def loaded_fields fun_eq_iff)
  have "(\<exists>p \<in> set (boarders ?l). is_zombie p) \<longleftrightarrow> (\<exists>a \<in> set ?b. ?z a)"
    using z set_boarding [of ?z ?n ?sick ?q] unfolding b by auto
  then have inf: "infected (lift_of ?t) = infected (lift_load ?l)"
    by (simp add: lift_load_def Let_def boarders_def [symmetric])
      (simp add: lift_of_def loaded_state_def Let_def load_result_fields)
  show ?thesis
    by (rule lift.equality)
      (simp_all add: inf lift_load_fields st b,
       simp_all add: lift_of_def loaded_state_def Let_def load_result_fields h [unfolded loaded_state_def Let_def]
         map_update lift_load_def)
qed

section \<open>A whole round\<close>

lemma wrap32_zero: "wrap32 (int n) = 0 \<Longrightarrow> n < 4294967296 \<Longrightarrow> n = 0"
  using wrap32_cong_iff [of "int n" 0] by (simp add: wrap32_def)

lemma waiting_nonzero:
  assumes "well_formed s" and "length (concat (waiting_list s)) < 4294967296"
  shows "num_waiting s \<noteq> 0 \<longleftrightarrow> concat (waiting_list s) \<noteq> []"
proof -
  have n: "num_waiting s = wrap32 (int (length (concat (waiting_list s))))"
    using wfD(4) [OF assms(1)] by (simp add: counts_ok_def)
  have "num_waiting s = 0 \<longleftrightarrow> length (concat (waiting_list s)) = 0"
  proof
    assume "num_waiting s = 0"
    then show "length (concat (waiting_list s)) = 0" using wrap32_zero [OF _ assms(2)] n by metis
  next
    assume "length (concat (waiting_list s)) = 0"
    then have "num_waiting s = wrap32 (int 0)" using n by (simp only:)
    then show "num_waiting s = 0" by (simp add: wrap32_def)
  qed
  then show ?thesis by (simp only: length_0_conv)
qed

lemma queues_of: "concat (queues (lift_of s)) = map (passenger_of s) (concat (waiting_list s))"
  by (simp add: lift_of_def map_concat)

lemma lift_of_cong:
  assumes "heap t = heap s" and "waiting_list t = waiting_list s" and "serviced t = serviced s"
    and "onboard (elevator t) = onboard (elevator s)" and "loads (elevator t) = loads (elevator s)"
    and "status (elevator t) = status (elevator s)"
    and "current_floor (elevator t) = current_floor (elevator s)"
    and "next_floor (elevator t) = next_floor (elevator s)"
  shows "lift_of t = lift_of s"
proof -
  have "passenger_of t = passenger_of s" using assms(1) by (simp add: passenger_of_def fun_eq_iff)
  then show ?thesis using assms by (simp add: lift_of_def)
qed

definition moved :: "kstate \<Rightarrow> kstate" where
  "moved s = (let s' = ssleep MOVE_TIME (s\<lparr>elevator := changeElevatorState (elevator s)\<rparr>)
              in s'\<lparr>elevator := moveElevator (elevator s')\<rparr>)"

lemma refines_move:
  assumes "well_formed s"
  shows "lift_of (moved s) = lift_move (lift_of s)" and "well_formed (moved s)"
proof -
  let ?c = "changeElevatorState (elevator s)"
  have h: "headed ?c" by (rule headed_change [OF wfD(7) [OF assms]])
  have m: "moveElevator ?c = ?c\<lparr>current_floor := next_floor (elevator s),
      next_floor := turn (current_floor (elevator s)) (next_floor (elevator s))\<rparr>"
    using moveElevator_headed [OF h] by (simp add: changeElevatorState_frame)
  have p: "passenger_of (moved s) = passenger_of s"
    by (simp add: passenger_of_def moved_def Let_def fun_eq_iff)
  show "lift_of (moved s) = lift_move (lift_of s)"
    unfolding lift_of_def p
    by (simp add: moved_def Let_def m lift_move_def changeElevatorState_frame)
  show "well_formed (moved s)"
    unfolding moved_def Let_def by (rule wf_move [OF wf_change [OF assms]]) (simp add: h)
qed

lemma loads_zero:
  assumes "well_formed s"
  shows "loads (elevator s) = 0 \<longleftrightarrow> riders (lift_of s) = [] \<and> uncounted (lift_of s) = 0"
  using wf_loads_range [OF assms] by (auto simp: lift_of_def)

lemma loaded_full:
  assumes "well_formed s" and "\<not> loads (elevator s) < CAPACITY"
  shows "loaded_state s = s"
proof -
  have "nat (10 - loads (elevator s)) = 0" using assms(2) by simp
  then have b: "boards_here s (queue_here s) = []" by simp
  obtain W N where "waiting_on_floor s ! nat (current_floor (elevator s) - 1) = wrap32 W"
    "num_waiting s = wrap32 N"
    using wf_at_queue [OF assms(1)] unfolding at_queue_def by blast
  then show ?thesis
    unfolding loaded_state_def Let_def b by (intro load_result_Nil) simp_all
qed

text \<open>The state in which a round that found work leaves the elevator at its floor.\<close>

definition attended :: "kstate \<Rightarrow> kstate" where
  "attended s =
     (let t = loaded_state (unloaded_state s)
      in if filter (leaves s) (onboard (elevator s)) \<noteq> []
            \<or> boards_here (unloaded_state s) (queue_here (unloaded_state s)) \<noteq> []
         then ssleep LOAD_TIME (set_state LOADING t) else t)"

lemma wf_attended: "well_formed s \<Longrightarrow> well_formed (attended s)"
  by (simp add: attended_def Let_def wf_set_state wf_loaded wf_unloaded)

lemma refines_attended:
  assumes "well_formed s"
  shows "lift_of (attended s) = lift_load (lift_unload (lift_of s))"
proof -
  have "lift_of (attended s) = lift_of (loaded_state (unloaded_state s))"
    by (rule lift_of_cong) (simp_all add: attended_def Let_def)
  then show ?thesis by (simp add: refines_load [OF wf_unloaded] refines_unload assms)
qed

lemma scheduler_body_work:
  assumes "well_formed s" and "has_work s"
  shows "scheduler_body me 0 0 s = Inr
    (let t = attended s in
     if loads (elevator t) \<noteq> 0 \<or> num_waiting t \<noteq> 0 then moved t
     else if deactiving (elevator t) \<noteq> 0
          then t\<lparr>elevator := (elevator t)\<lparr>state := 0, deactiving := 0\<rparr>\<rparr> else t)"
proof -
  let ?u = "unloaded_state s"
  note u = wf_unloaded [OF assms(1)]
  have l: "(if loads (elevator ?u) < CAPACITY then loadPassengers me 0 ?u else Inr (0, ?u))
      = Inr (if boards_here ?u (queue_here ?u) = [] then 0 else 1 :: int, loaded_state ?u)"
  proof (cases "loads (elevator ?u) < CAPACITY")
    case True
    then show ?thesis using loadPassengers_eq [OF u, of me] by simp
  next
    case False
    moreover have "boards_here ?u (queue_here ?u) = []" using False by simp
    ultimately show ?thesis using loaded_full [OF u False] by simp
  qed
  have "scheduler_body me 0 0 s = rbind (Inr (if filter (leaves s) (onboard (elevator s)) = [] then 0 else 1 :: int, ?u))
      (\<lambda>(unload_sleep, s). rbind (if loads (elevator s) < CAPACITY then loadPassengers me 0 s else Inr (0, s))
          (\<lambda>(load_sleep, s).
             let s = (if unload_sleep \<noteq> 0 \<or> load_sleep \<noteq> 0
                      then ssleep LOAD_TIME (set_state LOADING s) else s)
             in if loads (elevator s) \<noteq> 0 \<or> num_waiting s \<noteq> 0 then Inr (moved s)
                else if deactiving (elevator s) \<noteq> 0 then
                  Inr (s\<lparr>elevator := (elevator s)\<lparr>state := 0, deactiving := 0\<rparr>\<rparr>)
                else Inr s))"
    unfolding scheduler_body_def unloadPassengers_eq [OF assms(1)] moved_def Let_def
    by (simp only: assms(2) if_True)
  also have "\<dots> = Inr (let t = attended s in
     if loads (elevator t) \<noteq> 0 \<or> num_waiting t \<noteq> 0 then moved t
     else if deactiving (elevator t) \<noteq> 0
          then t\<lparr>elevator := (elevator t)\<lparr>state := 0, deactiving := 0\<rparr>\<rparr> else t)"
    unfolding rbind.simps prod.case l 
    by (simp only: attended_def Let_def if_distrib [of Inr])
      (cases "filter (leaves s) (onboard (elevator s)) = []"; cases "boards_here ?u (queue_here ?u) = []"; simp)
  finally show ?thesis .
qed

lemma attended_waiting: "well_formed s \<Longrightarrow>
    length (concat (waiting_list (attended s))) \<le> length (concat (waiting_list s))"
  using length_queues_load [OF lift_ok_unload [OF lift_ok_of], of s] refines_attended [of s]
    arg_cong [OF queues_of [of "attended s"], of length] arg_cong [OF queues_of [of s], of length]
  by (simp add: lift_unload_fields del: length_concat)

text \<open>What the rounds of an undisturbed scheduler do.\<close>

lemma round_refines:
  assumes w: "well_formed s" and n: "length (concat (waiting_list s)) < 4294967296"
  shows "\<exists>s'. scheduler_body me 0 0 s = Inr s' \<and> well_formed s'
    \<and> lift_of s' = lift_round (lift_of s)
    \<and> length (concat (waiting_list s')) \<le> length (concat (waiting_list s))"
proof (cases "has_work s")
  case False
  then have "\<not> lift_busy (lift_of s)"
    using waiting_nonzero [OF w n] queues_of [of s]
    by (auto simp: has_work_def list_empty_def lift_busy_def lift_of_def)
  then have "lift_round (lift_of s) = lift_of s" by (simp add: lift_round_def)
  moreover have "lift_of (ssleep k (set_state v s)) = lift_of s" for k v
    by (rule lift_of_cong) simp_all
  ultimately show ?thesis using False by (auto simp: scheduler_body_def wf_set_state [OF w])
next
  case True
  let ?t = "attended s"
  have busy: "lift_busy (lift_of s)"
    using True waiting_nonzero [OF w n] queues_of [of s]
    by (auto simp: has_work_def list_empty_def lift_busy_def lift_of_def)
  note wt = wf_attended [OF w] and rt = refines_attended [OF w]
  have nt: "length (concat (waiting_list ?t)) < 4294967296" using attended_waiting [OF w] n by simp
  have go: "loads (elevator ?t) \<noteq> 0 \<or> num_waiting ?t \<noteq> 0 \<longleftrightarrow>
      riders (lift_of ?t) \<noteq> [] \<or> uncounted (lift_of ?t) \<noteq> 0 \<or> concat (queues (lift_of ?t)) \<noteq> []"
    using loads_zero [OF wt] waiting_nonzero [OF wt nt] queues_of [of ?t] by auto
  have off: "lift_of (?t\<lparr>elevator := (elevator ?t)\<lparr>state := 0, deactiving := 0\<rparr>\<rparr>) = lift_of ?t"
    by (rule lift_of_cong) simp_all
  have "waiting_list (moved ?t) = waiting_list ?t" by (simp add: moved_def Let_def)
  then show ?thesis
    using scheduler_body_work [OF w True, of me] go busy refines_move [OF wt] wf_offline [OF wt]
      off rt wt attended_waiting [OF w]
    by (simp add: lift_round_def Let_def del: length_concat)
qed

lemma rounds_refine:
  "well_formed s \<Longrightarrow> length (concat (waiting_list s)) < 4294967296 \<Longrightarrow>
   \<exists>s'. scheduler me (replicate n (0, 0)) s = Inr s' \<and> well_formed s'
     \<and> lift_of s' = (lift_round ^^ n) (lift_of s)
     \<and> length (concat (waiting_list s')) < 4294967296"
proof (induction n arbitrary: s)
  case 0
  then show ?case by simp
next
  case (Suc n)
  obtain t where t: "scheduler_body me 0 0 s = Inr t" "well_formed t" "lift_of t = lift_round (lift_of s)"
      "length (concat (waiting_list t)) \<le> length (concat (waiting_list s))"
    using round_refines [OF Suc.prems] by blast
  from t(4) Suc.prems(2) have "length (concat (waiting_list t)) < 4294967296" by simp
  from Suc.IH [OF t(2) this] t(1,3) show ?case
    by (simp add: funpow_swap1 res_simps del: length_concat)
qed

section \<open>The calls\<close>

lemma lift_of_requested:
  assumes "well_formed s" and "request_valid start dest type" and "heap s a = None"
  shows "lift_of (requested_state a start dest type s) =
    lift_request \<lparr>ptype = type, start_floor = start, destination_floor = dest\<rparr> (lift_of s)"
proof -
  let ?t = "requested_state a start dest type s" and ?i = "nat (start - 1)"
  have "a \<notin> set (linked s)" using wfD(1) [OF assms(1)] assms(3) by (auto simp: links_ok_def)
  then have same: "b \<in> set (linked s) \<Longrightarrow> passenger_of ?t b = passenger_of s b" for b
    by (auto simp: passenger_of_def requested_state_def Let_def)
  have new: "passenger_of ?t a = \<lparr>ptype = type, start_floor = start, destination_floor = dest\<rparr>"
    by (simp add: passenger_of_def requested_state_def Let_def)
  have i: "?i < length (waiting_list s)"
    using wf_position(4) [OF assms(1)] assms(2) by (auto simp: request_valid_def)
  have f: "waiting_list ?t = (waiting_list s)[?i := waiting_list s ! ?i @ [a]]"
      "serviced ?t = serviced s"
    by (simp_all add: requested_state_def Let_def)
  have on: "map (passenger_of ?t) (onboard (elevator s)) = map (passenger_of s) (onboard (elevator s))"
    using same by (simp add: linked_def)
  have q: "map (passenger_of ?t) q = map (passenger_of s) q" if "q \<in> set (waiting_list s)" for q
    using same that by (auto simp: linked_def)
  then have all: "map (map (passenger_of ?t)) (waiting_list s) = map (map (passenger_of s)) (waiting_list s)"
    by (rule map_cong [OF refl])
  show ?thesis
    unfolding lift_of_def lift_request_def Let_def f requested_state_elevator
    using i by (simp add: on map_update all q [OF nth_mem [OF i]] new del: map_eq_conv)
qed

lemma lift_of_offloaded:
  assumes "well_formed s"
  shows "lift_of (offloaded_state s) = lift_stop (lift_of s)"
proof -
  have "b \<notin> set (onboard (elevator s))" if "q \<in> set (waiting_list s)" "b \<in> set q" for q b
    using wfD(1) [OF assms] that by (auto simp: links_ok_def linked_def)
  then have "map (map (passenger_of (offloaded_state s))) (waiting_list s)
      = map (map (passenger_of s)) (waiting_list s)"
    by (simp add: passenger_of_def offloaded_state_def cong: map_cong)
  moreover have "nat (loads (elevator s)) = nat (loads (elevator s)
      - int (length (onboard (elevator s)))) + length (onboard (elevator s))"
    using wf_loads_range [OF assms] by linarith
  ultimately show ?thesis
    by (simp add: lift_of_def lift_stop_def) (simp add: offloaded_state_def)
qed

end
