(* ===== verification/Service.thy ===== *)
theory Service
  imports Refinement
begin

text \<open>
  What the elevator achieves over whole rounds when no call interferes, and what a stop
  changes about it. Every round keeps the balance of waiting, riding and delivered
  passengers, the specification's elevator runs dry, and the refinement carries both over to
  the code.
\<close>

section \<open>The balance of the specification's elevator\<close>

definition lift_balance :: "lift \<Rightarrow> int" where
  "lift_balance l = delivered l + int (length (riders l)) + int (length (concat (queues l)))"

lemma balance_unload: "lift_balance (lift_unload l) mod 4294967296 = lift_balance l mod 4294967296"
proof -
  have d: "delivered (lift_unload l) =
      wrap32 (delivered l + (int (length (riders l)) - int (length (riders (lift_unload l)))))"
    by (simp add: lift_unload_def Let_def)
  have "wrap32 (lift_balance (lift_unload l)) = wrap32 (lift_balance l)"
    unfolding lift_balance_def d lift_unload_fields(3) wrap32_add_left add.assoc by simp
  then show ?thesis by (simp only: wrap32_cong_iff)
qed

lemma balance_load: "lift_ok l \<Longrightarrow> lift_balance (lift_load l) = lift_balance l"
  using length_queues_load [of l] lift_load_fields(4) [of l]
  by (simp add: lift_balance_def lift_load_def Let_def del: length_concat)

lemma balance_move [simp]: "lift_balance (lift_move l) = lift_balance l"
  by (simp add: lift_balance_def lift_move_def)

lemma balance_round:
  "lift_ok l \<Longrightarrow> lift_balance (lift_round l) mod 4294967296 = lift_balance l mod 4294967296"
  using balance_load [OF lift_ok_unload [of l]] balance_unload [of l]
  by (simp add: lift_round_def Let_def)

lemma balance_rounds:
  "lift_ok l \<Longrightarrow> lift_balance ((lift_round ^^ n) l) mod 4294967296 = lift_balance l mod 4294967296"
  by (induction n) (simp_all add: balance_round rounds_ok)

lemma balance_of: "lift_balance (lift_of s) =
    serviced s + int (length (onboard (elevator s))) + int (length (concat (waiting_list s)))"
  using arg_cong [OF queues_of [of s], of length]
  by (simp add: lift_balance_def del: length_concat) (simp add: lift_of_def)

lemma idle_lift_of:
  "\<not> lift_busy (lift_of s) \<longleftrightarrow> onboard (elevator s) = [] \<and> concat (waiting_list s) = []"
  using queues_of [of s] by (auto simp: lift_busy_def lift_of_def)

section \<open>Everybody is served\<close>

text \<open>
  From any state that satisfies the invariant, in which no place is counted as
  taken by nobody, the undisturbed scheduler runs without a fault and within 18 rounds for
  each ride still to be made has fetched and delivered everybody: the lists and the heap are
  empty, \<open>serviced\<close> has grown by exactly the number of passengers there were, and the
  scheduler has no work left. Nothing in this needs the elevator to be started: those who
  wait when it is stopped are fetched as well.
\<close>

lemma everyone_served:
  assumes "well_formed s" and "loads (elevator s) = int (length (onboard (elevator s)))"
    and "length (concat (waiting_list s)) < 4294967296"
  shows "\<exists>n s'. n \<le> 18 * work_left s \<and> scheduler me (replicate n (0, 0)) s = Inr s'
     \<and> onboard (elevator s') = [] \<and> concat (waiting_list s') = [] \<and> heap s' = Map.empty
     \<and> \<not> has_work s'
     \<and> serviced s' = wrap32 (serviced s + int (length (onboard (elevator s)))
                              + int (length (concat (waiting_list s))))"
proof -
  have ok: "lift_ok (lift_of s)" by (rule lift_ok_of [OF assms(1)])
  have "uncounted (lift_of s) = 0" using assms(2) by (simp add: lift_of_def)
  then obtain n where n: "n \<le> 18 * work_left s" "\<not> lift_busy ((lift_round ^^ n) (lift_of s))"
    using lift_drains [OF ok] lift_work_of by auto
  obtain s' where s': "scheduler me (replicate n (0, 0)) s = Inr s'" "well_formed s'"
      "lift_of s' = (lift_round ^^ n) (lift_of s)" "length (concat (waiting_list s')) < 4294967296"
    using rounds_refine [OF assms(1,3)] by blast
  have e: "onboard (elevator s') = []" "concat (waiting_list s') = []"
    using n(2) idle_lift_of [of s'] s'(3) by auto
  have h: "heap s' = Map.empty"
    using wfD(1) [OF s'(2)] e by (simp add: links_ok_def linked_def dom_eq_empty_conv [symmetric] del: concat_eq_Nil_conv)
  have "\<not> has_work s'"
    using waiting_nonzero [OF s'(2,4)] e by (simp add: has_work_def list_empty_def)
  moreover have "serviced s' = wrap32 (serviced s + int (length (onboard (elevator s)))
      + int (length (concat (waiting_list s))))"
  proof -
    have "serviced s' = wrap32 (serviced s')"
      using wfD(4) [OF s'(2)] by (auto simp: counts_ok_def)
    also have "\<dots> = wrap32 (lift_balance (lift_of s'))" unfolding balance_of e by simp
    also have "\<dots> = wrap32 (lift_balance (lift_of s))"
      unfolding wrap32_cong_iff s'(3) by (rule balance_rounds [OF ok])
    finally show ?thesis by (simp only: balance_of)
  qed
  ultimately show ?thesis using n(1) s'(1) e h by blast
qed

section \<open>After a stop\<close>

text \<open>Nobody on board and every place counted as taken: a round only moves the cabin.\<close>

definition stuck :: "kstate \<Rightarrow> bool" where
  "stuck s \<longleftrightarrow> well_formed s \<and> onboard (elevator s) = [] \<and> loads (elevator s) = CAPACITY
     \<and> num_waiting s \<noteq> 0"

lemma unloaded_nobody:
  assumes "well_formed s" and "onboard (elevator s) = []" and "loads (elevator s) \<noteq> 0"
  shows "unloaded_state s = s"
proof -
  have "wrap32 (serviced s) = serviced s" using wfD(4) [OF assms(1)] by (auto simp: counts_ok_def)
  then show ?thesis
    using assms(2,3) by (intro kstate.equality) (simp_all add: unloaded_state_def Let_def restrict_map_def)
qed

lemma stuck_round:
  assumes "stuck s"
  shows "scheduler_body me 0 0 s = Inr (moved s)" and "stuck (moved s)"
    and "waiting_list (moved s) = waiting_list s" and "serviced (moved s) = serviced s"
proof -
  have w: "well_formed s" using assms by (simp add: stuck_def)
  have u: "unloaded_state s = s" using assms by (intro unloaded_nobody) (simp_all add: stuck_def)
  have "\<not> loads (elevator s) < CAPACITY" using assms by (simp add: stuck_def)
  then have "loaded_state s = s" "boards_here s (queue_here s) = []"
    using loaded_full [OF w] by simp_all
  then have a: "attended s = s" using assms u by (simp add: attended_def stuck_def)
  show "scheduler_body me 0 0 s = Inr (moved s)"
    using scheduler_body_work [OF w, of me] assms by (simp add: a has_work_def stuck_def)
  show "waiting_list (moved s) = waiting_list s" "serviced (moved s) = serviced s"
    by (simp_all add: moved_def Let_def)
  have "onboard (elevator (moved s)) = onboard (elevator s)
      \<and> loads (elevator (moved s)) = loads (elevator s) \<and> num_waiting (moved s) = num_waiting s"
    using moveElevator_frame [OF headed_change [OF wfD(7) [OF w]]]
    by (simp add: moved_def Let_def changeElevatorState_frame)
  then show "stuck (moved s)" using assms refines_move(2) [OF w] by (simp add: stuck_def)
qed

lemma stuck_rounds:
  "stuck s \<Longrightarrow> \<exists>t. scheduler me (replicate n (0, 0)) s = Inr t \<and> stuck t
     \<and> waiting_list t = waiting_list s \<and> serviced t = serviced s"
proof (induction n arbitrary: s)
  case 0
  then show ?case by simp
next
  case (Suc n)
  then show ?case
    using stuck_round [OF Suc.prems] Suc.IH [of "moved s"] by (simp add: res_simps)
qed

text \<open>
  C10. A stop with a full elevator ends all service: \<open>stop_elevator\<close> takes the passengers off
  and frees them but leaves \<open>loads\<close> at \<open>CAPACITY\<close>, so that afterwards, however long the
  scheduler runs, nobody is loaded, nobody is served, and the queues stay as they were.
\<close>

theorem stop_when_full_strands_the_waiting:
  assumes "well_formed s" and "started (elevator s) \<noteq> 0" and "deactiving (elevator s) = 0"
    and "loads (elevator s) = CAPACITY" and "num_waiting s \<noteq> 0"
  shows "\<exists>s1. stop_elevator me 0 s = Inr (0, s1) \<and>
     (\<forall>n. \<exists>t. scheduler 0 (replicate n (0, 0)) s1 = Inr t \<and> onboard (elevator t) = []
        \<and> waiting_list t = waiting_list s \<and> serviced t = serviced s \<and> has_work t)"
proof -
  let ?s1 = "stopped_state s"
  have "stuck ?s1"
    using wf_stopped [OF assms(1)] assms(4,5) by (simp add: stuck_def) (simp add: stopped_defs)
  then have "\<exists>t. scheduler 0 (replicate n (0, 0)) ?s1 = Inr t \<and> onboard (elevator t) = []
        \<and> waiting_list t = waiting_list s \<and> serviced t = serviced s \<and> has_work t" for n
    using stuck_rounds [of ?s1 0 n] by (auto simp: stuck_def has_work_def) (auto simp: stopped_defs)
  then show ?thesis using stop_elevator_eq [OF assms(1-3)] by blast
qed

definition demo_full :: kstate where
  "demo_full =
     \<lparr>elevator = \<lparr>state = 2, current_floor = 1, next_floor = 2, loads = 10, deactiving = 0,
        started = 1, status = 0, onboard = [0, 1, 2, 3, 4, 5, 6, 7, 8, 9]\<rparr>,
      thread1 = \<lparr>thread_id = 1, cnt = 0, kthread = Task 0, mutex = None, mutex_ready = True\<rparr>,
      waiting_list = [[10], [], [], [], [], [], [], [], [], []], serviced = 0, num_waiting = 1,
      waiting_on_floor = [1, 0, 0, 0, 0, 0, 0, 0, 0, 0],
      heap = (\<lambda>a. if a \<in> {0, 1, 2, 3, 4, 5, 6, 7, 8, 9, 10} then Some \<lparr>ptype = 0, start_floor = 1, destination_floor = 5\<rparr> else None),
      clock = 1\<rparr>"

lemma all_below_10: "(\<forall>i < (10 :: nat). P i) \<longleftrightarrow>
    P 0 \<and> P 1 \<and> P 2 \<and> P 3 \<and> P 4 \<and> P 5 \<and> P 6 \<and> P 7 \<and> P 8 \<and> P 9"
  by (simp add: numeral_eq_Suc less_Suc_eq all_conj_distrib)

lemma wf_demo_full: "well_formed demo_full"
proof -
  have d: "set (linked demo_full) = dom (heap demo_full)"
    by (auto simp: linked_def demo_full_def dom_def)
  have "links_ok demo_full" using d by (simp add: links_ok_def) (simp add: linked_def demo_full_def)
  moreover have "queues_ok demo_full" "counts_ok demo_full"
    unfolding queues_ok_def counts_ok_def by (simp_all add: all_below_10 demo_full_def wrap32_def)
      (auto intro!: exI [of _ 0])
  ultimately show ?thesis
    by (simp add: well_formed_def)
      (simp add: demo_full_def heap_ok_def loads_ok_def infection_ok_def zombie_at_def position_ok_def
        flags_ok_def passenger_ok_def split: if_splits)
qed

theorem stop_when_full_strands_the_waiting_witness:
  "\<exists>s1. stop_elevator 5 0 demo_full = Inr (0, s1) \<and>
     (\<forall>n. \<exists>t. scheduler 0 (replicate n (0, 0)) s1 = Inr t \<and> onboard (elevator t) = []
        \<and> waiting_list t = [[10], [], [], [], [], [], [], [], [], []] \<and> serviced t = 0 \<and> has_work t)"
  using stop_when_full_strands_the_waiting [OF wf_demo_full, of 5] by (simp add: demo_full_def)

section \<open>Places that nobody will ever take\<close>

definition lost_places :: "sys \<Rightarrow> int" where
  "lost_places x = loads (elevator (globals x)) - int (length (onboard (elevator (globals x))))"

lemma kstep_lost:
  assumes "kstep (pc, c, s) e (pc', c', s')" and "sys_ok (pc, c, s)"
  shows "lost_places (pc', c', s') = lost_places (pc, c, s)
    + (case e of Continue me lk km r \<Rightarrow> if c me = StopLock then int (length (onboard (elevator s))) else 0
       | _ \<Rightarrow> 0)"
  using assms
proof (cases rule: kstep_cases)
  case (unloads lk u)
  then show ?thesis
    using length_partition [of "leaves s" "onboard (elevator s)"]
    by (simp add: lost_places_def unloaded_state_def Let_def)
next
  case (loads lk u l)
  then show ?thesis by (simp add: lost_places_def loaded_state_def Let_def load_result_fields)
next
  case else
  then show ?thesis by (cases e) (auto simp: lost_places_def same_passengers_def)
qed (simp_all add: lost_places_def offloaded_state_def)

text \<open>What a step has lost once stays lost, whatever else happens.\<close>

interpretation lost: machine kstep "\<lambda>x. sys_ok x \<and> k \<le> lost_places x" for k
proof unfold_locales
  fix x e y
  assume st: "kstep x e y" and i: "sys_ok x \<and> k \<le> lost_places x"
  obtain pc c s pc' c' s' where xy: "x = (pc, c, s)" "y = (pc', c', s')" by (cases x, cases y)
  have "lost_places x \<le> lost_places y"
    using kstep_lost [OF st [unfolded xy]] i unfolding xy by (simp split: kevent.split if_split)
  then show "sys_ok y \<and> k \<le> lost_places y" using kstep_sys_ok [OF st] i by simp
qed

text \<open>
  C15. Capacity lost for good: after a stop has taken passengers off, and whatever the scheduler
  and the callers do afterwards, a new start included, the elevator never again carries more
  than \<open>CAPACITY\<close> less the number of passengers it had on board at that stop.
\<close>

theorem stop_costs_capacity:
  assumes "steps kstep booted es (pc, c, s)" and "c me = StopLock"
    and "kstep (pc, c, s) (Continue me lk km r) x" and "steps kstep x fs (pc', c', s')"
  shows "int (length (onboard (elevator s'))) + int (length (onboard (elevator s))) \<le> CAPACITY"
proof -
  let ?k = "int (length (onboard (elevator s)))"
  have ok: "sys_ok (pc, c, s)" by (rule reachable_ok [OF assms(1)])
  then have "0 \<le> lost_places (pc, c, s)"
    using wf_loads_range by (simp add: sys_ok_def lost_places_def)
  moreover obtain pc1 c1 s1 where x: "x = (pc1, c1, s1)" by (cases x)
  ultimately have "?k \<le> lost_places x"
    using kstep_lost [OF assms(3) [unfolded x] ok] assms(2) by simp
  then have "sys_ok (pc', c', s') \<and> ?k \<le> lost_places (pc', c', s')"
    using lost.run_inv [OF assms(4)] kstep_sys_ok [OF assms(3) ok] by blast
  then show ?thesis using wf_loads_range [of s'] by (simp add: sys_ok_def lost_places_def)
qed

theorem stop_costs_capacity_witness:
  "int (length (onboard (elevator (offloaded_state demo_stopping)))) + 1 \<le> CAPACITY"
proof -
  have "length (onboard (elevator demo_stopping)) = 1" by (simp add: demo_stopping_def demo_riding_fields)
  then show ?thesis using stop_costs_capacity [OF demo_stop_run _ demo_offload steps_nil] by simp
qed

section \<open>Signals\<close>

text \<open>
  A signal breaks the locking: wherever the code takes the mutex and the call is
  interrupted, the \<open>mutex_unlock\<close> that stands after the \<open>if\<close> releases a mutex this thread
  does not hold. This holds for a request, a stop, a round of the scheduler that has work and
  the removal at module exit alike.
\<close>

lemma interrupted_lock_is_unlocked:
  assumes "well_formed s" and "lk \<noteq> 0"
  shows "(started (elevator s) \<noteq> 0 \<and> deactiving (elevator s) = 0 \<longrightarrow>
          stop_elevator me lk s = Inl UnlockNotOwner)
    \<and> (started (elevator s) \<noteq> 0 \<and> request_valid start dest type \<longrightarrow>
          issue_request me lk km start dest type s = Inl UnlockNotOwner)
    \<and> (has_work s \<longrightarrow> scheduler_body me lk ll s = Inl UnlockNotOwner)
    \<and> removeAllPassengers me lk s = Inl UnlockNotOwner"
  using assms
  by (simp add: stop_elevator_interrupted issue_request_interrupted scheduler_body_def res_simps
      unloadPassengers_interrupted removeAllPassengers_result)

lemma interrupted_lock_is_unlocked_witness:
  "stop_elevator 5 (- 4) demo_full = Inl UnlockNotOwner
    \<and> issue_request 5 (- 4) (Some 11) 3 4 0 demo_full = Inl UnlockNotOwner
    \<and> scheduler_body 0 (- 4) 0 demo_full = Inl UnlockNotOwner
    \<and> removeAllPassengers 5 (- 4) demo_full = Inl UnlockNotOwner"
proof -
  have s: "started (elevator demo_full) \<noteq> 0" "deactiving (elevator demo_full) = 0" "has_work demo_full" "request_valid 3 4 0"
    by (simp_all add: demo_full_def has_work_def request_valid_def)
  show ?thesis
    using interrupted_lock_is_unlocked [OF wf_demo_full, of "- 4" 5 3 4 0 "Some 11" 0]
      interrupted_lock_is_unlocked [OF wf_demo_full, of "- 4" 0 3 4 0 "Some 11" 0] s by simp
qed

end
