(* ===== verification/Contracts.thy ===== *)
theory Contracts
  imports Service "HOL-Library.Sublist"
begin

text \<open>
  The contract of each operation, written out over the lists and counters of the code, and
  the refinement of the specification's elevator by the code's rounds and calls.
\<close>

section \<open>Unloading and loading\<close>

text \<open>
  Unloading: exactly those on board whose destination is the current floor get off, the
  others stay in order, each one who leaves is freed and counted in \<open>serviced\<close>, \<open>loads\<close> falls
  by their number, an elevator with \<open>loads\<close> 0 becomes uninfected, and the result says whether
  anybody left.
\<close>

lemma unload_contract:
  assumes "well_formed s"
  shows "\<exists>r s'. unloadPassengers me 0 s = Inr (r, s') \<and> well_formed s'
    \<and> (let out = filter (leaves s) (onboard (elevator s)) in
        (r = 0 \<longleftrightarrow> out = [])
        \<and> onboard (elevator s') = filter (\<lambda>a. \<not> leaves s a) (onboard (elevator s))
        \<and> dom (heap s') = dom (heap s) - set out
        \<and> loads (elevator s') = loads (elevator s) - int (length out)
        \<and> serviced s' = wrap32 (serviced s + int (length out))
        \<and> status (elevator s') = (if loads (elevator s') = 0 then 0 else status (elevator s))
        \<and> waiting_list s' = waiting_list s \<and> clock s' = clock s)"
  using wf_unloaded [OF assms]
  by (simp add: unloadPassengers_eq [OF assms] unloaded_state_def Let_def) auto

lemma unload_contract_witness:
  "\<exists>r s'. unloadPassengers 0 0 demo_full = Inr (r, s') \<and> r = 0 \<and> serviced s' = 0"
proof -
  have "filter (leaves demo_full) (onboard (elevator demo_full)) = []"
    by (simp add: demo_full_def leaves_def)
  then show ?thesis
    using unload_contract [OF wf_demo_full, of 0] by (auto simp: Let_def demo_full_def wrap32_def)
qed

text \<open>
  C11. Loading: the queue of the current floor is boarded in order, as long as there is room,
  by the humans ahead of the first zombie and then every zombie, or by the zombies alone when
  the elevator is infected; the rest keep their order; \<open>loads\<close>, \<open>num_waiting\<close> and the floor's
  counter follow; and the elevator is infected as soon as a zombie is on board.
\<close>

theorem load_contract:
  assumes "well_formed s"
  shows "\<exists>r s'. loadPassengers me 0 s = Inr (r, s') \<and> well_formed s'
    \<and> (let i = nat (current_floor (elevator s) - 1); q = waiting_list s ! i; z = zombie_at s;
           b = take (nat (CAPACITY - loads (elevator s)))
                 (if status (elevator s) = 1 then filter z q
                  else takeWhile (\<lambda>a. \<not> z a) q @ filter z q) in
        (r = 0 \<longleftrightarrow> b = [])
        \<and> onboard (elevator s') = onboard (elevator s) @ b
        \<and> waiting_list s' = (waiting_list s)[i := filter (\<lambda>a. a \<notin> set b) q]
        \<and> loads (elevator s') = loads (elevator s) + int (length b)
        \<and> num_waiting s' = wrap32 (num_waiting s - int (length b))
        \<and> waiting_on_floor s' = (waiting_on_floor s)[i := wrap32 (waiting_on_floor s ! i - int (length b))]
        \<and> status (elevator s') = (if \<exists>a \<in> set b. z a then 1 else status (elevator s))
        \<and> heap s' = heap s \<and> serviced s' = serviced s)"
proof -
  let ?s' = "loaded_state s"
  have "loadPassengers me 0 s = Inr (if boards_here s (queue_here s) = [] then 0 else 1, ?s')"
    by (rule loadPassengers_eq [OF assms])
  moreover have "serviced ?s' = serviced s" by (simp add: loaded_state_def Let_def load_result_def)
  ultimately show ?thesis
    using wf_loaded [OF assms]
    by (simp add: Let_def loaded_state_def load_result_fields boarding_def candidates_def)
qed

theorem load_contract_witness:
  "\<exists>r s'. loadPassengers 0 0 demo_waiting = Inr (r, s') \<and> onboard (elevator s') = [7]
     \<and> status (elevator s') = 1"
proof -
  show ?thesis
    using load_contract [OF wf_demo_waiting, of 0] by (auto simp: Let_def demo_waiting_eq zombie_at_def)
qed

text \<open>
  First come, first served: among the zombies of a floor, and likewise among its humans,
  those who board are an initial segment of the queue. Nobody is overtaken by a passenger of
  the same kind.
\<close>

lemma boarding_is_fifo:
  assumes "well_formed s"
  shows "\<exists>r s' b. loadPassengers me 0 s = Inr (r, s') \<and> onboard (elevator s') = onboard (elevator s) @ b
    \<and> prefix (filter (zombie_at s) b) (filter (zombie_at s) (queue_here s))
    \<and> prefix (filter (\<lambda>a. \<not> zombie_at s a) b) (filter (\<lambda>a. \<not> zombie_at s a) (queue_here s))"
proof -
  have "prefix (filter z (boarding z n sick q)) (filter z q)
      \<and> prefix (filter (\<lambda>a. \<not> z a) (boarding z n sick q)) (filter (\<lambda>a. \<not> z a) q)"
    for z n sick and q :: "addr list"
  proof (induction z n sick q rule: staying.induct)
    case (3 z n sick x q)
    have "filter (\<lambda>a. \<not> z a) (boarding z (Suc n) True q) = []"
      by (auto simp: filter_empty_conv dest: boarding_infected_zombies)
    then show ?case using 3 by (auto simp: boarding_Cons)
  qed simp_all
  then show ?thesis
    using loadPassengers_eq [OF assms, of me] by (auto simp: loaded_fields)
qed

lemma boarding_is_fifo_witness:
  "\<exists>r s' b. loadPassengers 0 0 demo_waiting = Inr (r, s') \<and> onboard (elevator s') = b
    \<and> prefix (filter (zombie_at demo_waiting) b) [7]"
proof -
  have "filter (zombie_at demo_waiting) (queue_here demo_waiting) = [7]"
    "onboard (elevator demo_waiting) = []" by (simp_all add: demo_waiting_eq zombie_at_def)
  then show ?thesis using boarding_is_fifo [OF wf_demo_waiting, of 0] by (auto simp del: filter.simps)
qed

text \<open>
  How a passenger gets on: in every interleaving, one who is on board after a step and not
  before it was in the queue of the current floor, was loaded by the scheduler, and is a
  zombie if the elevator was infected.
\<close>

lemma gets_on_from_queue:
  assumes "steps kstep booted es (pc, c, s)" and "kstep (pc, c, s) e (pc', c', s')"
    and "a \<notin> set (onboard (elevator s))" and "a \<in> set (onboard (elevator s'))"
  shows "(\<exists>lk u. e = Sched lk \<and> pc = AtLoad u)
    \<and> a \<in> set (waiting_list s ! nat (current_floor (elevator s) - 1))
    \<and> loads (elevator s) < CAPACITY \<and> (status (elevator s) = 1 \<longrightarrow> zombie_at s a)"
  using assms(2) reachable_ok [OF assms(1)]
proof (cases rule: kstep_cases)
  case (loads lk u l)
  then have "a \<in> set (boards_here s (queue_here s))"
    using assms(3,4) by (simp add: loaded_fields)
  moreover from this have "a \<in> set (queue_here s)" using set_boarding by (rule subsetD [rotated])
  ultimately show ?thesis
    using loads boarding_infected_zombies [of a "zombie_at s"] by auto
qed (use assms(3,4) in \<open>auto simp: unloaded_fields same_passengers_def offloaded_state_def\<close>)

lemma gets_on_from_queue_witness:
  "(\<exists>lk u. Sched 0 = Sched lk \<and> AtLoad 0 = AtLoad u) \<and> 7 \<in> set (waiting_list demo_waiting ! 0)
     \<and> loads (elevator demo_waiting) < CAPACITY"
proof -
  have st: "steps kstep booted (demo_events @ [Sched 0, Sched 0]) (AtLoad 0, nobody, unloaded_state demo_waiting)"
    by (rule steps_append [OF demo_request demo_to_load])
  from gets_on_from_queue [OF st demo_load_step, of 7] show ?thesis
    by (simp add: demo_unloaded demo_riding_fields) (simp add: demo_waiting_eq)
qed

section \<open>The system calls\<close>





section \<open>Segments and the whole\<close>

text \<open>
  The segments are the program: running the segments of one round after another, with no
  call in between, is one round of the scheduler's loop, and running the segments of a start, a
  request or a stop with nothing in between is that call; on every state and for every result
  of the lock calls and of \<open>kmalloc\<close>, faults included.
\<close>

lemma segments_make_a_round:
  "run_segments 7 me (\<lambda>pc. if pc = AtUnload then lu else ll) AtTop s =
     rbind (scheduler_body me lu ll s) (\<lambda>s'. Inr (AtTop, s'))
   \<and> run_call 4 me lk km (enter_call StartCall s) s =
     (case start_elevator s of (r, s') \<Rightarrow> Inr (Some r, s'))
   \<and> run_call 4 me lk km (enter_call (RequestCall start dest type) s) s =
     rbind (issue_request me lk km start dest type s) (\<lambda>(r, s'). Inr (Some r, s'))
   \<and> run_call 4 me lk km (enter_call StopCall s) s =
     rbind (stop_elevator me lk s) (\<lambda>(r, s'). Inr (Some r, s'))"
  by (simp only: run_segments_eq run_start_eq run_request_eq run_stop_eq split_beta simp_thms)

text \<open>
  The cabin comes past everybody: from any position inside the building and for every
  floor, fewer than 18 of the scheduler's moves bring the cabin to it, and 18 moves bring it
  back to where it was.
\<close>

lemma every_floor_within_18_moves:
  assumes "position_ok e" and "1 \<le> f" and "f \<le> FLOORS"
  shows "(\<exists>k < 18. current_floor (((\<lambda>e. moveElevator (changeElevatorState e)) ^^ k) e) = f)
    \<and> current_floor (((\<lambda>e. moveElevator (changeElevatorState e)) ^^ 18) e) = current_floor e"
proof -
  have "(\<lambda>e. moveElevator (changeElevatorState e)) = sweep_move" by (simp add: sweep_move_def fun_eq_iff)
  then show ?thesis using cabin.reaches_floor [of e f] cabin.period [of e] assms by simp
qed

lemma every_floor_within_18_moves_witness:
  "\<exists>k < 18. current_floor (((\<lambda>e. moveElevator (changeElevatorState e)) ^^ k) (elevator demo_full)) = 7"
  using every_floor_within_18_moves [OF wfD(7) [OF wf_demo_full], of 7] by simp

text \<open>
  C6. Refinement of a round: with fewer than 2^32 passengers waiting, a round of the scheduler
  that is not disturbed runs without a fault, keeps the invariant, and does to the passengers
  exactly what a round of the specification's elevator does: unload, board in queue order, and
  move if there is work left.
\<close>

theorem round_refines_specification:
  assumes "well_formed s" and "length (concat (waiting_list s)) < 4294967296"
  shows "\<exists>s'. scheduler_body me 0 0 s = Inr s' \<and> well_formed s' \<and> lift_of s' = lift_round (lift_of s)"
  using round_refines [OF assms] by blast

theorem round_refines_specification_witness:
  "\<exists>s'. scheduler_body 0 0 0 demo_waiting = Inr s' \<and> lift_of s' = lift_round (lift_of demo_waiting)"
  using round_refines_specification [OF wf_demo_waiting, of 0] by (auto simp: demo_waiting_eq)

text \<open>
  Refinement of the calls: an accepted request is the specification's request, a stop is
  the specification's stop, which turns the places of those it takes off into places counted
  as taken by nobody, and a start changes nothing that concerns the passengers.
\<close>

lemma calls_refine_specification:
  assumes "well_formed s" and "started (elevator s) \<noteq> 0" and "deactiving (elevator s) = 0"
    and "request_valid start dest type" and "heap s a = None"
  shows "(\<exists>s'. issue_request me 0 (Some a) start dest type s = Inr (0, s') \<and> lift_of s' =
            lift_request \<lparr>ptype = type, start_floor = start, destination_floor = dest\<rparr> (lift_of s))
    \<and> (\<exists>s'. stop_elevator me 0 s = Inr (0, s') \<and> lift_of s' = lift_stop (lift_of s))
    \<and> lift_of (snd (start_elevator s)) = lift_of s"
proof -
  let ?t = "s\<lparr>elevator := (elevator s)\<lparr>deactiving := 1, started := 0\<rparr>\<rparr>"
  have "lift_of ?t = lift_of s" by (rule lift_of_cong) simp_all
  then have "lift_of (stopped_state s) = lift_stop (lift_of s)"
    using lift_of_offloaded [OF wf_stop_flags [OF assms(1)]] by (simp add: stopped_state_def)
  moreover have "lift_of (snd (start_elevator s)) = lift_of s"
    by (rule lift_of_cong) (simp_all add: start_elevator_def)
  ultimately show ?thesis
    using issue_request_accepted [OF assms(1-4), of me a] stop_elevator_eq [OF assms(1-3), of me]
      lift_of_requested [OF assms(1,4,5)] by simp
qed

lemma calls_refine_specification_witness:
  "\<exists>s'. stop_elevator 5 0 demo_full = Inr (0, s') \<and> lift_of s' = lift_stop (lift_of demo_full)"
proof -
  have "started (elevator demo_full) \<noteq> 0" "deactiving (elevator demo_full) = 0"
    "request_valid 1 2 0" "heap demo_full 11 = None"
    by (simp_all add: demo_full_def request_valid_def)
  from calls_refine_specification [OF wf_demo_full this, of 5] show ?thesis by blast
qed

text \<open>
  No busy waiting, and bounded rounds: every undisturbed round of the scheduler sleeps for
  at least one second and at most three.
\<close>

lemma round_takes_one_to_three_seconds:
  assumes "well_formed s"
  shows "\<exists>s'. scheduler_body me 0 0 s = Inr s' \<and> clock s + 1 \<le> clock s' \<and> clock s' \<le> clock s + 3"
proof (cases "has_work s")
  case False
  then show ?thesis by (auto simp: scheduler_body_def ssleep_def set_state_def)
next
  case True
  let ?t = "attended s" and ?u = "unloaded_state s"
  have c: "clock (loaded_state ?u) = clock s"
    by (simp add: loaded_state_def load_result_def unloaded_state_def Let_def)
  then have t: "clock s \<le> clock ?t" "clock ?t \<le> clock s + 1"
    by (auto simp: attended_def Let_def ssleep_def set_state_def)
  have m: "clock (moved ?t) = clock ?t + 2" by (simp add: moved_def Let_def ssleep_def)
  have rest: "clock ?t = clock s + 1" if idle: "loads (elevator ?t) = 0" "num_waiting ?t = 0"
  proof (rule ccontr)
    assume "clock ?t \<noteq> clock s + 1"
    then have n: "filter (leaves s) (onboard (elevator s)) = []" "boards_here ?u (queue_here ?u) = []"
      using c by (auto simp: attended_def Let_def ssleep_def set_state_def split: if_splits)
    then have "?t = loaded_state ?u" by (simp add: attended_def Let_def)
    then have "loads (elevator s) = 0 \<and> num_waiting s = 0"
      using idle n wfD(4) [OF assms]
      by (auto simp: loaded_state_def Let_def load_result_fields unloaded_state_def counts_ok_def
          simp del: length_concat)
    then show False
      using True wf_loads_range [OF assms] by (auto simp: has_work_def list_empty_def)
  qed
  show ?thesis
    using scheduler_body_work [OF assms True, of me] t m rest by (auto simp: Let_def)
qed

lemma round_takes_one_to_three_seconds_witness:
  "\<exists>s'. scheduler_body 0 0 0 demo_full = Inr s' \<and> 2 \<le> clock s' \<and> clock s' \<le> 4"
  using round_takes_one_to_three_seconds [OF wf_demo_full, of 0] by (auto simp: demo_full_def)

end
