(* ===== verification/ThreadRecord.thy ===== *)
theory ThreadRecord
  imports Scheduler
begin

text \<open>
  \<open>struct thread_parameter thread1\<close> after its initialisation: no operation of the module writes any
  member of it but the mutex, whatever state it runs in.
\<close>

section \<open>Loops\<close>

lemma for_each_safe_keeps:
  assumes "\<And>x a b. body x a = Inr b \<Longrightarrow> g b = g a"
  shows "for_each_safe body xs a = Inr b \<Longrightarrow> g b = g a"
proof (induction xs arbitrary: a)
  case (Cons x xs)
  then obtain c where "body x a = Inr c" "for_each_safe body xs c = Inr b"
    by (auto simp: rbind_eq_Inr)
  then show ?case using Cons.IH assms by metis
qed simp

section \<open>The record without the owner of its mutex\<close>

definition parameters :: "kstate \<Rightarrow> thread_parameter" where
  "parameters s = (thread1 s)\<lparr>mutex := None\<rparr>"

lemma parameters_cong: "thread1 s' = thread1 s \<Longrightarrow> parameters s' = parameters s"
  by (simp add: parameters_def)

lemma parameters_mutex [simp]: "parameters (set_mutex m s) = parameters s"
  by (simp add: parameters_def set_mutex_def)

lemma parameters_ready: "parameters s' = parameters s \<Longrightarrow> mutex_ready (thread1 s') = mutex_ready (thread1 s)"
  unfolding parameters_def by (metis thread_parameter.select_convs(5) thread_parameter.surjective
      thread_parameter.update_convs(4))

lemma region_keeps:
  assumes "\<And>s l s' l'. body (s, l) = Inr (s', l') \<Longrightarrow> thread1 s' = thread1 s"
    and "locked_region me lk body (s, l) = Inr (s', l')"
  shows "parameters s' = parameters s"
  using assms(2) parameters_cong [OF assms(1)]
  by (auto simp: locked_region_def Let_def rbind_eq_Inr split: if_splits)

section \<open>The operations\<close>

lemma unload_visit_keeps: "unload_visit a (s, l) = Inr b \<Longrightarrow> thread1 (fst b) = thread1 s"
  by (cases l) (auto simp: unload_visit_def rbind_eq_Inr split: if_splits)

lemma take_aboard_keeps: "take_aboard f a p s = Inr t \<Longrightarrow> thread1 t = thread1 s"
  by (auto simp: take_aboard_def rbind_eq_Inr)

lemma load_visit_keeps: "load_visit f a (s, l) = Inr b \<Longrightarrow> thread1 (fst b) = thread1 s"
  by (auto simp: load_visit_def rbind_eq_Inr dest!: take_aboard_keeps split: if_splits)

lemma unload_loop_keeps:
  "for_each_safe unload_visit q (s, l) = Inr b \<Longrightarrow> thread1 (fst b) = thread1 s"
  using for_each_safe_keeps [of unload_visit "\<lambda>x. thread1 (fst x)" q "(s, l)" b] unload_visit_keeps by fastforce

lemma load_loop_keeps:
  "for_each_safe (load_visit f) q (s, l) = Inr b \<Longrightarrow> thread1 (fst b) = thread1 s"
  using for_each_safe_keeps [of "load_visit f" "\<lambda>x. thread1 (fst x)" q "(s, l)" b] load_visit_keeps by fastforce

lemma unlink_onboard_keeps: "unlink_onboard (s, l) = Inr b \<Longrightarrow> thread1 (fst b) = thread1 s"
  by (auto simp: unlink_onboard_def rbind_eq_Inr)

lemma unlink_floors_keeps: "for_upto n unlink_floor (s, l) = Inr b \<Longrightarrow> thread1 (fst b) = thread1 s"
proof -
  have "unlink_floor i (u, k) = Inr c \<Longrightarrow> thread1 (fst c) = thread1 u" for i u k c
    by (auto simp: unlink_floor_def rbind_eq_Inr)
  then show "for_upto n unlink_floor (s, l) = Inr b \<Longrightarrow> thread1 (fst b) = thread1 s"
    using for_each_safe_keeps [of unlink_floor "\<lambda>x. thread1 (fst x)" "[0..<n]" "(s, l)" b]
    unfolding for_upto_def by fastforce
qed

lemma enqueue_keeps: "enqueue_passenger km start dest type s = Inr t \<Longrightarrow> thread1 t = thread1 s"
  by (auto simp: enqueue_passenger_def Let_def rbind_eq_Inr split: option.splits)

lemma unload_keeps: "unloadPassengers me lk s = Inr (u, t) \<Longrightarrow> parameters t = parameters s"
proof -
  assume "unloadPassengers me lk s = Inr (u, t)"
  then obtain s' dl v where r: "locked_region me lk
      (\<lambda>(s, l). for_each_safe unload_visit (onboard (elevator s)) (s, l)) (s, [], 0) = Inr (s', dl, v)"
    and t: "thread1 t = thread1 s'"
    by (auto simp: unloadPassengers_def rbind_eq_Inr Let_def)
  have "parameters s' = parameters s"
    by (rule region_keeps [OF _ r]) (auto dest: unload_loop_keeps)
  then show "parameters t = parameters s" using parameters_cong [OF t] by simp
qed

lemma load_keeps: "loadPassengers me lk s = Inr (l, t) \<Longrightarrow> parameters t = parameters s"
proof -
  let ?body = "\<lambda>(t, l). rbind (aget (waiting_list t) (current_floor (elevator s) - 1)) (\<lambda>q.
      for_each_safe (load_visit (current_floor (elevator s))) q (t, l))"
  assume "loadPassengers me lk s = Inr (l, t)"
  then have r: "locked_region me lk ?body (s, 0) = Inr (t, l)"
    by (auto simp: loadPassengers_def rbind_eq_Inr Let_def)
  show "parameters t = parameters s"
    by (rule region_keeps [OF _ r]) (auto simp: rbind_eq_Inr dest: load_loop_keeps)
qed

lemma request_keeps:
  assumes "request_critical me lk km start dest type s = Inr (r, t)"
  shows "parameters t = parameters s"
proof -
  let ?body = "\<lambda>(s, l). if deactiving (elevator s) = 0
      then rbind (enqueue_passenger km start dest type s) (\<lambda>s. Inr (s, l)) else Inr (s, l)"
  have r: "locked_region me lk ?body (s, ()) = Inr (t, ())"
    using assms by (auto simp: request_critical_def rbind_eq_Inr)
  show ?thesis
    by (rule region_keeps [OF _ r])
      (auto simp: rbind_eq_Inr dest: enqueue_keeps split: if_splits)
qed

lemma offload_keeps:
  assumes "stop_offload me lk s = Inr (r, t)"
  shows "parameters t = parameters s"
proof -
  obtain s' dl where r: "locked_region me lk unlink_onboard (s, []) = Inr (s', dl)" and t: "thread1 t = thread1 s'"
    using assms by (auto simp: stop_offload_def rbind_eq_Inr)
  have "parameters s' = parameters s"
    by (rule region_keeps [OF _ r]) (auto dest: unlink_onboard_keeps)
  then show ?thesis using parameters_cong [OF t] by simp
qed

lemma removal_keeps:
  assumes "removeAllPassengers me lk s = Inr t"
  shows "parameters t = parameters s"
proof -
  let ?body = "\<lambda>x. rbind (unlink_onboard x) (for_upto (nat FLOORS) unlink_floor)"
  obtain s' dl where r: "locked_region me lk ?body (s, []) = Inr (s', dl)" and t: "thread1 t = thread1 s'"
    using assms by (auto simp: removeAllPassengers_def rbind_eq_Inr)
  have "parameters s' = parameters s"
    by (rule region_keeps [OF _ r]) (auto simp: rbind_eq_Inr dest!: unlink_onboard_keeps unlink_floors_keeps)
  then show ?thesis using parameters_cong [OF t] by simp
qed

section \<open>The segments\<close>

lemma sched_segment_keeps:
  assumes "sched_segment me lk pc s = Inr (pc', s')"
  shows "parameters s' = parameters s"
proof (cases pc)
  case AtUnload
  then show ?thesis using assms unload_keeps by (auto simp: rbind_eq_Inr)
next
  case (AtLoad u)
  then show ?thesis using assms load_keeps by (auto simp: rbind_eq_Inr split: if_splits)
qed (use assms in \<open>auto simp: ssleep_def set_state_def intro: parameters_cong split: if_splits\<close>)

lemma call_segment_keeps:
  assumes "call_segment me lk km p s = Inr (q, s')"
  shows "parameters s' = parameters s"
proof (cases p)
  case (RequestLock start dest type)
  then show ?thesis using assms request_keeps by (auto simp: rbind_eq_Inr)
next
  case StopLock
  then show ?thesis using assms offload_keeps by (auto simp: rbind_eq_Inr)
qed (use assms in \<open>auto intro: parameters_cong\<close>)

lemma kstep_keeps: "kstep x e y \<Longrightarrow> parameters (globals y) = parameters (globals x)"
  by (induction rule: kstep.induct) (auto dest: sched_segment_keeps call_segment_keeps)

interpretation thread_record: machine kstep "\<lambda>x. parameters (globals x) = parameters boot_state"
  by unfold_locales (simp add: kstep_keeps)

lemma reachable_parameters:
  "steps kstep booted es x \<Longrightarrow> parameters (globals x) = parameters boot_state"
  using thread_record.run_inv by (fastforce simp: booted_def)

lemma boot_parameters:
  "parameters boot_state = \<lparr>thread_id = 1, cnt = 0, kthread = Task 0, mutex = None, mutex_ready = True\<rparr>"
  by (simp add: parameters_def boot_explicit)

lemma booted_ready: "parameters s = parameters boot_state \<Longrightarrow> mutex_ready (thread1 s)"
  by (drule parameters_ready) (simp add: boot_explicit)

end
