(* ===== verification/Interleaving.thy ===== *)
theory Interleaving
  imports Service ThreadRecord
begin

text \<open>
  What the interleaving of the calls adds to the sequential contracts: the values every global
  can take, the protocol of the two flags that are written outside the mutex, the fate of a
  request that a stop overtakes, and the refinement of the specification's elevator by the
  interleaved machine, one segment at a time.
\<close>

section \<open>Types\<close>

definition int32 :: "int \<Rightarrow> bool" where
  "int32 x \<longleftrightarrow> - 2147483648 \<le> x \<and> x < 2147483648"

lemma int32_wrap32: "int32 (wrap32 x)"
  using wrap32_range by (simp add: int32_def)

text \<open>
  C24. Types: in every reachable state, between any two segments, every member of \<open>elevator\<close> and of
  \<open>thread1\<close> and every other global that the scheduler and the three calls use has a value of its C
  type: the cabin is on a floor of the building and its next floor is a neighbouring one, the
  enumerations and flags have one of their values, the load is at most the capacity, the counters
  fit in an \<open>int\<close>, the arrays have ten elements, the addresses on the lists are those of the
  allocated passengers, each on one list; \<open>thread1\<close> is as \<open>thread_init_parameter\<close> left it and its
  mutex is free. Every allocated passenger is a human or a zombie between two floors of the
  building, and so is every passenger that a calling thread is about to queue.
\<close>

theorem reachable_types:
  assumes "steps kstep booted es (pc, c, s)"
  shows "current_floor (elevator s) \<in> {1..FLOORS} \<and> next_floor (elevator s) \<in> {1..FLOORS}
    \<and> \<bar>next_floor (elevator s) - current_floor (elevator s)\<bar> = 1
    \<and> state (elevator s) \<in> {OFFLINE, IDLE, LOADING, UP, DOWN} \<and> status (elevator s) \<in> {0, 1}
    \<and> started (elevator s) \<in> {0, 1} \<and> deactiving (elevator s) \<in> {0, 1}
    \<and> loads (elevator s) \<in> {0..CAPACITY} \<and> int32 (serviced s) \<and> int32 (num_waiting s)
    \<and> length (waiting_list s) = nat FLOORS \<and> length (waiting_on_floor s) = nat FLOORS
    \<and> list_all int32 (waiting_on_floor s)
    \<and> distinct (onboard (elevator s) @ concat (waiting_list s))
    \<and> set (onboard (elevator s) @ concat (waiting_list s)) = dom (heap s)
    \<and> thread1 s = \<lparr>thread_id = 1, cnt = 0, kthread = Task 0, mutex = None, mutex_ready = True\<rparr>
    \<and> (\<forall>p \<in> ran (heap s). passenger_ok p) \<and> (\<forall>me. call_ok (c me))"
proof -
  have ok: "sys_ok (pc, c, s)" by (rule reachable_ok [OF assms])
  then have w: "well_formed s" by (simp add: sys_ok_def)
  have n: "waiting_on_floor s ! i = wrap32 (int (length (waiting_list s ! i)))" if "i < 10" for i
    using wfD(4) [OF w] that by (simp add: counts_ok_def)
  have "list_all int32 (waiting_on_floor s)"
    using wf_position [OF w] by (auto simp: list_all_length n int32_wrap32)
  moreover have "int32 (serviced s)" "int32 (num_waiting s)"
    using wfD(4) [OF w] by (auto simp: counts_ok_def int32_wrap32)
  moreover have "state (elevator s) \<in> {0, 1, 2, 3, 4}"
    using wfD(8) [OF w] by (simp add: flags_ok_def) presburger
  moreover have "current_floor (elevator s) \<in> {1..10} \<and> next_floor (elevator s) \<in> {1..10}
      \<and> \<bar>next_floor (elevator s) - current_floor (elevator s)\<bar> = 1"
    using wfD(7) [OF w] by (auto simp: position_ok_def)
  moreover have "thread1 s = parameters s"
    using wfD(9) [OF w] by (simp add: parameters_def thread_mutex_None)
  then have "thread1 s = \<lparr>thread_id = 1, cnt = 0, kthread = Task 0, mutex = None, mutex_ready = True\<rparr>"
    using reachable_parameters [OF assms] boot_parameters by simp
  moreover have "\<forall>p \<in> ran (heap s). passenger_ok p"
    using wfD(2) [OF w] by (auto simp: heap_ok_def ran_def)
  moreover have "distinct (onboard (elevator s) @ concat (waiting_list s))"
    "set (onboard (elevator s) @ concat (waiting_list s)) = dom (heap s)"
    using wfD(1) [OF w] unfolding links_ok_def linked_def by blast+
  ultimately show ?thesis
    using ok wfD(6,8) [OF w] wf_loads_range [OF w] wf_position [OF w]
    by (simp add: sys_ok_def infection_ok_def flags_ok_def)
qed

theorem reachable_types_witness:
  "status (elevator demo_stopping) \<in> {0, 1} \<and> loads (elevator demo_stopping) \<in> {0..CAPACITY}
    \<and> next_floor (elevator demo_stopping) \<in> {1..FLOORS} \<and> thread_id (thread1 demo_stopping) = 1
    \<and> call_ok StopLock"
  using reachable_types [OF demo_stop_run] by (auto dest: spec [of _ "1 :: nat"])

section \<open>The flags\<close>

text \<open>Both flags are set only while a thread stands between its two assignments.\<close>

definition flags_guarded :: "sys \<Rightarrow> bool" where
  "flags_guarded = (\<lambda>(pc, c, s). started (elevator s) \<noteq> 0 \<and> deactiving (elevator s) \<noteq> 0 \<longrightarrow>
     (\<exists>me. c me = StartClear \<or> c me = StopClear))"

lemma loaded_flags:
  "started (elevator (unloaded_state s)) = started (elevator s)"
  "deactiving (elevator (unloaded_state s)) = deactiving (elevator s)"
  "started (elevator (loaded_state s)) = started (elevator s)"
  "deactiving (elevator (loaded_state s)) = deactiving (elevator s)"
  by (simp_all add: unloaded_state_def loaded_state_def load_result_def Let_def)

lemma segment_flags:
  assumes w: "well_formed s" and pc: "pc_ok pc s" and seg: "sched_segment me lk pc s = Inr (pc', s')"
  shows "started (elevator s') = started (elevator s)
    \<and> (deactiving (elevator s') = deactiving (elevator s) \<or> deactiving (elevator s') = 0)"
proof -
  note seg0 = segment_lock_free [OF w seg]
  show ?thesis
  proof (cases pc)
    case AtUnload
    then show ?thesis using seg0 by (auto simp: unloadPassengers_eq [OF w] res_simps loaded_flags)
  next
    case (AtLoad u)
    then show ?thesis
      using seg0 by (auto simp: loadPassengers_eq [OF w] res_simps loaded_flags split: if_splits)
  next
    case AtMove
    then show ?thesis using seg0 pc moveElevator_frame [of "elevator s"] by auto
  qed (use seg0 in \<open>auto simp: changeElevatorState_frame split: if_splits\<close>)
qed

lemma call_segment_flags:
  assumes "well_formed s" and "call_ok p" and "p \<noteq> Ready" and "fresh km p s"
    and "call_segment me lk km p s = Inr ((p', r), s')"
    and "started (elevator s') \<noteq> 0" and "deactiving (elevator s') \<noteq> 0"
  shows "p' = StartClear \<or> p' = StopClear
    \<or> (p \<noteq> StartClear \<and> p \<noteq> StopClear \<and> started (elevator s) \<noteq> 0 \<and> deactiving (elevator s) \<noteq> 0)"
proof (cases p)
  case (RequestLock start dest type)
  then have "request_valid start dest type" using assms(2) by simp
  moreover obtain r' where "request_critical me lk km start dest type s = Inr (r', s')"
    using assms(5) RequestLock by (auto simp: rbind_eq_Inr)
  ultimately show ?thesis
    using assms(1,6,7) RequestLock by (elim request_critical_cases) auto
next
  case StopLock
  then have "s' = offloaded_state s"
    using assms(5) stop_offload_result [OF assms(1)] by (auto simp: rbind_eq_Inr)
  then show ?thesis using StopLock assms(6,7) by (simp add: offloaded_state_def)
qed (use assms(3,5-7) in \<open>auto split: if_splits\<close>)

lemma kstep_flags:
  assumes "kstep x e y" and "sys_ok x \<and> flags_guarded x"
  shows "sys_ok y \<and> flags_guarded y"
proof
  show "sys_ok y" using kstep_sys_ok assms by blast
  from assms show "flags_guarded y"
  proof (induction rule: kstep.induct)
    case (kstep_sched lk pc s pc' s' c)
    then show ?case using segment_flags [of s pc 0 lk pc' s'] by (auto simp: sys_ok_def flags_guarded_def)
  next
    case (kstep_enter me c call s p r pc)
    then have k: "c k = StartClear \<or> c k = StopClear \<Longrightarrow> (c(me := p)) k = c k" for k by auto
    from kstep_enter.prems have "flags_guarded (pc, c, s)" by blast
    then show ?case unfolding flags_guarded_def prod.case using k by metis
  next
    case (kstep_continue c me km s lk p r s' pc)
    then have ok: "well_formed s" "call_ok (c me)" by (auto simp: sys_ok_def)
    have g: "flags_guarded (pc, c, s)" using kstep_continue.prems by blast
    show ?case unfolding flags_guarded_def prod.case
    proof
      assume on: "started (elevator s') \<noteq> 0 \<and> deactiving (elevator s') \<noteq> 0"
      show "\<exists>k. (c(me := p)) k = StartClear \<or> (c(me := p)) k = StopClear"
        using call_segment_flags [OF ok kstep_continue.hyps] on g unfolding flags_guarded_def prod.case
        by (metis fun_upd_apply)
    qed
  qed
qed

interpretation kflags: machine kstep "\<lambda>x. sys_ok x \<and> flags_guarded x"
  by unfold_locales (rule kstep_flags)

lemma flags_booted: "sys_ok booted \<and> flags_guarded booted"
  using sys_ok_booted by (simp add: flags_guarded_def booted_def boot_explicit)

text \<open>
  C14. The flags at rest: in every interleaving, as long as no thread stands between the two
  assignments of a start or of a stop, the elevator is not both started and being stopped,
  although no lock protects the flags; so a valid request to a started elevator is then queued,
  and not dropped.
\<close>

theorem flags_at_rest:
  assumes "steps kstep booted es (pc, c, s)" and "\<forall>k. c k \<noteq> StartClear \<and> c k \<noteq> StopClear"
  shows "\<not> (started (elevator s) \<noteq> 0 \<and> deactiving (elevator s) \<noteq> 0)
    \<and> (started (elevator s) \<noteq> 0 \<and> request_valid start dest type \<longrightarrow>
        issue_request me 0 (Some a) start dest type s = Inr (0, requested_state a start dest type s))"
proof -
  have "sys_ok (pc, c, s) \<and> flags_guarded (pc, c, s)" by (rule kflags.run_inv [OF assms(1) flags_booted])
  then show ?thesis
    using assms(2) issue_request_accepted [of s start dest type me a]
    by (auto simp: sys_ok_def flags_guarded_def)
qed

theorem flags_at_rest_witness:
  "issue_request 3 0 (Some 8) 2 9 0 demo_riding = Inr (0, requested_state 8 2 9 0 demo_riding)"
  using flags_at_rest [OF demo_run, of 2 9 0 3 8] by (simp add: demo_riding_fields request_valid_def)

section \<open>A stop that overtakes a request\<close>

text \<open>
  C22. A request that has passed its tests: its critical section looks at \<open>deactiving\<close> only. It
  returns 0 in any case; when a stop has set that flag in the meantime the request is dropped
  and nothing is queued, and otherwise it is queued, even if the elevator is stopped by now.
\<close>

theorem overtaken_request:
  assumes "steps kstep booted es (pc, c, s)" and "c me = RequestLock start dest type"
    and "kstep (pc, c, s) (Continue me lk km r) (pc', c', s')"
  shows "r = Some 0 \<and> c' me = Ready \<and> pc' = pc
    \<and> (if deactiving (elevator s) \<noteq> 0 then km = None \<and> s' = s
       else \<exists>a. km = Some a \<and> s' = requested_state a start dest type s)"
proof -
  have ok: "well_formed s" "request_valid start dest type"
    using reachable_ok [OF assms(1)] assms(2) by (auto simp: sys_ok_def dest!: spec [of _ me])
  obtain p q where "fresh km (c me) s" "c' = c(me := p)" "pc' = pc"
      "call_segment me lk km (c me) s = Inr ((p, r), s')"
    using assms(3) by (auto elim: kstep_continueE)
  moreover from this(4) obtain n where "request_critical me lk km start dest type s = Inr (n, s')"
      "p = Ready" "r = Some n"
    by (auto simp: assms(2) rbind_eq_Inr)
  ultimately show ?thesis
    using ok assms(2) by (elim request_critical_cases) (auto simp: fresh_def split: option.splits)
qed

text \<open>While the zombie rides, a second thread asks, and the stop of the first overtakes it.\<close>

lemma demo_overtaken:
  "steps kstep booted ((demo_events @ [Sched 0, Sched 0] @ [Sched 0])
       @ [Enter 2 (RequestCall 3 4 0) None] @ demo_stop_events)
     (AtRest 0 1, nobody(2 := RequestLock 3 4 0, 1 := StopLock), demo_stopping)"
proof (intro steps_append [OF demo_run] steps_append [OF _ demo_stop])
  show "steps kstep (AtRest 0 1, nobody, demo_riding) [Enter 2 (RequestCall 3 4 0) None]
      (AtRest 0 1, nobody(2 := RequestLock 3 4 0), demo_riding)"
    by (intro steps_cons [OF _ steps_nil] kstep_enter) (simp_all add: demo_riding_fields)
qed simp

lemma demo_dropped:
  "kstep (AtRest 0 1, nobody(2 := RequestLock 3 4 0, 1 := StopLock), demo_stopping)
     (Continue 2 0 None (Some 0)) (AtRest 0 1, nobody(1 := StopLock), demo_stopping)"
proof -
  let ?c = "nobody(2 := RequestLock 3 4 0, 1 := StopLock)"
  have "well_formed demo_stopping" using reachable_ok [OF demo_stop_run] by (simp add: sys_ok_def)
  moreover have "deactiving (elevator demo_stopping) \<noteq> 0" by (simp add: demo_stopping_def)
  ultimately have "call_segment 2 0 None (?c 2) demo_stopping = Inr ((Ready, Some 0), demo_stopping)"
    by (simp add: request_critical_ignored res_simps)
  then have "kstep (AtRest 0 1, ?c, demo_stopping) (Continue 2 0 None (Some 0))
      (AtRest 0 1, ?c(2 := Ready), demo_stopping)"
    by (intro kstep_continue) (simp_all add: fresh_def)
  moreover have "?c(2 := Ready) = nobody(1 := StopLock)" by (simp add: fun_eq_iff)
  ultimately show ?thesis by (simp only:)
qed

theorem overtaken_request_witness:
  "\<exists>es c c'. steps kstep booted es (AtRest 0 1, c, demo_stopping) \<and> c 2 = RequestLock 3 4 0
    \<and> kstep (AtRest 0 1, c, demo_stopping) (Continue 2 0 None (Some 0)) (AtRest 0 1, c', demo_stopping)
    \<and> c' 2 = Ready"
proof -
  have "(nobody(1 := StopLock)) 2 = Ready"
    using overtaken_request [OF demo_overtaken _ demo_dropped] by simp
  then show ?thesis using demo_overtaken demo_dropped by fastforce
qed

section \<open>Refinement, segment by segment\<close>

text \<open>
  What a segment is for the specification: the two critical sections of a round unload and load,
  the end of a round that moves is a move, the critical section of a request that allocated a
  passenger is a request, that of a stop is a stop, and everything else is nothing.
\<close>

datatype lift_action = Unload | Board | Move | Ask passenger_data | Evacuate | Nothing

fun perform :: "lift_action \<Rightarrow> lift \<Rightarrow> lift" where
  "perform Unload l = lift_unload l"
| "perform Board l = lift_load l"
| "perform Move l = lift_move l"
| "perform (Ask p) l = lift_request p l"
| "perform Evacuate l = lift_stop l"
| "perform Nothing l = l"

fun asks :: "call_pc \<Rightarrow> addr option \<Rightarrow> lift_action" where
  "asks (RequestLock start dest type) (Some a) =
     Ask \<lparr>ptype = type, start_floor = start, destination_floor = dest\<rparr>"
| "asks StopLock km = Evacuate"
| "asks p km = Nothing"

fun action_of :: "sys \<Rightarrow> kevent \<Rightarrow> lift_action" where
  "action_of (AtUnload, c, s) (Sched lk) = Unload"
| "action_of (AtLoad u, c, s) (Sched lk) = Board"
| "action_of (AtMove, c, s) (Sched lk) = Move"
| "action_of (pc, c, s) (Sched lk) = Nothing"
| "action_of (pc, c, s) (Enter me call r) = Nothing"
| "action_of (pc, c, s) (Continue me lk km r) = asks (c me) km"

lemma lift_of_same:
  "same_passengers s s' \<Longrightarrow> same_place s s' \<Longrightarrow> lift_of s' = lift_of s"
  by (rule lift_of_cong) (simp_all add: same_passengers_def same_place_def)

lemma refines_moveElevator:
  assumes "headed (elevator s)"
  shows "lift_of (s\<lparr>elevator := moveElevator (elevator s)\<rparr>) = lift_move (lift_of s)"
proof -
  have "passenger_of (s\<lparr>elevator := moveElevator (elevator s)\<rparr>) = passenger_of s"
    by (simp add: passenger_of_def fun_eq_iff)
  then show ?thesis
    unfolding lift_of_def by (simp add: moveElevator_headed [OF assms] lift_move_def)
qed

lemma segment_refines:
  assumes w: "well_formed s" and pc: "pc_ok pc s" and seg: "sched_segment 0 lk pc s = Inr (pc', s')"
  shows "lift_of s' = perform (action_of (pc, c, s) (Sched lk)) (lift_of s)"
proof -
  note seg0 = segment_lock_free [OF w seg]
  show ?thesis
  proof (cases pc)
    case AtUnload
    then show ?thesis using seg0 by (auto simp: unloadPassengers_eq [OF w] res_simps refines_unload [OF w])
  next
    case (AtLoad u)
    then show ?thesis
      using seg0 loaded_full [OF w] refines_load [OF w]
      by (cases "loads (elevator s) < CAPACITY") (auto simp: loadPassengers_eq [OF w] res_simps)
  next
    case AtMove
    then show ?thesis using seg0 pc refines_moveElevator by auto
  qed (use seg0 in \<open>auto intro!: lift_of_cong simp: changeElevatorState_frame split: if_splits\<close>)
qed

lemma kstep_refines:
  assumes "kstep x e y" and "sys_ok x"
  shows "lift_of (globals y) = perform (action_of x e) (lift_of (globals x))"
  using assms
proof (induction rule: kstep.induct)
  case (kstep_sched lk pc s pc' s' c)
  then show ?case using segment_refines [of s pc lk pc' s' c] by (simp add: sys_ok_def)
next
  case (kstep_enter me c call s p r pc)
  then show ?case by simp
next
  case (kstep_continue c me km s lk p r s' pc)
  then have ok: "well_formed s" "call_ok (c me)" by (auto simp: sys_ok_def)
  from ok kstep_continue.hyps show ?case
  proof (cases rule: call_segment_cases)
    case (requests a start dest type)
    then show ?thesis using lift_of_requested [OF ok(1)] by simp
  next
    case offloads
    then show ?thesis using lift_of_offloaded [OF ok(1)] by simp
  next
    case else
    then show ?thesis using lift_of_same by (cases "c me") simp_all
  qed
qed

interpretation code_lift: simulation kstep sys_ok "\<lambda>x. lift_of (globals x)" action_of perform
  by unfold_locales (rule kstep_refines)

text \<open>
  C5. Refinement of every interleaving: each segment of the scheduler and of the calls does to the
  passengers, whoever runs in between, exactly one action of the specification's elevator or
  none; so whatever state the code reaches, the specification reaches by as many actions.
\<close>

theorem interleaving_refines_specification:
  assumes "steps kstep booted es (pc, c, s)" and "kstep (pc, c, s) e (pc', c', s')"
  shows "lift_of s' = perform (action_of (pc, c, s) e) (lift_of s)
    \<and> (\<exists>acts. length acts = length es \<and> lift_of s = fold perform acts (lift_of boot_state))"
  using kstep_refines [OF assms(2) reachable_ok [OF assms(1)]]
    code_lift.run_sim [OF assms(1) sys_ok_booted] by (simp add: booted_def)

theorem interleaving_refines_specification_witness:
  "lift_of demo_riding = lift_load (lift_of demo_waiting)"
  using interleaving_refines_specification [OF steps_append [OF demo_request demo_to_load] demo_load_step]
  by (simp add: demo_unloaded)

section \<open>Service from every reachable state\<close>

text \<open>Segments left before the top of the loop.\<close>

fun rank :: "sched_pc \<Rightarrow> nat" where
  "rank AtTop = 0"
| "rank AtUnload = 6"
| "rank (AtLoad u) = 5"
| "rank (AtRest u l) = 4"
| "rank AtDecide = 3"
| "rank AtDeact = 2"
| "rank pc = 1"

lemma rank_bound: "rank pc \<le> 6"
  by (cases pc) simp_all

lemma segment_rank:
  "sched_segment me lk pc s = Inr (pc', s') \<Longrightarrow> pc \<noteq> AtTop \<Longrightarrow> rank pc' < rank pc"
  by (cases pc) (auto simp: rbind_eq_Inr split: if_splits)

text \<open>What only the scheduler does leaves no more to do than before.\<close>

definition no_more_than :: "lift \<Rightarrow> lift \<Rightarrow> bool" where
  "no_more_than l' l \<longleftrightarrow> lift_work l' \<le> lift_work l \<and> uncounted l' = uncounted l
     \<and> length (concat (queues l')) \<le> length (concat (queues l))
     \<and> lift_balance l' mod 4294967296 = lift_balance l mod 4294967296"

lemma no_more_trans: "no_more_than a b \<Longrightarrow> no_more_than b c \<Longrightarrow> no_more_than a c"
  by (simp add: no_more_than_def del: length_concat)

lemma no_more_perform:
  assumes "lift_ok l"
  shows "no_more_than (lift_unload l) l" and "no_more_than (lift_load l) l"
    and "no_more_than (lift_move l) l" and "no_more_than l l"
proof -
  show "no_more_than (lift_unload l) l"
    by (simp add: no_more_than_def lift_work_def lift_unload_fields balance_unload)
  show "no_more_than (lift_load l) l"
    using length_queues_load [OF assms]
    by (simp add: no_more_than_def lift_work_def lift_load_fields(3,4) balance_load [OF assms] del: length_concat)
qed (simp_all add: no_more_than_def lift_work_def lift_move_fields)

lemma segment_no_more:
  assumes w: "well_formed s" and "pc_ok pc s" and "sched_segment 0 lk pc s = Inr (pc', s')"
  shows "no_more_than (lift_of s') (lift_of s)"
  unfolding segment_refines [OF assms, of c]
  using no_more_perform [OF lift_ok_of [OF w]] by (cases pc) simp_all

lemma finish_round:
  "sys_ok (pc, c, s) \<Longrightarrow> \<exists>n s'. n \<le> rank pc \<and> steps kstep (pc, c, s) (replicate n (Sched 0)) (AtTop, c, s')
     \<and> well_formed s' \<and> no_more_than (lift_of s') (lift_of s)"
proof (induction "rank pc" arbitrary: pc s rule: less_induct)
  case less
  then have w: "well_formed s" "pc_ok pc s" by (auto simp: sys_ok_def)
  show ?case
  proof (cases "pc = AtTop")
    case True
    then show ?thesis using w no_more_perform(4) [OF lift_ok_of] by (intro exI [of _ 0] exI [of _ s]) auto
  next
    case False
    obtain pc1 s1 where seg: "sched_segment 0 0 pc s = Inr (pc1, s1)" using segment_ok [OF w] by blast
    then have st: "kstep (pc, c, s) (Sched 0) (pc1, c, s1)" by (rule kstep_sched)
    obtain n s' where n: "n \<le> rank pc1" "steps kstep (pc1, c, s1) (replicate n (Sched 0)) (AtTop, c, s')"
        "well_formed s'" "no_more_than (lift_of s') (lift_of s1)"
      using less.hyps [OF segment_rank [OF seg False] kstep_sys_ok [OF st less.prems]] by blast
    have "steps kstep (pc, c, s) (replicate (Suc n) (Sched 0)) (AtTop, c, s')" using st n(2) by auto
    moreover have "Suc n \<le> rank pc" using n(1) segment_rank [OF seg False] by simp
    ultimately show ?thesis using n(3,4) no_more_trans segment_no_more [OF w seg] by blast
  qed
qed

lemma segments_steps:
  "run_segments n 0 (\<lambda>_. 0) pc s = Inr (pc', s') \<Longrightarrow>
     \<exists>k \<le> n. steps kstep (pc, c, s) (replicate k (Sched 0)) (pc', c, s')"
proof (induction n arbitrary: pc s)
  case 0
  then show ?case by auto
next
  case (Suc n)
  then obtain pc1 s1 where seg: "sched_segment 0 0 pc s = Inr (pc1, s1)"
      and rest: "(if pc1 = AtTop then Inr (pc1, s1) else run_segments n 0 (\<lambda>_. 0) pc1 s1) = Inr (pc', s')"
    by (auto simp: rbind_eq_Inr)
  have st: "kstep (pc, c, s) (Sched 0) (pc1, c, s1)" by (rule kstep_sched [OF seg])
  show ?case
  proof (cases "pc1 = AtTop")
    case True
    then show ?thesis using st rest by (intro exI [of _ 1]) auto
  next
    case False
    then obtain k where "k \<le> n" "steps kstep (pc1, c, s1) (replicate k (Sched 0)) (pc', c, s')"
      using Suc.IH rest by auto
    then show ?thesis using st by (intro exI [of _ "Suc k"]) auto
  qed
qed

lemma rounds_steps:
  "scheduler 0 (replicate n (0, 0)) s = Inr s' \<Longrightarrow>
     \<exists>k \<le> 7 * n. steps kstep (AtTop, c, s) (replicate k (Sched 0)) (AtTop, c, s')"
proof (induction n arbitrary: s)
  case 0
  then show ?case by auto
next
  case (Suc n)
  then obtain t where t: "scheduler_body 0 0 0 s = Inr t" "scheduler 0 (replicate n (0, 0)) t = Inr s'"
    by (auto simp: rbind_eq_Inr)
  have "run_segments 7 0 (\<lambda>_. 0) AtTop s = Inr (AtTop, t)"
    using run_segments_eq [of 0 0 0 s] by (simp add: t(1))
  then obtain j where j: "j \<le> 7" "steps kstep (AtTop, c, s) (replicate j (Sched 0)) (AtTop, c, t)"
    using segments_steps by blast
  obtain k where k: "k \<le> 7 * n" "steps kstep (AtTop, c, t) (replicate k (Sched 0)) (AtTop, c, s')"
    using Suc.IH [OF t(2)] by blast
  show ?case
    using steps_append [OF j(2) k(2)] j(1) k(1) by (intro exI [of _ "j + k"]) (simp add: replicate_add)
qed

text \<open>
  C1. Service from every reachable state: wherever the scheduler and the callers are, once the
  callers rest, and if no place has been lost to a stop, the scheduler delivers everybody within
  six segments and 126 for each ride still to be made. The lists and the heap are then empty, and
  \<open>serviced\<close> has grown by the number of passengers there were. Nothing in this needs the elevator
  to be started: those who wait when it is stopped are fetched as well.
\<close>

theorem reachable_everyone_served:
  assumes "steps kstep booted es (pc, c, s)"
    and "loads (elevator s) = int (length (onboard (elevator s)))"
    and "length (concat (waiting_list s)) < 4294967296"
  shows "\<exists>n s'. n \<le> 126 * work_left s + 6 \<and> steps kstep (pc, c, s) (replicate n (Sched 0)) (AtTop, c, s')
    \<and> onboard (elevator s') = [] \<and> concat (waiting_list s') = [] \<and> heap s' = Map.empty \<and> \<not> has_work s'
    \<and> serviced s' = wrap32 (serviced s + int (length (onboard (elevator s)))
                             + int (length (concat (waiting_list s))))"
proof -
  have ok: "sys_ok (pc, c, s)" by (rule reachable_ok [OF assms(1)])
  obtain m t where m: "m \<le> rank pc" "steps kstep (pc, c, s) (replicate m (Sched 0)) (AtTop, c, t)"
      and t: "well_formed t" "no_more_than (lift_of t) (lift_of s)"
    using finish_round [OF ok] by blast
  have len: "length (concat (queues (lift_of u))) = length (concat (waiting_list u))" for u
    using arg_cong [OF queues_of [of u], of length] by (simp only: length_map)
  have "loads (elevator t) = int (length (onboard (elevator t)))"
    using t assms(2) wf_loads_range [OF t(1)] by (simp add: no_more_than_def lift_of_def)
  moreover have "length (concat (waiting_list t)) < 4294967296"
    using t(2) assms(3) unfolding no_more_than_def len by linarith
  ultimately obtain n s' where n: "n \<le> 18 * work_left t" "scheduler 0 (replicate n (0, 0)) t = Inr s'"
      "onboard (elevator s') = []" "concat (waiting_list s') = []" "heap s' = Map.empty" "\<not> has_work s'"
      "serviced s' = wrap32 (lift_balance (lift_of t))"
    using everyone_served [OF t(1), of 0] unfolding balance_of by blast
  have "wrap32 (lift_balance (lift_of t)) = wrap32 (lift_balance (lift_of s))"
    using t(2) by (simp add: no_more_than_def wrap32_cong_iff)
  then have "serviced s' = wrap32 (serviced s + int (length (onboard (elevator s)))
      + int (length (concat (waiting_list s))))"
    unfolding n(7) balance_of .
  moreover obtain k where k: "k \<le> 7 * n" "steps kstep (AtTop, c, t) (replicate k (Sched 0)) (AtTop, c, s')"
    using rounds_steps [OF n(2)] by blast
  have "work_left t \<le> work_left s" using t(2) by (simp add: no_more_than_def lift_work_of)
  moreover from this have "m + k \<le> 126 * work_left s + 6" using m(1) rank_bound [of pc] n(1) k(1) by linarith
  moreover have "steps kstep (pc, c, s) (replicate (m + k) (Sched 0)) (AtTop, c, s')"
    unfolding replicate_add by (rule steps_append [OF m(2) k(2)])
  ultimately show ?thesis using n(3-6) by blast
qed

theorem reachable_everyone_served_witness:
  "\<exists>n s'. n \<le> 132 \<and> steps kstep (AtRest 0 1, nobody, demo_riding) (replicate n (Sched 0)) (AtTop, nobody, s')
    \<and> heap s' = Map.empty \<and> serviced s' = 1"
proof -
  have "work_left demo_riding = 1" by (simp add: work_left_def demo_riding_fields)
  then show ?thesis using reachable_everyone_served [OF demo_run] by (fastforce simp: demo_riding_fields wrap32_def)
qed

end
