(* ===== verification/Starvation.thy ===== *)
theory Starvation
  imports Interleaving
begin

text \<open>
  Service is promised to the scheduler left alone. With requests coming in it is not: two zombies
  a sweep, one up from floor 1 and one down from floor 10, keep the elevator infected wherever it
  passes floor 5, and a human who waits there never boards, although the cabin holds one passenger.
\<close>

section \<open>One sweep\<close>

definition human :: passenger_data where
  "human = \<lparr>ptype = 0, start_floor = 5, destination_floor = 1\<rparr>"

definition up_zombie :: passenger_data where
  "up_zombie = \<lparr>ptype = 1, start_floor = 1, destination_floor = 10\<rparr>"

definition down_zombie :: passenger_data where
  "down_zombie = \<lparr>ptype = 1, start_floor = 10, destination_floor = 1\<rparr>"

text \<open>The specification's elevator with \<open>rs\<close> on board, the human on floor 5, others on 1 and 10 only.\<close>

definition tour :: "int \<Rightarrow> int \<Rightarrow> passenger_data list \<Rightarrow> passenger_data list \<Rightarrow> passenger_data list \<Rightarrow> int \<Rightarrow> lift" where
  "tour floor nxt rs low high d =
     \<lparr>cabin_floor = floor, cabin_next = nxt, riders = rs, uncounted = 0, infected = (rs \<noteq> []),
      queues = [low, [], [], [], [human], [], [], [], [], high], delivered = d\<rparr>"

lemmas tour_defs = tour_def human_def up_zombie_def down_zombie_def

lemmas lift_round_defs = lift_round_def lift_busy_def lift_unload_def lift_load_def lift_move_def lift_room_def
  boarding_def candidates_def is_zombie_def turn_def numeral_nat

text \<open>On the way a zombie rides past everybody, the human included.\<close>

lemma tour_up:
  assumes "f \<in> {2..9}"
  shows "lift_round (tour f (f + 1) [up_zombie] [] high d) =
    tour (f + 1) (if f = 9 then 9 else f + 2) [up_zombie] [] high (wrap32 d)"
proof -
  have "f \<in> {2, 3, 4, 5, 6, 7, 8, 9}" using assms by auto
  then show ?thesis by (elim insertE emptyE) (simp_all add: tour_defs lift_round_defs)
qed

lemma tour_down:
  assumes "f \<in> {2..9}"
  shows "lift_round (tour f (f - 1) [down_zombie] low [] d) =
    tour (f - 1) (if f = 2 then 2 else f - 2) [down_zombie] low [] (wrap32 d)"
proof -
  have "f \<in> {2, 3, 4, 5, 6, 7, 8, 9}" using assms by auto
  then show ?thesis by (elim insertE emptyE) (simp_all add: tour_defs lift_round_defs)
qed

lemma tour_top:
  "lift_round (tour 10 9 [up_zombie] [] [down_zombie] d) = tour 9 8 [down_zombie] [] [] (wrap32 (d + 1))"
  by (simp add: tour_defs lift_round_defs)

lemma tour_bottom:
  "rs \<in> {[], [down_zombie]} \<Longrightarrow> lift_round (tour 1 2 rs [up_zombie] high d) =
     tour 2 3 [up_zombie] [] high (wrap32 (d + int (length rs)))"
  by (elim insertE emptyE) (simp_all add: tour_defs lift_round_defs)

lemma sweep_starves:
  assumes "rs \<in> {[], [down_zombie]}"
  shows "(lift_round ^^ 18) (tour 1 2 rs [up_zombie] [down_zombie] d) =
    tour 1 2 [down_zombie] [] [] (wrap32 (d + int (length rs) + 1))"
proof -
  have up: "(lift_round ^^ n) (tour 2 3 [up_zombie] [] high (wrap32 d)) =
      tour (2 + int n) (if n = 8 then 9 else 3 + int n) [up_zombie] [] high (wrap32 d)" if "n \<le> 8" for n d high
    using that
  proof (induction n)
    case (Suc n)
    then show ?case using tour_up [of "2 + int n" high "wrap32 d"] by (simp add: add.assoc)
  qed simp
  have down: "(lift_round ^^ n) (tour 9 8 [down_zombie] low [] (wrap32 d)) =
      tour (9 - int n) (if n = 8 then 2 else 8 - int n) [down_zombie] low [] (wrap32 d)" if "n \<le> 8" for n d low
    using that
  proof (induction n)
    case (Suc n)
    then show ?case using tour_down [of "9 - int n" low "wrap32 d"] by (simp add: diff_diff_eq)
  qed simp
  have "(18 :: nat) = 8 + Suc (8 + Suc 0)" by simp
  then have "(lift_round ^^ 18) l = (lift_round ^^ 8) (lift_round ((lift_round ^^ 8) (lift_round l)))" for l
    by (simp only: funpow_add comp_apply funpow.simps funpow_0) simp
  then show ?thesis
    using tour_bottom [OF assms] up [of 8 "[down_zombie]"] down [of 8 "[]"]
      tour_top [of "wrap32 (d + int (length rs))"] by simp
qed

text \<open>After four rounds the zombie reaches the human's floor.\<close>

lemma sweep_to_five:
  assumes "rs \<in> {[], [down_zombie]}"
  shows "(lift_round ^^ 4) (tour 1 2 rs [up_zombie] [down_zombie] d) =
    tour 5 6 [up_zombie] [] [down_zombie] (wrap32 (d + int (length rs)))"
proof -
  have "(4 :: nat) = Suc (Suc (Suc (Suc 0)))" by simp
  then have "(lift_round ^^ 4) l = lift_round (lift_round (lift_round (lift_round l)))" for l
    by (simp only: funpow.simps comp_apply id_apply)
  then show ?thesis
    using tour_bottom [OF assms, of "[down_zombie]" d] tour_up [of 2 "[down_zombie]"] tour_up [of 3 "[down_zombie]"]
      tour_up [of 4 "[down_zombie]"] by simp
qed

section \<open>The code does the same\<close>

text \<open>The scheduler alone adds nobody to a queue and leaves the flags of a running elevator.\<close>

definition undisturbed_queue :: "nat \<Rightarrow> kstate \<Rightarrow> kstate \<Rightarrow> bool" where
  "undisturbed_queue i s s' \<longleftrightarrow> set (waiting_list s' ! i) \<subseteq> set (waiting_list s ! i)
     \<and> started (elevator s') = started (elevator s)
     \<and> (deactiving (elevator s) = 0 \<longrightarrow> deactiving (elevator s') = 0)"

lemma undisturbed_segment:
  assumes "sys_ok (pc, c, s)" and "sched_segment 0 lk pc s = Inr (pc', s')"
  shows "undisturbed_queue i s s'"
proof -
  have w: "well_formed s" "pc_ok pc s" using assms(1) by (auto simp: sys_ok_def)
  from w assms(2) have "set (waiting_list s' ! i) \<subseteq> set (waiting_list s ! i)"
  proof (cases rule: segment_cases)
    case (loads u l)
    let ?j = "nat (current_floor (elevator s) - 1)"
    have "?j < length (waiting_list s)" using wf_position [OF w(1)] by simp
    then show ?thesis
      using loads by (cases "i = ?j") (auto simp: loaded_state_def Let_def load_result_fields)
  qed (auto simp: unloaded_state_def same_passengers_def Let_def)
  then show ?thesis using segment_flags [OF w assms(2)] by (auto simp: undisturbed_queue_def)
qed

lemma undisturbed_run:
  "steps kstep (pc, c, s) (replicate k (Sched 0)) (pc', c', s') \<Longrightarrow> sys_ok (pc, c, s) \<Longrightarrow>
    undisturbed_queue i s s' \<and> sys_ok (pc', c', s')"
proof (induction k arbitrary: pc c s)
  case 0
  then show ?case by (auto simp: undisturbed_queue_def)
next
  case (Suc k)
  then obtain y where y: "kstep (pc, c, s) (Sched 0) y" "steps kstep y (replicate k (Sched 0)) (pc', c', s')"
    by auto
  then obtain pc1 s1 where s1: "y = (pc1, c, s1)" "sched_segment 0 0 pc s = Inr (pc1, s1)"
    by (auto elim: kstep_schedE)
  moreover have "sys_ok y" by (rule kstep_sys_ok [OF y(1) Suc.prems(2)])
  ultimately have "undisturbed_queue i s1 s' \<and> sys_ok (pc', c', s')" using Suc.IH y(2) by simp
  then show ?case using undisturbed_segment [OF Suc.prems(2) s1(2), of i] by (auto simp: undisturbed_queue_def)
qed

section \<open>Runs in which somebody keeps waiting\<close>

text \<open>The elevator is about to load on floor 5, with room in the cabin.\<close>

definition offers_room :: "sys \<Rightarrow> bool" where
  "offers_room = (\<lambda>(pc, c, s). (\<exists>u. pc = AtLoad u) \<and> current_floor (elevator s) = 5 \<and> loads (elevator s) < CAPACITY)"

text \<open>The scheduler runs, or thread 1 asks and its request is accepted; nobody stops the elevator.\<close>

fun goes_on :: "kevent \<Rightarrow> bool" where
  "goes_on (Sched lk) \<longleftrightarrow> lk = 0"
| "goes_on (Enter me (RequestCall start dest type) r) \<longleftrightarrow> me = 1 \<and> r = None"
| "goes_on (Continue me lk (Some x) r) \<longleftrightarrow> me = 1 \<and> lk = 0 \<and> r = Some 0"
| "goes_on e \<longleftrightarrow> False"

text \<open>
  A step before and after which \<open>a\<close> alone waits on floor 5. Its mark tells whether it is a loading
  there with room.
\<close>

definition waits_on :: "addr \<Rightarrow> sys \<Rightarrow> kevent \<times> bool \<Rightarrow> sys \<Rightarrow> bool" where
  "waits_on a x l y \<longleftrightarrow> kstep x (fst l) y \<and> goes_on (fst l)
     \<and> waiting_list (globals x) ! 4 = [a] \<and> waiting_list (globals y) ! 4 = [a]
     \<and> snd l = (fst l = Sched 0 \<and> offers_room x)"

lemma same_single:
  assumes "set q \<subseteq> {a}" and "a \<in> set q" and "distinct q"
  shows "q = [a]"
proof (cases q)
  case (Cons b r)
  then have "b = a" using assms(1) by simp
  moreover have "r = []" using assms(1,3) Cons \<open>b = a\<close> by (cases r) auto
  ultimately show ?thesis using Cons by simp
qed (use assms(2) in simp)

text \<open>The scheduler alone: when \<open>a\<close> waits at the end, it has waited all along.\<close>

lemma undisturbed_waits:
  "steps kstep (pc, c, s) (replicate k (Sched 0)) (pc', c', s') \<Longrightarrow> sys_ok (pc, c, s) \<Longrightarrow>
    waiting_list s ! 4 = [a] \<Longrightarrow> waiting_list s' ! 4 = [a] \<Longrightarrow>
    \<exists>ls. steps (waits_on a) (pc, c, s) ls (pc', c', s') \<and> map fst ls = replicate k (Sched 0)"
proof (induction k arbitrary: pc c s)
  case 0
  then show ?case by (intro exI [of _ "[]"]) auto
next
  case (Suc k)
  then obtain y where y: "kstep (pc, c, s) (Sched 0) y" "steps kstep y (replicate k (Sched 0)) (pc', c', s')"
    by auto
  then obtain pc1 s1 where s1: "y = (pc1, c, s1)" "sched_segment 0 0 pc s = Inr (pc1, s1)"
    by (auto elim: kstep_schedE)
  have ok: "sys_ok (pc1, c, s1)" using kstep_sys_ok [OF y(1) Suc.prems(2)] s1(1) by simp
  then have w: "well_formed s1" by (simp add: sys_ok_def)
  have "set (waiting_list s1 ! 4) \<subseteq> {a}"
    using undisturbed_segment [OF Suc.prems(2) s1(2), of 4] Suc.prems(3) by (simp add: undisturbed_queue_def)
  moreover have "a \<in> set (waiting_list s1 ! 4)"
    using undisturbed_run [OF y(2) [unfolded s1(1)] ok, of 4] Suc.prems(4) by (auto simp: undisturbed_queue_def)
  moreover have "distinct (waiting_list s1 ! 4)" by (rule wf_queue_distinct [OF w]) simp
  ultimately have q: "waiting_list s1 ! 4 = [a]" by (rule same_single)
  obtain ls where ls: "steps (waits_on a) (pc1, c, s1) ls (pc', c', s')" "map fst ls = replicate k (Sched 0)"
    using Suc.IH [OF y(2) [unfolded s1(1)] ok q Suc.prems(4)] by blast
  have "waits_on a (pc, c, s) (Sched 0, offers_room (pc, c, s)) (pc1, c, s1)"
    using y(1) s1(1) q Suc.prems(3) by (simp add: waits_on_def)
  then show ?case
    using ls by (intro exI [of _ "(Sched 0, offers_room (pc, c, s)) # ls"]) auto
qed

text \<open>A round that begins on floor 5 with somebody to carry and room loads there.\<close>

lemma round_offers_room:
  assumes run: "steps (waits_on a) (AtTop, c, s) ls (AtTop, c', s')" and ls: "map fst ls = replicate k (Sched 0)"
    and k: "0 < k" and w: "well_formed s" and h: "has_work s" "current_floor (elevator s) = 5" "loads (elevator s) < CAPACITY"
  shows "1 \<le> length (filter snd ls)"
proof -
  obtain l1 ls1 where l1: "ls = l1 # ls1" "fst l1 = Sched 0" using ls k by (cases ls; cases k) auto
  with run obtain x1 where x1: "waits_on a (AtTop, c, s) l1 x1" "steps (waits_on a) x1 ls1 (AtTop, c', s')" by auto
  then have x1': "x1 = (AtUnload, c, s)"
    using l1(2) h(1) by (cases x1) (auto simp: waits_on_def elim!: kstep_schedE)
  obtain l2 ls2 where l2: "ls1 = l2 # ls2" using x1(2) x1' by (cases ls1) auto
  have f2: "fst l2 = Sched 0" using ls l1(1) l2 by (cases k; cases "k - 1") auto
  from x1(2) l2 obtain x2 where x2: "waits_on a x1 l2 x2" "steps (waits_on a) x2 ls2 (AtTop, c', s')" by auto
  then obtain u where x2': "x2 = (AtLoad u, c, unloaded_state s)"
    using f2 unfolding x1'
    by (cases x2) (auto simp: waits_on_def unloadPassengers_eq [OF w] res_simps elim!: kstep_schedE)
  obtain l3 ls3 where l3: "ls2 = l3 # ls3" using x2(2) x2' by (cases ls2) auto
  have f3: "fst l3 = Sched 0" using ls l1(1) l2 l3 by (cases k; cases "k - 1"; cases "k - 2") auto
  have "offers_room x2"
    using h(2,3) by (auto simp: offers_room_def x2' unloaded_state_def Let_def)
  moreover obtain x3 where "waits_on a x2 l3 x3" using x2(2) l3 by auto
  ultimately have "snd l3" using f3 by (simp add: waits_on_def)
  then show ?thesis by (simp add: l1(1) l2 l3)
qed

section \<open>Sweep after sweep\<close>

text \<open>The elevator runs, nobody else calls, and the human at \<open>a\<close> waits on floor 5.\<close>

definition passed_by :: "addr \<Rightarrow> passenger_data list \<Rightarrow> int \<Rightarrow> kstate \<Rightarrow> bool" where
  "passed_by a rs d s \<longleftrightarrow> well_formed s \<and> started (elevator s) \<noteq> 0 \<and> deactiving (elevator s) = 0
     \<and> waiting_list s ! 4 = [a] \<and> lift_of s = tour 1 2 rs [] [] d"

lemma request_passed_by:
  assumes "well_formed s" and "started (elevator s) \<noteq> 0" and "deactiving (elevator s) = 0"
    and "request_valid start dest type" and "start \<noteq> 5" and "waiting_list s ! 4 = [a]"
  obtains x s' where "steps (waits_on a) (pc, nobody, s)
      [(Enter 1 (RequestCall start dest type) None, False), (Continue 1 0 (Some x) (Some 0), False)] (pc, nobody, s')"
    and "well_formed s'" and "started (elevator s') \<noteq> 0" and "deactiving (elevator s') = 0"
    and "waiting_list s' ! 4 = [a]"
    and "lift_of s' = lift_request \<lparr>ptype = type, start_floor = start, destination_floor = dest\<rparr> (lift_of s)"
proof -
  have "finite (dom (heap s))" using wfD(1) [OF assms(1)] by (metis links_ok_def List.finite_set)
  then obtain x where x: "heap s x = None" by (metis domIff ex_new_if_finite infinite_UNIV_nat)
  let ?t = "requested_state x start dest type s"
  have "well_formed ?t" by (rule wf_requested [OF assms(1,4)]) (use x in auto)
  moreover have q: "waiting_list ?t ! 4 = [a]"
    using assms(4-6) by (auto simp: requested_state_def Let_def request_valid_def nth_list_update)
  moreover have "steps (waits_on a) (pc, nobody, s)
      [(Enter 1 (RequestCall start dest type) None, False), (Continue 1 0 (Some x) (Some 0), False)] (pc, nobody, ?t)"
  proof -
    obtain y where y: "kstep (pc, nobody, s) (Enter 1 (RequestCall start dest type) None) y"
        "kstep y (Continue 1 0 (Some x) (Some 0)) (pc, nobody, ?t)"
      using request_steps [OF assms(1-4) x, of pc] by auto
    then have "globals y = s" by (auto elim: kstep_enterE)
    then show ?thesis
      using y q assms(6)
      by (intro steps_cons [of _ _ _ y] steps_one [of "waits_on a" y]) (simp_all add: waits_on_def)
  qed
  ultimately show thesis
    using that assms lift_of_requested [OF assms(1,4) x] by (simp add: requested_state_elevator)
qed

text \<open>A number of rounds of the scheduler alone, at whose end the human still waits.\<close>

lemma rounds_wait:
  assumes w: "well_formed s" and q: "waiting_list s ! 4 = [a]" and n: "length (concat (waiting_list s)) < 4294967296"
    and l: "queues ((lift_round ^^ n) (lift_of s)) ! 4 = [human]"
  obtains ls s' k where "steps (waits_on a) (AtTop, nobody, s) ls (AtTop, nobody, s')" and "map fst ls = replicate k (Sched 0)"
    and "well_formed s'" and "lift_of s' = (lift_round ^^ n) (lift_of s)" and "waiting_list s' ! 4 = [a]"
    and "started (elevator s') = started (elevator s)" and "deactiving (elevator s) = 0 \<longrightarrow> deactiving (elevator s') = 0"
    and "length (concat (waiting_list s')) < 4294967296"
proof -
  obtain s' where s': "scheduler 0 (replicate n (0, 0)) s = Inr s'" "well_formed s'"
      "lift_of s' = (lift_round ^^ n) (lift_of s)" "length (concat (waiting_list s')) < 4294967296"
    using rounds_refine [OF w n] by blast
  obtain k where k: "steps kstep (AtTop, nobody, s) (replicate k (Sched 0)) (AtTop, nobody, s')"
    using rounds_steps [OF s'(1), of nobody] by blast
  have ok: "sys_ok (AtTop, nobody, s)" using w by (simp add: sys_ok_def)
  then have u: "undisturbed_queue 4 s s'" using undisturbed_run [OF k] by blast
  have "map (passenger_of s') (waiting_list s' ! 4) = [human]"
    using l wf_position(4) [OF s'(2)] unfolding s'(3) [symmetric] by (simp add: lift_of_def)
  then obtain b where b: "waiting_list s' ! 4 = [b]" by (cases "waiting_list s' ! 4") auto
  then have "b = a" using u q by (simp add: undisturbed_queue_def)
  then have q': "waiting_list s' ! 4 = [a]" using b by simp
  obtain ls where "steps (waits_on a) (AtTop, nobody, s) ls (AtTop, nobody, s')" "map fst ls = replicate k (Sched 0)"
    using undisturbed_waits [OF k ok q q'] by blast
  then show thesis using that s' q' u by (simp add: undisturbed_queue_def)
qed

lemma lift_state:
  assumes "lift_of s = tour f nxt rs low high d" and "well_formed s"
  shows "current_floor (elevator s) = f" and "loads (elevator s) \<le> int (length rs)"
    and "rs \<noteq> [] \<Longrightarrow> has_work s"
proof -
  have l: "cabin_floor (lift_of s) = f" "riders (lift_of s) = rs" "uncounted (lift_of s) = 0"
    using assms(1) by (simp_all add: tour_def)
  then show "current_floor (elevator s) = f" by (simp add: lift_of_def)
  have len: "length (onboard (elevator s)) = length rs" using l(2) by (auto simp: lift_of_def)
  then show "loads (elevator s) \<le> int (length rs)" using l(3) by (simp add: lift_of_def)
  show "rs \<noteq> [] \<Longrightarrow> has_work s" using len by (auto simp: has_work_def list_empty_def)
qed

lemma scheduler_events: "map fst ls = replicate k (Sched 0) \<Longrightarrow> filter (\<lambda>l. accepted (fst l)) ls = []"
proof -
  assume "map fst ls = replicate k (Sched 0)"
  then have "\<forall>e \<in> set (map fst ls). e = Sched 0" by (simp only:) simp
  then show ?thesis by (auto simp: filter_empty_conv)
qed

lemma sweep_passes_by:
  assumes p: "passed_by a rs d s" and rs: "rs \<in> {[], [down_zombie]}"
  obtains ls s' where "steps (waits_on a) (AtTop, nobody, s) ls (AtTop, nobody, s')"
    and "length (filter (\<lambda>l. accepted (fst l)) ls) = 2" and "1 \<le> length (filter snd ls)"
    and "passed_by a [down_zombie] (wrap32 (d + int (length rs) + 1)) s'"
proof -
  have s: "well_formed s" "started (elevator s) \<noteq> 0" "deactiving (elevator s) = 0" "waiting_list s ! 4 = [a]"
    using p by (simp_all add: passed_by_def)
  have v: "request_valid 1 10 1" "request_valid 10 1 1" by (simp_all add: request_valid_def)
  obtain x t where t: "steps (waits_on a) (AtTop, nobody, s)
      [(Enter 1 (RequestCall 1 10 1) None, False), (Continue 1 0 (Some x) (Some 0), False)] (AtTop, nobody, t)"
      "well_formed t" "started (elevator t) \<noteq> 0" "deactiving (elevator t) = 0" "waiting_list t ! 4 = [a]"
      "lift_of t = lift_request up_zombie (lift_of s)"
    unfolding up_zombie_def by (rule request_passed_by [OF s(1-3) v(1) _ s(4), of AtTop]) simp_all
  obtain y u where u: "steps (waits_on a) (AtTop, nobody, t)
      [(Enter 1 (RequestCall 10 1 1) None, False), (Continue 1 0 (Some y) (Some 0), False)] (AtTop, nobody, u)"
      "well_formed u" "started (elevator u) \<noteq> 0" "deactiving (elevator u) = 0" "waiting_list u ! 4 = [a]"
      "lift_of u = lift_request down_zombie (lift_of t)"
    unfolding down_zombie_def by (rule request_passed_by [OF t(2-4) v(2) _ t(5), of AtTop]) simp_all
  have l: "lift_of u = tour 1 2 rs [up_zombie] [down_zombie] d"
    using p u(6) t(6) by (simp add: passed_by_def tour_defs lift_request_def numeral_nat)
  have "concat (queues (lift_of u)) = [up_zombie, human, down_zombie]" unfolding l by (simp add: tour_def)
  then have "length (concat (waiting_list u)) = 3" by (metis queues_of length_map length_Cons list.size(3) numeral_3_eq_3)
  then have n: "length (concat (waiting_list u)) < 4294967296" by simp
  note half = sweep_to_five [OF rs, of d, folded l]
  obtain ls1 v1 k1 where r1: "steps (waits_on a) (AtTop, nobody, u) ls1 (AtTop, nobody, v1)"
      "map fst ls1 = replicate k1 (Sched 0)" "well_formed v1" "lift_of v1 = (lift_round ^^ 4) (lift_of u)"
      "waiting_list v1 ! 4 = [a]" "started (elevator v1) = started (elevator u)"
      "deactiving (elevator u) = 0 \<longrightarrow> deactiving (elevator v1) = 0" "length (concat (waiting_list v1)) < 4294967296"
    by (rule rounds_wait [OF u(2,5) n, of 4]) (simp_all add: half tour_def)
  have all: "(lift_round ^^ 14) (lift_of v1) = (lift_round ^^ 18) (lift_of u)"
    unfolding r1(4) by (simp flip: funpow_add [THEN fun_cong, unfolded comp_apply])
  have l': "(lift_round ^^ 14) (lift_of v1) = tour 1 2 [down_zombie] [] [] (wrap32 (d + int (length rs) + 1))"
    unfolding all l by (rule sweep_starves [OF rs])
  obtain ls2 s' k2 where r2: "steps (waits_on a) (AtTop, nobody, v1) ls2 (AtTop, nobody, s')"
      "map fst ls2 = replicate k2 (Sched 0)" "well_formed s'" "lift_of s' = (lift_round ^^ 14) (lift_of v1)"
      "waiting_list s' ! 4 = [a]" "started (elevator s') = started (elevator v1)"
      "deactiving (elevator v1) = 0 \<longrightarrow> deactiving (elevator s') = 0" "length (concat (waiting_list s')) < 4294967296"
    by (rule rounds_wait [OF r1(3,5,8), of 14]) (simp_all add: l' tour_def)
  note at5 = lift_state [OF r1(4) [unfolded half] r1(3)]
  have "current_floor (elevator s') = 1" using lift_state(1) [OF r2(4) [unfolded l'] r2(3)] .
  then have "ls2 \<noteq> []" using r2(1) at5(1) by auto
  then have "k2 \<noteq> 0" using arg_cong [OF r2(2), of length] by (cases ls2) auto
  then have "1 \<le> length (filter snd ls2)"
    by (intro round_offers_room [OF r2(1,2) _ r1(3)]) (use at5 in simp_all)
  moreover have "passed_by a [down_zombie] (wrap32 (d + int (length rs) + 1)) s'"
    using r2 r1(6,7) l' u(3,4) by (simp add: passed_by_def)
  ultimately show thesis
    using that [OF steps_append [OF steps_append [OF t(1) u(1)] steps_append [OF r1(1) r2(1)]]]
      scheduler_events [OF r1(2)] scheduler_events [OF r2(2)] by simp
qed

lemma sweeps_pass_by:
  assumes "passed_by a [] 0 s0"
  shows "\<exists>ls s. steps (waits_on a) (AtTop, nobody, s0) ls (AtTop, nobody, s)
      \<and> length (filter (\<lambda>l. accepted (fst l)) ls) = 2 * n + 2 \<and> n + 1 \<le> length (filter snd ls)
      \<and> passed_by a [down_zombie] (wrap32 (2 * int n + 1)) s"
proof (induction n)
  case 0
  obtain ls s where "steps (waits_on a) (AtTop, nobody, s0) ls (AtTop, nobody, s)" "length (filter (\<lambda>l. accepted (fst l)) ls) = 2"
      "1 \<le> length (filter snd ls)" "passed_by a [down_zombie] (wrap32 1) s"
    using sweep_passes_by [OF assms] by auto
  then show ?case by (intro exI [of _ ls] exI [of _ s]) simp
next
  case (Suc n)
  then obtain ls s where ls: "steps (waits_on a) (AtTop, nobody, s0) ls (AtTop, nobody, s)"
      "length (filter (\<lambda>l. accepted (fst l)) ls) = 2 * n + 2" "n + 1 \<le> length (filter snd ls)"
      "passed_by a [down_zombie] (wrap32 (2 * int n + 1)) s" by blast
  obtain ms s' where ms: "steps (waits_on a) (AtTop, nobody, s) ms (AtTop, nobody, s')"
      "length (filter (\<lambda>l. accepted (fst l)) ms) = 2" "1 \<le> length (filter snd ms)"
      "passed_by a [down_zombie] (wrap32 (wrap32 (2 * int n + 1) + 2)) s'"
    using sweep_passes_by [OF ls(4)] by (auto simp: add.assoc)
  have "wrap32 (wrap32 (2 * int n + 1) + 2) = wrap32 (2 * int (Suc n) + 1)"
    by (simp add: wrap32_add_left)
  then show ?case
    using steps_append [OF ls(1) ms(1)] ls(2,3) ms(2-4) by (intro exI [of _ "ls @ ms"] exI [of _ s']) simp
qed

lemma passed_by_fields:
  assumes p: "passed_by a [down_zombie] d s"
  shows "serviced s = d \<and> started (elevator s) \<noteq> 0 \<and> loads (elevator s) = 1
    \<and> waiting_list s ! 4 = [a] \<and> heap s a = Some human"
proof -
  have w: "well_formed s" and l: "lift_of s = tour 1 2 [down_zombie] [] [] d" and q: "waiting_list s ! 4 = [a]"
    using p by (simp_all add: passed_by_def)
  have "riders (lift_of s) = [down_zombie]" "uncounted (lift_of s) = 0" "queues (lift_of s) ! 4 = [human]"
      "delivered (lift_of s) = d" unfolding l by (simp_all add: tour_def)
  then have r: "length (onboard (elevator s)) = 1" "loads (elevator s) \<le> int (length (onboard (elevator s)))"
      "passenger_of s a = human" "serviced s = d"
    using q wf_position(4) [OF w] by (auto simp: lift_of_def dest: arg_cong [of _ _ length])
  have "a \<in> set (linked s)"
    using concat_nth_subset [of 4 "waiting_list s"] q wf_position(4) [OF w] by (auto simp: linked_def)
  then have "heap s a = Some human" using wf_passenger(1) [OF w] r(3) by simp
  then show ?thesis using p r wf_loads_range [OF w] q by (auto simp: passed_by_def)
qed

section \<open>Properties\<close>

text \<open>
  C23. No fairness between passengers: a human asks on floor 5 for floor 1 while nobody else is in
  the building; then, for every \<open>n\<close>, the scheduler and thread 1, which makes requests and never
  stops the elevator, can go on so that after every step this human's entry is the one in the
  queue of floor 5: the same passenger all along. In this time the elevator
  loads on floor 5 with room in the cabin at least \<open>n + 1\<close> times, \<open>2n + 2\<close> requests made after it
  are accepted and \<open>2n + 1\<close> of those are delivered; in the end the elevator is on and carries one passenger.
\<close>

theorem humans_can_starve:
  "\<exists>es0 s0. steps kstep booted es0 (AtTop, nobody, s0)
    \<and> waiting_list s0 ! 4 = [a] \<and> heap s0 = [a \<mapsto> human] \<and> serviced s0 = 0
    \<and> (\<forall>n. \<exists>ls s. steps (waits_on a) (AtTop, nobody, s0) ls (AtTop, nobody, s)
        \<and> n + 1 \<le> length (filter snd ls) \<and> length (filter (\<lambda>l. accepted (fst l)) ls) = 2 * n + 2
        \<and> serviced s = wrap32 (2 * int n + 1) \<and> started (elevator s) \<noteq> 0 \<and> loads (elevator s) = 1
        \<and> heap s a = Some human)"
proof -
  let ?b = "snd (start_elevator boot_state)"
  let ?s0 = "requested_state a 5 1 0 ?b"
  have v: "request_valid 5 1 0" by (simp add: request_valid_def)
  have run: "steps kstep booted ([Enter 1 StartCall None, Continue 1 0 None None, Continue 1 0 None (Some 0)]
      @ [Enter 1 (RequestCall 5 1 0) None, Continue 1 0 (Some a) (Some 0)]) (AtTop, nobody, ?s0)"
    by (rule steps_append [OF started_steps request_steps]) (simp_all add: started_boot v)
  have s0: "waiting_list ?s0 ! 4 = [a]" "heap ?s0 = [a \<mapsto> human]" "serviced ?s0 = 0"
    by (simp_all add: requested_state_def Let_def start_elevator_def boot_explicit human_def numeral_nat)
  have "well_formed ?s0" by (rule wf_requested [OF started_boot(1) v]) (simp add: started_boot)
  moreover have "lift_of ?s0 = tour 1 2 [] [] [] 0"
    using lift_of_requested [OF started_boot(1) v, of a] started_boot(4)
    by (simp add: lift_request_def tour_defs lift_of_def start_elevator_def boot_explicit numeral_nat)
  ultimately have p0: "passed_by a [] 0 ?s0"
    using s0(1) by (simp add: passed_by_def started_boot requested_state_elevator)
  have "\<forall>n. \<exists>ls s. steps (waits_on a) (AtTop, nobody, ?s0) ls (AtTop, nobody, s)
      \<and> n + 1 \<le> length (filter snd ls) \<and> length (filter (\<lambda>l. accepted (fst l)) ls) = 2 * n + 2
      \<and> serviced s = wrap32 (2 * int n + 1) \<and> started (elevator s) \<noteq> 0 \<and> loads (elevator s) = 1
      \<and> heap s a = Some human"
    using sweeps_pass_by [OF p0] passed_by_fields by blast
  then show ?thesis using run s0 by blast
qed

end
