(* ===== verification/LockSteps.thy ===== *)
theory LockSteps
  imports Interleaving
begin

text \<open>
  The critical sections opened up. In \<open>kstep\<close> a section is one step together with its lock, its
  unlock and the frees that follow. Here the lock waits until the mutex is free, the section's
  statements, the unlock and every single \<open>kfree\<close> are steps of their own, and so is the reset of
  \<open>status\<close> after an unloading; the other threads run in between. Every such run is a run of
  \<open>kstep\<close> when one does not look at what only one thread can reach.
\<close>

section \<open>The machine\<close>

text \<open>
  The positions within a section: before the statements, before the unlock, in the loop over the
  local \<open>delete_list\<close>, after it. The first number of an unlock is what the lock call returned;
  when that is not 0 the statements were skipped. \<open>LoadWait\<close> and \<open>LoadBody\<close> keep \<open>unload_sleep\<close>
  and the local \<open>floor\<close>.
\<close>

datatype fsched =
    At sched_pc
  | UnloadBody
  | UnloadUnlock int "addr list" int
  | UnloadFree "addr list" int
  | UnloadEnd int
  | LoadWait int int
  | LoadBody int int
  | LoadUnlock int int int

datatype fcall =
    Call call_pc
  | RequestBody int int int
  | RequestUnlock int int int int
  | StopBody
  | StopUnlock int "addr list"
  | StopFree "addr list"

text \<open>A lock call that is not interrupted waits for the mutex: \<open>None\<close> while another thread has it.\<close>

definition lock_step :: "nat \<Rightarrow> int \<Rightarrow> 'p \<Rightarrow> 'p \<Rightarrow> kstate \<Rightarrow> (fault + ('p \<times> kstate)) option" where
  "lock_step me lk body skip s =
     (if lk = 0 \<and> mutex (thread1 s) \<noteq> None then None
      else Some (Inr (if lk = 0 then body else skip,
        set_mutex (mutex_lock_interruptible me lk (mutex (thread1 s))) s)))"

definition unlock_step :: "nat \<Rightarrow> 'p \<Rightarrow> kstate \<Rightarrow> (fault + ('p \<times> kstate)) option" where
  "unlock_step me p s = Some (rbind (mutex_unlock me (mutex (thread1 s))) (\<lambda>m. Inr (p, set_mutex m s)))"

definition free_step :: "addr \<Rightarrow> 'p \<Rightarrow> kstate \<Rightarrow> (fault + ('p \<times> kstate)) option" where
  "free_step a p s = Some (rbind (kfree a (heap s)) (\<lambda>h. Inr (p, s\<lparr>heap := h\<rparr>)))"

fun fine_sched :: "int \<Rightarrow> fsched \<Rightarrow> kstate \<Rightarrow> (fault + (fsched \<times> kstate)) option" where
  "fine_sched lk (At pc) s =
     (case pc of
        AtUnload \<Rightarrow> lock_step 0 lk UnloadBody (UnloadUnlock lk [] 0) s
      | AtLoad u \<Rightarrow> Some (Inr (if loads (elevator s) < CAPACITY then LoadWait u (current_floor (elevator s))
                             else At (AtRest u 0), s))
      | _ \<Rightarrow> Some (rbind (sched_segment 0 lk pc s) (\<lambda>(pc, s). Inr (At pc, s))))"
| "fine_sched lk UnloadBody s =
     Some (rbind (for_each_safe unload_visit (onboard (elevator s)) (s, [], 0))
       (\<lambda>(s, dl, u). Inr (UnloadUnlock 0 dl u, s)))"
| "fine_sched lk (UnloadUnlock r dl u) s = unlock_step 0 (UnloadFree dl u) s"
| "fine_sched lk (UnloadFree [] u) s = Some (Inr (UnloadEnd u, s))"
| "fine_sched lk (UnloadFree (a # dl) u) s = free_step a (UnloadFree dl u) s"
| "fine_sched lk (UnloadEnd u) s =
     Some (Inr (At (AtLoad u),
       if loads (elevator s) = 0 then s\<lparr>elevator := (elevator s)\<lparr>status := 0\<rparr>\<rparr> else s))"
| "fine_sched lk (LoadWait u floor) s = lock_step 0 lk (LoadBody u floor) (LoadUnlock lk u 0) s"
| "fine_sched lk (LoadBody u floor) s =
     Some (rbind (aget (waiting_list s) (floor - 1)) (\<lambda>q.
       rbind (for_each_safe (load_visit floor) q (s, 0)) (\<lambda>(s, l). Inr (LoadUnlock 0 u l, s))))"
| "fine_sched lk (LoadUnlock r u l) s = unlock_step 0 (At (AtRest u l)) s"

fun fine_call ::
  "nat \<Rightarrow> int \<Rightarrow> addr option \<Rightarrow> fcall \<Rightarrow> kstate \<Rightarrow> (fault + ((fcall \<times> int option) \<times> kstate)) option" where
  "fine_call me lk km (Call p) s =
     (case p of
        RequestLock start dest type \<Rightarrow>
          lock_step me lk (RequestBody start dest type, None) (RequestUnlock lk start dest type, None) s
      | StopLock \<Rightarrow> lock_step me lk (StopBody, None) (StopUnlock lk [], None) s
      | _ \<Rightarrow> Some (rbind (call_segment me lk km p s) (\<lambda>((p, r), s). Inr ((Call p, r), s))))"
| "fine_call me lk km (RequestBody start dest type) s =
     Some (rbind (if deactiving (elevator s) = 0 then enqueue_passenger km start dest type s else Inr s)
       (\<lambda>s. Inr ((RequestUnlock 0 start dest type, None), s)))"
| "fine_call me lk km (RequestUnlock r start dest type) s = unlock_step me (Call Ready, Some 0) s"
| "fine_call me lk km StopBody s =
     Some (rbind (unlink_onboard (s, [])) (\<lambda>(s, dl). Inr ((StopUnlock 0 dl, None), s)))"
| "fine_call me lk km (StopUnlock r dl) s = unlock_step me (StopFree dl, None) s"
| "fine_call me lk km (StopFree []) s = Some (Inr ((Call Ready, Some 0), s))"
| "fine_call me lk km (StopFree (a # dl)) s = free_step a (StopFree dl, None) s"

type_synonym fsys = "fsched \<times> (nat \<Rightarrow> fcall) \<times> kstate"

datatype fevent =
    FSched int
  | FEnter nat call "int option"
  | FCall nat int "addr option" "int option"

definition fresh_fine :: "addr option \<Rightarrow> fcall \<Rightarrow> kstate \<Rightarrow> bool" where
  "fresh_fine km q s \<longleftrightarrow> (case km of None \<Rightarrow> True
     | Some a \<Rightarrow> heap s a = None \<and> deactiving (elevator s) = 0
         \<and> (case q of RequestBody _ _ _ \<Rightarrow> True | _ \<Rightarrow> False))"

inductive fstep :: "fsys \<Rightarrow> fevent \<Rightarrow> fsys \<Rightarrow> bool" where
  fstep_sched: "fine_sched lk p s = Some (Inr (p', s')) \<Longrightarrow> fstep (p, c, s) (FSched lk) (p', c, s')"
| fstep_enter: "0 < me \<Longrightarrow> c me = Call Ready \<Longrightarrow> enter_call call s = (q, r) \<Longrightarrow>
     fstep (p, c, s) (FEnter me call r) (p, c(me := Call q), s)"
| fstep_call: "c me \<noteq> Call Ready \<Longrightarrow> fresh_fine km (c me) s \<Longrightarrow>
     fine_call me lk km (c me) s = Some (Inr ((q, r), s')) \<Longrightarrow>
     fstep (p, c, s) (FCall me lk km r) (p, c(me := q), s')"

text \<open>The machine run on a list of events.\<close>

fun fine_next :: "fevent \<Rightarrow> fsys \<Rightarrow> fsys option" where
  "fine_next (FSched lk) (p, c, s) =
     (case fine_sched lk p s of Some (Inr (p', s')) \<Rightarrow> Some (p', c, s') | _ \<Rightarrow> None)"
| "fine_next (FEnter me call r) (p, c, s) =
     (if 0 < me \<and> c me = Call Ready \<and> snd (enter_call call s) = r
      then Some (p, c(me := Call (fst (enter_call call s))), s) else None)"
| "fine_next (FCall me lk km r) (p, c, s) =
     (if c me \<noteq> Call Ready \<and> fresh_fine km (c me) s then
        (case fine_call me lk km (c me) s of
           Some (Inr ((q, r'), s')) \<Rightarrow> if r' = r then Some (p, c(me := q), s') else None
         | _ \<Rightarrow> None)
      else None)"

fun run_fine :: "fevent list \<Rightarrow> fsys \<Rightarrow> fsys option" where
  "run_fine [] x = Some x"
| "run_fine (e # es) x = (case fine_next e x of Some y \<Rightarrow> run_fine es y | None \<Rightarrow> None)"

lemma fine_next_step: "fine_next e x = Some y \<Longrightarrow> fstep x e y"
proof (induction e x rule: fine_next.induct)
  case (1 lk p c s)
  then show ?case by (auto intro: fstep_sched split: option.splits sum.splits)
next
  case (2 me call r p c s)
  then show ?case by (auto intro: fstep_enter split: if_splits)
next
  case (3 me lk km r p c s)
  then show ?case by (auto intro: fstep_call split: option.splits sum.splits if_splits)
qed

lemma run_fine_steps: "run_fine es x = Some y \<Longrightarrow> steps fstep x es y"
  by (induction es arbitrary: x) (auto dest: fine_next_step split: option.splits)

definition fine_booted :: fsys where
  "fine_booted = (At AtTop, \<lambda>_. Call Ready, boot_state)"

section \<open>What the other threads see\<close>

text \<open>Where a thread is in \<open>kstep\<close>: a section has happened once its statements have run.\<close>

fun sched_at :: "fsched \<Rightarrow> sched_pc" where
  "sched_at (At pc) = pc"
| "sched_at UnloadBody = AtUnload"
| "sched_at (UnloadUnlock r dl u) = (if r = 0 then AtLoad u else AtUnload)"
| "sched_at (UnloadFree dl u) = AtLoad u"
| "sched_at (UnloadEnd u) = AtLoad u"
| "sched_at (LoadWait u floor) = AtLoad u"
| "sched_at (LoadBody u floor) = AtLoad u"
| "sched_at (LoadUnlock r u l) = (if r = 0 then AtRest u l else AtLoad u)"

fun call_at :: "fcall \<Rightarrow> call_pc" where
  "call_at (Call p) = p"
| "call_at (RequestBody start dest type) = RequestLock start dest type"
| "call_at (RequestUnlock r start dest type) = (if r = 0 then Ready else RequestLock start dest type)"
| "call_at StopBody = StopLock"
| "call_at (StopUnlock r dl) = (if r = 0 then Ready else StopLock)"
| "call_at (StopFree dl) = Ready"

text \<open>The entries on a local \<open>delete_list\<close>, not freed yet.\<close>

fun sched_list :: "fsched \<Rightarrow> addr list" where
  "sched_list (UnloadUnlock r dl u) = dl"
| "sched_list (UnloadFree dl u) = dl"
| "sched_list p = []"

fun call_list :: "fcall \<Rightarrow> addr list" where
  "call_list (StopUnlock r dl) = dl"
| "call_list (StopFree dl) = dl"
| "call_list q = []"

definition delete_list :: "fsched \<Rightarrow> (nat \<Rightarrow> fcall) \<Rightarrow> nat \<Rightarrow> addr list" where
  "delete_list p c t = (if t = 0 then sched_list p else call_list (c t))"

definition pending :: "(nat \<Rightarrow> addr list) \<Rightarrow> addr set" where
  "pending d = (\<Union>t. set (d t))"

text \<open>The reset of \<open>status\<close> that is still to come.\<close>

fun settles :: "fsched \<Rightarrow> bool" where
  "settles (UnloadUnlock r dl u) \<longleftrightarrow> r = 0"
| "settles (UnloadFree dl u) \<longleftrightarrow> True"
| "settles (UnloadEnd u) \<longleftrightarrow> True"
| "settles p \<longleftrightarrow> False"

definition clean :: "addr set \<Rightarrow> bool \<Rightarrow> kstate \<Rightarrow> kstate" where
  "clean P z s = s\<lparr>thread1 := (thread1 s)\<lparr>mutex := None\<rparr>, heap := heap s |` (- P),
     elevator := (elevator s)\<lparr>status := if z \<and> loads (elevator s) = 0 then 0 else status (elevator s)\<rparr>\<rparr>"

definition seen_as :: "fsys \<Rightarrow> sys" where
  "seen_as = (\<lambda>(p, c, s). (sched_at p, \<lambda>t. call_at (c t), clean (pending (delete_list p c)) (settles p) s))"

section \<open>The invariant\<close>

fun sched_holds :: "fsched \<Rightarrow> bool" where
  "sched_holds UnloadBody \<longleftrightarrow> True"
| "sched_holds (UnloadUnlock r dl u) \<longleftrightarrow> r = 0"
| "sched_holds (LoadBody u floor) \<longleftrightarrow> True"
| "sched_holds (LoadUnlock r u l) \<longleftrightarrow> r = 0"
| "sched_holds p \<longleftrightarrow> False"

fun call_holds :: "fcall \<Rightarrow> bool" where
  "call_holds (RequestBody start dest type) \<longleftrightarrow> True"
| "call_holds (RequestUnlock r start dest type) \<longleftrightarrow> r = 0"
| "call_holds StopBody \<longleftrightarrow> True"
| "call_holds (StopUnlock r dl) \<longleftrightarrow> r = 0"
| "call_holds q \<longleftrightarrow> False"

text \<open>Thread \<open>t\<close> is inside its critical section.\<close>

definition inside :: "fsys \<Rightarrow> nat \<Rightarrow> bool" where
  "inside = (\<lambda>(p, c, s) t. if t = 0 then sched_holds p else call_holds (c t))"

definition lists_ok :: "(nat \<Rightarrow> addr list) \<Rightarrow> (addr \<rightharpoonup> 'o) \<Rightarrow> bool" where
  "lists_ok d h \<longleftrightarrow> (\<forall>t. distinct (d t) \<and> set (d t) \<subseteq> dom h)
     \<and> (\<forall>t u. t \<noteq> u \<longrightarrow> set (d t) \<inter> set (d u) = {})"

fun load_ok :: "fsched \<Rightarrow> kstate \<Rightarrow> bool" where
  "load_ok (LoadWait u floor) s \<longleftrightarrow> floor = current_floor (elevator s) \<and> loads (elevator s) < CAPACITY"
| "load_ok (LoadBody u floor) s \<longleftrightarrow> floor = current_floor (elevator s) \<and> loads (elevator s) < CAPACITY"
| "load_ok p s \<longleftrightarrow> True"

definition fine_ok :: "fsys \<Rightarrow> bool" where
  "fine_ok x = (case x of (p, c, s) \<Rightarrow> sys_ok (seen_as x) \<and> (\<forall>t. mutex (thread1 s) = Some t \<longleftrightarrow> inside x t)
     \<and> lists_ok (delete_list p c) (heap s) \<and> load_ok p s \<and> c 0 = Call Ready)"

section \<open>Local lists\<close>

lemma delete_list_sched: "delete_list p' c = (delete_list p c)(0 := sched_list p')"
  by (auto simp: delete_list_def fun_eq_iff)

lemma delete_list_call: "me \<noteq> 0 \<Longrightarrow> delete_list p (c(me := q)) = (delete_list p c)(me := call_list q)"
  by (auto simp: delete_list_def fun_eq_iff)

lemma delete_list_same:
  "sched_list p' = sched_list p \<Longrightarrow> delete_list p' c = delete_list p c"
  "call_list q = call_list (c me) \<Longrightarrow> delete_list p (c(me := q)) = delete_list p c"
  by (auto simp: delete_list_def fun_eq_iff)

lemma pending_dom: "lists_ok d h \<Longrightarrow> a \<in> pending d \<Longrightarrow> h a \<noteq> None"
  by (auto simp: lists_ok_def pending_def)

lemma lists_take:
  assumes "lists_ok d h" and "d t = []" and "distinct X" and "set X \<subseteq> dom h" and "set X \<inter> pending d = {}"
  shows "lists_ok (d(t := X)) h" and "pending (d(t := X)) = pending d \<union> set X"
proof -
  have "set X \<inter> set (d u) = {}" for u using assms(5) by (auto simp: pending_def)
  then show "lists_ok (d(t := X)) h" using assms(1,3,4) unfolding lists_ok_def by auto
  show "pending (d(t := X)) = pending d \<union> set X"
  proof
    show "pending (d(t := X)) \<subseteq> pending d \<union> set X" by (auto simp: pending_def split: if_splits)
    have "set (d u) \<subseteq> pending (d(t := X))" for u
      using assms(2) by (cases "u = t") (auto simp: pending_def intro: exI [of _ u])
    moreover have "set X \<subseteq> pending (d(t := X))" by (auto simp: pending_def intro: exI [of _ t])
    ultimately show "pending d \<union> set X \<subseteq> pending (d(t := X))" by (auto simp: pending_def)
  qed
qed

lemma lists_free:
  assumes "lists_ok d h" and "d t = a # l"
  shows "lists_ok (d(t := l)) (h(a := None))" and "pending (d(t := l)) = pending d - {a}" and "h a \<noteq> None"
    and "a \<in> pending d"
proof -
  show "a \<in> pending d" using assms(2) by (auto simp: pending_def intro: exI [of _ t])
  have a: "a \<notin> set l" "distinct l" "set l \<subseteq> dom h" "h a \<noteq> None"
    using assms unfolding lists_ok_def by (metis distinct.simps(2), metis distinct.simps(2),
        metis list.set_intros(2) subsetI subset_trans, metis domD list.set_intros(1) option.distinct(1) subsetD)
  have o: "a \<notin> set (d u)" "set l \<inter> set (d u) = {}" if "u \<noteq> t" for u
    using assms that unfolding lists_ok_def by (metis disjoint_iff list.set_intros(1),
        metis disjoint_iff list.set_intros(2))
  show "h a \<noteq> None" by (rule a(4))
  show "lists_ok (d(t := l)) (h(a := None))"
    using assms(1) a o unfolding lists_ok_def by auto
  have "set (d u) \<subseteq> insert a (set ((d(t := l)) u))" for u using assms(2) by auto
  moreover have "set ((d(t := l)) u) \<subseteq> set (d u)" "a \<notin> set ((d(t := l)) u)" for u
    using assms(2) a(1) o(1) [of u] by auto
  ultimately show "pending (d(t := l)) = pending d - {a}" unfolding pending_def by blast
qed

lemma lists_more: "lists_ok d h \<Longrightarrow> lists_ok d (h(a \<mapsto> v))"
  unfolding lists_ok_def by auto

section \<open>The steps, seen from outside\<close>

lemma clean_fields [simp]:
  "waiting_list (clean P z s) = waiting_list s" "waiting_on_floor (clean P z s) = waiting_on_floor s"
  "num_waiting (clean P z s) = num_waiting s" "serviced (clean P z s) = serviced s"
  "heap (clean P z s) = heap s |` (- P)" "mutex (thread1 (clean P z s)) = None"
  "onboard (elevator (clean P z s)) = onboard (elevator s)" "loads (elevator (clean P z s)) = loads (elevator s)"
  "started (elevator (clean P z s)) = started (elevator s)"
  "deactiving (elevator (clean P z s)) = deactiving (elevator s)"
  "current_floor (elevator (clean P z s)) = current_floor (elevator s)"
  "next_floor (elevator (clean P z s)) = next_floor (elevator s)"
  "state (elevator (clean P z s)) = state (elevator s)"
  "status (elevator (clean P False s)) = status (elevator s)" "clock (clean P z s) = clock s"
  by (simp_all add: clean_def)

lemma clean_set_mutex [simp]: "clean P z (set_mutex m s) = clean P z s"
  by (simp add: clean_def set_mutex_def)

lemma clean_linked:
  assumes "well_formed (clean P z s)" and "a \<in> set (linked s)"
  shows "a \<notin> P" and "heap s a \<noteq> None"
proof -
  have "a \<in> set (linked (clean P z s))" using assms(2) by (simp add: linked_def)
  then have "heap (clean P z s) a \<noteq> None" using wf_passenger(1) [OF assms(1)] by simp
  then show "a \<notin> P" "heap s a \<noteq> None" by (auto simp: restrict_map_def split: if_splits)
qed

text \<open>A segment of the scheduler without a lock does the same to what is seen.\<close>

lemma unlocked_segment:
  assumes "pc \<noteq> AtUnload" and "\<And>u. pc \<noteq> AtLoad u" and "sched_segment 0 lk pc s = Inr (pc', s')"
  shows "sched_segment 0 lk pc (clean P False s) = Inr (pc', clean P False s')"
    and "heap s' = heap s" and "thread1 s' = thread1 s"
  using assms
  by (cases pc; force simp: clean_def has_work_def ssleep_def set_state_def changeElevatorState_def
      moveElevator_def move_up_def move_down_def split: if_splits)+

lemma unlocked_call_segment:
  assumes "\<not> (\<exists>a b t. q = RequestLock a b t)" and "q \<noteq> StopLock" and "call_segment me lk km q s = Inr ((q', r), s')"
  shows "call_segment me lk km q (clean P z s) = Inr ((q', r), clean P z s')"
    and "heap s' = heap s" and "thread1 s' = thread1 s" and "loads (elevator s') = loads (elevator s)"
    and "current_floor (elevator s') = current_floor (elevator s)"
  using assms by (cases q; auto simp: clean_def)+

lemma leaves_clean:
  "a \<notin> P \<Longrightarrow> leaves (clean P z s) a = leaves s a"
  by (simp add: leaves_def restrict_map_def)

lemma zombie_at_clean: "a \<notin> P \<Longrightarrow> zombie_at (clean P z s) a = zombie_at s a"
  by (simp add: zombie_at_def restrict_map_def)

lemma unload_body:
  assumes w: "well_formed (clean P False s)"
  obtains s' out u where "for_each_safe unload_visit (onboard (elevator s)) (s, [], 0) = Inr (s', out, u)"
    and "sched_segment 0 0 AtUnload (clean P False s) = Inr (AtLoad u, clean (P \<union> set out) True s')"
    and "heap s' = heap s" and "thread1 s' = thread1 s"
    and "distinct out" and "set out \<subseteq> dom (heap s)" and "set out \<inter> P = {}"
proof -
  let ?c = "clean P False s" and ?on = "onboard (elevator s)"
  let ?out = "filter (leaves s) ?on"
  have on: "set ?on \<subseteq> set (linked s)" by (simp add: linked_def)
  have out: "filter (leaves ?c) ?on = ?out" "filter (\<lambda>a. \<not> leaves ?c a) ?on = filter (\<lambda>a. \<not> leaves s a) ?on"
    using clean_linked(1) [OF w] on by (auto intro!: filter_cong simp: leaves_clean)
  have d: "distinct ?on" using wfD(1) [OF w] by (simp add: links_ok_def linked_def)
  have h: "set ?on \<subseteq> dom (heap s)" using clean_linked(2) [OF w] on by blast
  obtain S where S: "serviced s = wrap32 S" using wfD(4) [OF w] by (auto simp: counts_ok_def)
  have l: "0 \<le> loads (elevator s)" "loads (elevator s) \<le> 10" "int (length ?on) \<le> loads (elevator s)"
    using wf_loads_range [OF w] by simp_all
  moreover have "int (length ?out) \<le> int (length ?on)" by simp
  ultimately have "0 \<le> loads (elevator s) - int (length ?out)" by linarith
  then have L: "loads (elevator s) = wrap32 (loads (elevator s))"
      "wrap32 (loads (elevator s) - int (length ?out)) = loads (elevator s) - int (length ?out)"
    using l by (simp_all add: wrap32_id del: of_nat_diff)
  let ?s = "s\<lparr>elevator := (elevator s)\<lparr>onboard := filter (\<lambda>a. \<not> leaves s a) ?on,
      loads := loads (elevator s) - int (length ?out)\<rparr>, serviced := wrap32 (serviced s + int (length ?out))\<rparr>"
  have loop: "for_each_safe unload_visit ?on (s, [], 0) = Inr (?s, ?out, if ?out = [] then 0 else 1)"
    using unload_loop [of s "[]" ?on "loads (elevator s)" S "[]" 0] d h S L by simp
  have "unloaded_state ?c = clean (P \<union> set ?out) True ?s"
    unfolding unloaded_state_def clean_fields out Let_def
    by (rule kstate.equality) (auto simp: clean_def fun_eq_iff restrict_map_def)
  then have "sched_segment 0 0 AtUnload ?c =
      Inr (AtLoad (if ?out = [] then 0 else 1), clean (P \<union> set ?out) True ?s)"
    by (simp add: unloadPassengers_eq [OF w] out res_simps)
  moreover have "set ?out \<inter> P = {}" using clean_linked(1) [OF w] on by auto
  moreover have "set ?out \<subseteq> dom (heap s)" using h by auto
  ultimately show thesis using that [OF loop] d by simp
qed

lemma load_result_clean:
  assumes "\<And>a. a \<in> set b \<Longrightarrow> zombie_at (clean P False s) a = zombie_at s a"
  shows "load_result i r b (clean P False s) = clean P False (load_result i r b s)"
proof -
  have "(\<exists>a \<in> set b. zombie_at (clean P False s) a) \<longleftrightarrow> (\<exists>a \<in> set b. zombie_at s a)" using assms by blast
  then show ?thesis
    unfolding load_result_def by (intro kstate.equality) (simp_all add: clean_def)
qed

lemma load_body:
  assumes w: "well_formed (clean P False s)" and "loads (elevator s) < CAPACITY"
  obtains q s' l where "aget (waiting_list s) (current_floor (elevator s) - 1) = Inr q"
    and "for_each_safe (load_visit (current_floor (elevator s))) q (s, 0) = Inr (s', l)"
    and "sched_segment 0 0 (AtLoad u) (clean P False s) = Inr (AtRest u l, clean P False s')"
    and "heap s' = heap s" and "thread1 s' = thread1 s"
proof -
  let ?c = "clean P False s" and ?f = "current_floor (elevator s)"
  let ?q = "queue_here s"
  note pos = wf_position [OF w, simplified]
  have q: "set ?q \<subseteq> set (linked s)"
    using concat_nth_subset [of "nat (?f - 1)" "waiting_list s"] pos by (auto simp: linked_def)
  have "at_queue ?f ?q ?c" using wf_at_queue [OF w] by simp
  moreover have "heap ?c a = heap s a" if "a \<in> set ?q" for a
    using clean_linked(1) [OF w] that q by (auto simp: restrict_map_def)
  ultimately have at: "at_queue ?f ?q s" unfolding at_queue_def by simp
  have z: "zombie_at ?c a = zombie_at s a" if "a \<in> set ?q" for a
    using clean_linked(1) [OF w] that q by (auto simp: zombie_at_clean)
  have b: "boarding (zombie_at ?c) (nat (10 - loads (elevator s))) (status (elevator s) = 1) ?q = boards_here s ?q"
    by (rule boarding_cong [OF z])
  have zb: "zombie_at ?c a = zombie_at s a" if "a \<in> set (boards_here s ?q)" for a
    using z that set_boarding by (meson subsetD)
  let ?s = "load_result (nat (?f - 1)) (filter (\<lambda>a. a \<notin> set (boards_here s ?q)) ?q) (boards_here s ?q) s"
  let ?l = "if boards_here s ?q = [] then 0 else 1"
  have loop: "for_each_safe (load_visit ?f) ?q (s, 0) = Inr (?s, ?l)"
    using load_loop [OF at, of "[]" 0] by simp
  have "loaded_state ?c = clean P False ?s"
    unfolding loaded_state_def Let_def clean_fields b by (rule load_result_clean [OF zb])
  then have "sched_segment 0 0 (AtLoad u) ?c = Inr (AtRest u ?l, clean P False ?s)"
    using assms(2) b by (simp add: loadPassengers_eq [OF w] res_simps)
  moreover have "aget (waiting_list s) (?f - 1) = Inr ?q" using pos by (simp add: res_simps)
  ultimately show thesis using that [OF _ loop] by (simp add: load_result_fields)
qed

lemma request_body:
  assumes w: "well_formed (clean P z s)" and v: "request_valid start dest type"
    and fresh: "fresh_fine km (RequestBody start dest type) s"
    and P: "\<And>a. a \<in> P \<Longrightarrow> heap s a \<noteq> None"
    and body: "(if deactiving (elevator s) = 0 then enqueue_passenger km start dest type s else Inr s) = Inr s'"
  shows "call_segment me 0 km (RequestLock start dest type) (clean P z s) = Inr ((Ready, Some 0), clean P z s')"
    and "fresh km (RequestLock start dest type) (clean P z s)"
    and "heap s' = heap s \<or> (\<exists>a p. heap s' = (heap s)(a \<mapsto> p))" and "thread1 s' = thread1 s"
    and "elevator s' = elevator s"
proof -
  let ?c = "clean P z s"
  have f: "fresh km (RequestLock start dest type) ?c"
    using fresh by (simp add: fresh_fine_def fresh_def restrict_map_def split: option.splits)
  show "fresh km (RequestLock start dest type) ?c" by (rule f)
  have "call_segment me 0 km (RequestLock start dest type) ?c = Inr ((Ready, Some 0), clean P z s')
      \<and> (heap s' = heap s \<or> (\<exists>a p. heap s' = (heap s)(a \<mapsto> p))) \<and> thread1 s' = thread1 s \<and> elevator s' = elevator s"
  proof (cases "deactiving (elevator s) = 0")
    case False
    then show ?thesis using body request_critical_ignored [OF w] by (simp add: res_simps)
  next
    case True
    then obtain a where a: "km = Some a" "heap s a = None"
      using body fresh by (cases km) (auto simp: enqueue_passenger_def fresh_fine_def)
    have n: "length (waiting_list s) = 10" "length (waiting_on_floor s) = 10"
      using wf_position [OF w] by simp_all
    have "set_mutex (mutex (thread1 s)) s = s" by (rule kstate.equality) (simp_all add: set_mutex_def)
    moreover have "set_mutex (mutex (thread1 s)) (requested_state a start dest type s) = requested_state a start dest type s"
      by (rule kstate.equality) (simp_all add: set_mutex_def requested_state_mutex)
    ultimately have s': "s' = requested_state a start dest type s"
      using body True a enqueue_passenger_eq [OF n, of start a dest type "mutex (thread1 s)"] v
      by (simp add: request_valid_def)
    have "a \<notin> P" using P a(2) by blast
    then have "requested_state a start dest type ?c = clean P z s'"
      unfolding s' requested_state_def Let_def
      by (intro kstate.equality) (auto simp: clean_def fun_eq_iff restrict_map_def)
    moreover have "request_critical me 0 km start dest type ?c = Inr (0, requested_state a start dest type ?c)"
      unfolding a(1) by (rule request_critical_queues) (use n True v in simp_all)
    ultimately show ?thesis using s' by (auto simp: res_simps requested_state_def Let_def)
  qed
  then show "call_segment me 0 km (RequestLock start dest type) ?c = Inr ((Ready, Some 0), clean P z s')"
    and "heap s' = heap s \<or> (\<exists>a p. heap s' = (heap s)(a \<mapsto> p))" and "thread1 s' = thread1 s"
    and "elevator s' = elevator s" by blast+
qed

lemma stop_body:
  assumes w: "well_formed (clean P z s)"
  obtains s' dl where "unlink_onboard (s, []) = Inr (s', dl)"
    and "call_segment me 0 None StopLock (clean P z s) = Inr ((Ready, Some 0), clean (P \<union> set dl) z s')"
    and "heap s' = heap s" and "thread1 s' = thread1 s" and "loads (elevator s') = loads (elevator s)"
    and "current_floor (elevator s') = current_floor (elevator s)"
    and "distinct dl" and "set dl \<subseteq> dom (heap s)" and "set dl \<inter> P = {}"
proof -
  let ?on = "onboard (elevator s)" and ?s = "s\<lparr>elevator := (elevator s)\<lparr>onboard := []\<rparr>\<rparr>"
  have on: "set ?on \<subseteq> set (linked s)" by (simp add: linked_def)
  have "offloaded_state (clean P z s) = clean (P \<union> set ?on) z ?s"
    by (rule kstate.equality) (auto simp: offloaded_state_def clean_def fun_eq_iff restrict_map_def)
  then have "call_segment me 0 None StopLock (clean P z s) = Inr ((Ready, Some 0), clean (P \<union> set ?on) z ?s)"
    by (simp add: stop_offload_eq [OF w] res_simps)
  moreover have "unlink_onboard (s, []) = Inr (?s, ?on)" by (simp add: unlink_onboard_eq)
  moreover have "distinct ?on" using wfD(1) [OF w] by (simp add: links_ok_def linked_def)
  moreover have "set ?on \<inter> P = {}" "set ?on \<subseteq> dom (heap s)"
    using clean_linked [OF w] on by blast+
  ultimately show thesis using that by simp
qed

section \<open>The simulation\<close>

lemma fine_okD:
  assumes "fine_ok (p, c, s)"
  shows "well_formed (clean (pending (delete_list p c)) (settles p) s)"
    and "mutex (thread1 s) = Some t \<longleftrightarrow> inside (p, c, s) t"
    and "lists_ok (delete_list p c) (heap s)" and "load_ok p s" and "c 0 = Call Ready"
    and "call_ok (call_at (c t))"
  using assms by (auto simp: fine_ok_def seen_as_def sys_ok_def)

text \<open>The part of the invariant that is about the fine machine itself.\<close>

definition own_ok :: "fsys \<Rightarrow> bool" where
  "own_ok x = (case x of (p, c, s) \<Rightarrow> (\<forall>t. mutex (thread1 s) = Some t \<longleftrightarrow> inside x t)
     \<and> lists_ok (delete_list p c) (heap s) \<and> load_ok p s \<and> c 0 = Call Ready)"

lemma fine_ok_own: "fine_ok x \<longleftrightarrow> sys_ok (seen_as x) \<and> own_ok x"
  by (cases x) (simp add: fine_ok_def own_ok_def)

lemma lock_step_result:
  assumes "lock_step me lk b k s = Some (Inr (p, s'))"
  obtains (taken) "lk = 0" "mutex (thread1 s) = None" "p = b" "s' = set_mutex (Some me) s"
  | (interrupted) "lk \<noteq> 0" "p = k" "s' = set_mutex (mutex (thread1 s)) s"
  using assms by (auto simp: lock_step_def mutex_lock_interruptible_def split: if_splits)

lemma unlock_step_result:
  assumes "unlock_step me q s = Some (Inr (p, s'))"
  shows "mutex (thread1 s) = Some me" and "p = q" and "s' = set_mutex None s"
  using assms by (auto simp: unlock_step_def mutex_unlock_def split: if_splits)

lemma free_step_result:
  assumes "free_step a q s = Some (Inr (p, s'))"
  shows "p = q" and "s' = s\<lparr>heap := (heap s)(a := None)\<rparr>"
  using assms by (auto simp: free_step_def kfree_def rbind_eq_Inr split: option.splits)

lemma clean_free: "a \<in> P \<Longrightarrow> clean (P - {a}) z (s\<lparr>heap := (heap s)(a := None)\<rparr>) = clean P z s"
  by (rule kstate.equality) (auto simp: clean_def fun_eq_iff restrict_map_def)

lemma clean_settle:
  "clean P False (if loads (elevator s) = 0 then s\<lparr>elevator := (elevator s)\<lparr>status := 0\<rparr>\<rparr> else s) = clean P True s"
  by (simp add: clean_def)

lemma sched_step:
  assumes st: "fine_sched lk p s = Some (Inr (p', s'))" and ok: "fine_ok (p, c, s)"
  shows "own_ok (p', c, s') \<and> (seen_as (p', c, s') = seen_as (p, c, s)
    \<or> (\<exists>e. kstep (seen_as (p, c, s)) e (seen_as (p', c, s'))))"
proof -
  let ?d = "delete_list p c" and ?k = "\<lambda>t. call_at (c t)"
  note okD = fine_okD [OF ok]
  have d0: "?d 0 = sched_list p" by (simp add: delete_list_def)
  have kst: "kstep (pc, ?k, a) (Sched 0) (pc', ?k, b)" if "sched_segment 0 0 pc a = Inr (pc', b)" for pc a pc' b
    using that by (rule kstep_sched)
  have same: "delete_list p' c = ?d" if "sched_list p' = sched_list p" using delete_list_same(1) that .
  note defs = own_ok_def seen_as_def inside_def
  have own: "mutex (thread1 s) = Some 0 \<longleftrightarrow> sched_holds p"
      "\<And>t. 0 < t \<Longrightarrow> mutex (thread1 s) = Some t \<longleftrightarrow> call_holds (c t)"
    using okD(2) by (simp_all add: inside_def)
  show ?thesis
  proof (cases p)
    case (At pc)
    consider "pc = AtUnload" | u where "pc = AtLoad u" | "pc \<noteq> AtUnload" "\<And>u. pc \<noteq> AtLoad u" by metis
    then show ?thesis
    proof cases
      case 1
      then have "lock_step 0 lk UnloadBody (UnloadUnlock lk [] 0) s = Some (Inr (p', s'))" using st At by simp
      then show ?thesis
        by (cases rule: lock_step_result) (use At 1 okD same own in \<open>auto simp: defs\<close>)
    next
      case (2 u)
      then show ?thesis
        using st At okD same own kst [of "AtLoad u" "clean (pending ?d) False s" "AtRest u 0"]
        by (cases "loads (elevator s) < CAPACITY") (auto simp: defs)
    next
      case 3
      then have "rbind (sched_segment 0 lk pc s) (\<lambda>(pc, s). Inr (At pc, s)) = Inr (p', s')"
        using st At by (cases pc) auto
      then obtain pc' where r: "sched_segment 0 lk pc s = Inr (pc', s')" "p' = At pc'"
        by (auto simp: rbind_eq_Inr)
      note o = unlocked_segment [OF 3 r(1)]
      have "kstep (seen_as (p, c, s)) (Sched lk) (seen_as (p', c, s'))"
        unfolding At r(2) seen_as_def prod.case sched_at.simps settles.simps
        using o(1) same At r(2) by (simp add: kstep_sched)
      then show ?thesis using o(2,3) okD same own At r(2) by (auto simp: defs)
    qed
  next
    case UnloadBody
    have "well_formed (clean (pending ?d) False s)" using okD(1) UnloadBody by simp
    then obtain s1 out u where b: "for_each_safe unload_visit (onboard (elevator s)) (s, [], 0) = Inr (s1, out, u)"
        "sched_segment 0 0 AtUnload (clean (pending ?d) False s) = Inr (AtLoad u, clean (pending ?d \<union> set out) True s1)"
        "heap s1 = heap s" "thread1 s1 = thread1 s" "distinct out" "set out \<subseteq> dom (heap s)" "set out \<inter> pending ?d = {}"
      by (rule unload_body)
    then have y: "p' = UnloadUnlock 0 out u" "s' = s1" using st UnloadBody by (simp_all add: res_simps)
    have d: "delete_list p' c = ?d(0 := out)" using delete_list_sched [of p' c p] y by simp
    have t: "lists_ok (?d(0 := out)) (heap s)" "pending (?d(0 := out)) = pending ?d \<union> set out"
      by (rule lists_take [OF okD(3)]; use d0 UnloadBody b in simp)+
    show ?thesis
      using kst [OF b(2)] y t b(3,4) okD(5) own UnloadBody d by (auto simp: defs)
  next
    case (UnloadUnlock r dl u)
    then have u: "mutex (thread1 s) = Some 0" "p' = UnloadFree dl u" "s' = set_mutex None s"
      using st unlock_step_result by auto
    then have "r = 0" using own(1) UnloadUnlock by simp
    moreover have "\<not> call_holds (c t)" if "0 < t" for t using own(2) [OF that] u(1) that by auto
    ultimately show ?thesis using u UnloadUnlock okD same by (auto simp: defs)
  next
    case (UnloadFree dl u)
    show ?thesis
    proof (cases dl)
      case Nil
      then show ?thesis using st UnloadFree okD same own by (auto simp: defs)
    next
      case (Cons a l)
      then have f: "p' = UnloadFree l u" "s' = s\<lparr>heap := (heap s)(a := None)\<rparr>"
        using st UnloadFree free_step_result [of a "UnloadFree l u" s] by auto
      have d: "delete_list p' c = ?d(0 := l)" using delete_list_sched [of p' c p] f by simp
      have "?d 0 = a # l" using d0 UnloadFree Cons by simp
      note l = lists_free [OF okD(3) this]
      show ?thesis using f l d okD own UnloadFree clean_free [OF l(4)] by (auto simp: defs)
    qed
  next
    case (UnloadEnd u)
    then have y: "p' = At (AtLoad u)" "thread1 s' = thread1 s" "heap s' = heap s"
        "clean (pending ?d) False s' = clean (pending ?d) True s"
      using st clean_settle [of "pending ?d" s] by auto
    then show ?thesis using okD same own UnloadEnd by (auto simp: defs)
  next
    case (LoadWait u floor)
    then have "lock_step 0 lk (LoadBody u floor) (LoadUnlock lk u 0) s = Some (Inr (p', s'))" using st by simp
    then show ?thesis
      by (cases rule: lock_step_result) (use LoadWait okD same own in \<open>auto simp: defs\<close>)
  next
    case (LoadBody u floor)
    then have w: "well_formed (clean (pending ?d) False s)" and f: "floor = current_floor (elevator s)"
        "loads (elevator s) < CAPACITY" using okD(1,4) by simp_all
    from w f(2) obtain q s1 l where b: "aget (waiting_list s) (current_floor (elevator s) - 1) = Inr q"
        "for_each_safe (load_visit (current_floor (elevator s))) q (s, 0) = Inr (s1, l)"
        "sched_segment 0 0 (AtLoad u) (clean (pending ?d) False s) = Inr (AtRest u l, clean (pending ?d) False s1)"
        "heap s1 = heap s" "thread1 s1 = thread1 s" by (rule load_body [where u = u])
    then have y: "p' = LoadUnlock 0 u l" "s' = s1" using st LoadBody f by (simp_all add: res_simps)
    show ?thesis
      using kst [OF b(3)] y b(4,5) okD own LoadBody same by (auto simp: defs)
  next
    case (LoadUnlock r u l)
    then have u: "mutex (thread1 s) = Some 0" "p' = At (AtRest u l)" "s' = set_mutex None s"
      using st unlock_step_result by auto
    then have "r = 0" using own(1) LoadUnlock by simp
    moreover have "\<not> call_holds (c t)" if "0 < t" for t using own(2) [OF that] u(1) that by auto
    ultimately show ?thesis using u LoadUnlock okD same by (auto simp: defs)
  qed
qed

lemma call_step:
  assumes st: "fine_call me lk km (c me) s = Some (Inr ((q, r), s'))" and ok: "fine_ok (p, c, s)"
    and busy: "c me \<noteq> Call Ready" and fresh: "fresh_fine km (c me) s"
  shows "own_ok (p, c(me := q), s') \<and> (seen_as (p, c(me := q), s') = seen_as (p, c, s)
    \<or> (\<exists>e. kstep (seen_as (p, c, s)) e (seen_as (p, c(me := q), s'))))"
proof -
  let ?d = "delete_list p c" and ?k = "\<lambda>t. call_at (c t)" and ?z = "settles p"
  let ?s = "clean (pending ?d) ?z s"
  note okD = fine_okD [OF ok]
  have me: "0 < me" using busy okD(5) by (cases me) auto
  then have dm: "?d me = call_list (c me)" by (simp add: delete_list_def)
  have at: "(\<lambda>t. call_at ((c(me := q)) t)) = ?k(me := call_at q)" by (auto simp: fun_eq_iff)
  have kst: "kstep (sched_at p, ?k, ?s) (Continue me lk km r') (sched_at p, ?k(me := q'), b)"
    if "call_segment me lk km (?k me) ?s = Inr ((q', r'), b)" "?k me \<noteq> Ready" "fresh km (?k me) ?s" for lk km q' r' b
    by (rule kstep_continue) (use that in simp_all)
  have same: "delete_list p (c(me := q)) = ?d" if "call_list q = call_list (c me)"
    using delete_list_same(2) [of q c me p] that .
  have d: "delete_list p (c(me := q)) = ?d(me := call_list q)" using delete_list_call me by simp
  note defs = own_ok_def seen_as_def inside_def
  have own: "mutex (thread1 s) = Some 0 \<longleftrightarrow> sched_holds p"
      "\<And>t. 0 < t \<Longrightarrow> mutex (thread1 s) = Some t \<longleftrightarrow> call_holds (c t)"
    using okD(2) by (simp_all add: inside_def)
  have idle: "seen_as (p, c(me := q), s') = seen_as (p, c, s)"
    if "call_at q = ?k me" "delete_list p (c(me := q)) = ?d" "clean (pending ?d) ?z s' = ?s"
    unfolding seen_as_def prod.case at that by (simp add: fun_eq_iff)
  have load: "load_ok p s'" if "loads (elevator s') = loads (elevator s)"
      "current_floor (elevator s') = current_floor (elevator s)"
    using okD(4) that by (cases p) auto
  have keep: "own_ok (p, c(me := q), s')" if "thread1 s' = thread1 s" "call_holds q = call_holds (c me)"
      "lists_ok (delete_list p (c(me := q))) (heap s')" "load_ok p s'"
    using that own okD(5) me by (auto simp: defs)
  have taken: "own_ok (p, c(me := q), s') \<and> seen_as (p, c(me := q), s') = seen_as (p, c, s)"
    if "s' = set_mutex (Some me) s" "mutex (thread1 s) = None" "call_holds q" "call_list q = []"
      "call_list (c me) = []" "call_at q = ?k me"
    using that own okD me same idle load by (auto simp: own_ok_def inside_def)
  have released: "own_ok (p, c(me := q), s') \<and> seen_as (p, c(me := q), s') = seen_as (p, c, s)"
    if "s' = set_mutex None s" "mutex (thread1 s) = Some me" "\<not> call_holds q" "call_list q = call_list (c me)"
      "call_at q = ?k me"
  proof -
    have "\<not> sched_holds p" "\<And>t. 0 < t \<Longrightarrow> t \<noteq> me \<Longrightarrow> \<not> call_holds (c t)"
      using own that(2) me by auto
    then show ?thesis using that okD me same idle load by (auto simp: own_ok_def inside_def)
  qed
  have refused: "own_ok (p, c(me := q), s') \<and> seen_as (p, c(me := q), s') = seen_as (p, c, s)"
    if "s' = set_mutex (mutex (thread1 s)) s" "\<not> call_holds q" "\<not> call_holds (c me)" "call_list q = []"
      "call_list (c me) = []" "call_at q = ?k me"
    using that own okD me same idle load by (auto simp: own_ok_def inside_def)
  show ?thesis
  proof (cases "c me")
    case (Call pc)
    consider start dest type where "pc = RequestLock start dest type" | "pc = StopLock"
      | "\<not> (\<exists>a b t. pc = RequestLock a b t)" "pc \<noteq> StopLock" by metis
    then show ?thesis
    proof cases
      case (1 start dest type)
      then have "lock_step me lk (RequestBody start dest type, None) (RequestUnlock lk start dest type, None) s =
          Some (Inr ((q, r), s'))" using st Call by simp
      then show ?thesis
        by (cases rule: lock_step_result) (use Call 1 taken refused in simp_all)
    next
      case 2
      then have "lock_step me lk (StopBody, None) (StopUnlock lk [], None) s = Some (Inr ((q, r), s'))"
        using st Call by simp
      then show ?thesis
        by (cases rule: lock_step_result) (use Call 2 taken refused in simp_all)
    next
      case 3
      then have "rbind (call_segment me lk km pc s) (\<lambda>((p, r), s). Inr ((Call p, r), s)) = Inr ((q, r), s')"
        using st Call by (cases pc) auto
      then obtain pc' where seg: "call_segment me lk km pc s = Inr ((pc', r), s')" "q = Call pc'"
        by (auto simp: rbind_eq_Inr)
      note o = unlocked_call_segment [OF 3 seg(1)]
      have "km = None" using fresh Call by (auto simp: fresh_fine_def split: option.splits)
      then have "kstep (sched_at p, ?k, ?s) (Continue me lk km r)
          (sched_at p, ?k(me := pc'), clean (pending ?d) ?z s')"
        by (intro kst) (use o(1) Call busy in \<open>simp_all add: fresh_def\<close>)
      moreover have "own_ok (p, c(me := q), s')"
        by (rule keep) (use o seg(2) Call same okD(3) load in simp_all)
      ultimately show ?thesis using seg(2) Call same at by (auto simp: seen_as_def)
    qed
  next
    case (RequestBody start dest type)
    have v: "request_valid start dest type" using okD(6) [of me] RequestBody by simp
    obtain s1 where body: "(if deactiving (elevator s) = 0 then enqueue_passenger km start dest type s else Inr s) = Inr s1"
        "q = RequestUnlock 0 start dest type" "s' = s1"
      using st RequestBody by (auto simp: rbind_eq_Inr)
    have P: "\<And>a. a \<in> pending ?d \<Longrightarrow> heap s a \<noteq> None" using pending_dom [OF okD(3)] .
    note b = request_body [OF okD(1) v fresh [unfolded RequestBody] P body(1)]
    have "lists_ok ?d (heap s1)" using b(3) okD(3) lists_more by metis
    then have "own_ok (p, c(me := q), s')"
      by (intro keep) (use b(4,5) body RequestBody same load in simp_all)
    moreover have "kstep (sched_at p, ?k, ?s) (Continue me 0 km (Some 0))
        (sched_at p, ?k(me := Ready), clean (pending ?d) ?z s1)"
      by (rule kst) (use b(1,2) RequestBody in simp_all)
    ultimately show ?thesis using body RequestBody same at by (auto simp: seen_as_def)
  next
    case (RequestUnlock lr start dest type)
    then have u: "mutex (thread1 s) = Some me" "q = Call Ready" "s' = set_mutex None s"
      using st unlock_step_result [of me "(Call Ready, Some 0)" s "(q, r)" s'] by auto
    then have "lr = 0" using own(2) [OF me] RequestUnlock by simp
    then show ?thesis using released u RequestUnlock by simp
  next
    case StopBody
    have km: "km = None" using fresh StopBody by (auto simp: fresh_fine_def split: option.splits)
    from okD(1) obtain s1 dl where b: "unlink_onboard (s, []) = Inr (s1, dl)"
        "call_segment me 0 None StopLock ?s = Inr ((Ready, Some 0), clean (pending ?d \<union> set dl) ?z s1)"
        "heap s1 = heap s" "thread1 s1 = thread1 s" "loads (elevator s1) = loads (elevator s)"
        "current_floor (elevator s1) = current_floor (elevator s)"
        "distinct dl" "set dl \<subseteq> dom (heap s)" "set dl \<inter> pending ?d = {}"
      by (rule stop_body [where me = me])
    then have y: "q = StopUnlock 0 dl" "s' = s1" using st StopBody by (simp_all add: res_simps)
    have t: "lists_ok (?d(me := dl)) (heap s)" "pending (?d(me := dl)) = pending ?d \<union> set dl"
      by (rule lists_take [OF okD(3)]; use dm StopBody b in simp)+
    have "own_ok (p, c(me := q), s')"
      by (rule keep) (use b y StopBody d t load in simp_all)
    moreover have "kstep (sched_at p, ?k, ?s) (Continue me 0 None (Some 0))
        (sched_at p, ?k(me := Ready), clean (pending ?d \<union> set dl) ?z s1)"
      by (rule kst) (use b(2) km StopBody in \<open>simp_all add: fresh_def\<close>)
    ultimately show ?thesis using y t(2) d at by (auto simp: seen_as_def)
  next
    case (StopUnlock lr dl)
    then have u: "mutex (thread1 s) = Some me" "q = StopFree dl" "s' = set_mutex None s"
      using st unlock_step_result [of me "(StopFree dl, None)" s "(q, r)" s'] by auto
    then have "lr = 0" using own(2) [OF me] StopUnlock by simp
    then show ?thesis using released u StopUnlock by simp
  next
    case (StopFree dl)
    show ?thesis
    proof (cases dl)
      case Nil
      then have "q = Call Ready" "s' = s" using st StopFree by auto
      then show ?thesis using keep idle same okD StopFree Nil by simp
    next
      case (Cons a l)
      then have f: "q = StopFree l" "s' = s\<lparr>heap := (heap s)(a := None)\<rparr>"
        using st StopFree free_step_result [of a "(StopFree l, None)" s "(q, r)" s'] by auto
      have "?d me = a # l" using dm StopFree Cons by simp
      note l = lists_free [OF okD(3) this]
      have "own_ok (p, c(me := q), s')"
        by (rule keep) (use f l d StopFree load in simp_all)
      moreover have "?k(me := call_at q) = ?k" using f(1) StopFree by (simp add: fun_eq_iff)
      moreover have "delete_list p (c(me := q)) = ?d(me := l)" using d f(1) by simp
      ultimately have "own_ok (p, c(me := q), s')" "seen_as (p, c(me := q), s') = seen_as (p, c, s)"
        unfolding seen_as_def prod.case at by (simp_all add: f(2) l(2) clean_free [OF l(4)])
      then show ?thesis by blast
    qed
  qed
qed

lemma enter_step:
  assumes "0 < me" and "c me = Call Ready" and "enter_call call s = (q, r)" and ok: "fine_ok (p, c, s)"
  shows "own_ok (p, c(me := Call q), s) \<and> (\<exists>e. kstep (seen_as (p, c, s)) e (seen_as (p, c(me := Call q), s)))"
proof -
  let ?k = "\<lambda>t. call_at (c t)" and ?s = "clean (pending (delete_list p c)) (settles p) s"
  have "enter_call call ?s = (q, r)" using assms(3) by (cases call) (auto split: if_splits)
  then have "kstep (sched_at p, ?k, ?s) (Enter me call r) (sched_at p, ?k(me := q), ?s)"
    by (intro kstep_enter) (use assms in simp_all)
  moreover have d: "delete_list p (c(me := Call q)) = delete_list p c"
    by (rule delete_list_same(2)) (simp add: assms(2))
  moreover have "?k(me := q) = (\<lambda>t. call_at ((c(me := Call q)) t))" by (auto simp: fun_eq_iff)
  ultimately have "kstep (seen_as (p, c, s)) (Enter me call r) (seen_as (p, c(me := Call q), s))"
    by (simp add: seen_as_def)
  then show ?thesis
    using fine_okD [OF ok] assms(1,2) d by (auto simp: own_ok_def inside_def)
qed

lemma fine_step:
  assumes "fstep x e y" and "fine_ok x"
  shows "fine_ok y \<and> (seen_as y = seen_as x \<or> (\<exists>k. kstep (seen_as x) k (seen_as y)))"
proof -
  have "own_ok y \<and> (seen_as y = seen_as x \<or> (\<exists>k. kstep (seen_as x) k (seen_as y)))"
    using assms
  proof (induction rule: fstep.induct)
    case (fstep_sched lk p s p' s' c)
    then show ?case using sched_step by blast
  next
    case (fstep_enter me c call s q r p)
    then show ?case using enter_step by blast
  next
    case (fstep_call c me km s lk q r s' p)
    then show ?case using call_step by blast
  qed
  moreover have "sys_ok (seen_as x)" using assms(2) by (simp add: fine_ok_own)
  ultimately show ?thesis unfolding fine_ok_own by (metis ksys.step_inv)
qed

interpretation fine: stuttering fstep fine_ok seen_as kstep
  by unfold_locales (use fine_step in blast)+

lemma no_lists_booted: "delete_list (At AtTop) (\<lambda>_. Call Ready) = (\<lambda>_. [])"
  by (simp add: delete_list_def fun_eq_iff)

lemma clean_nothing: "mutex (thread1 s) = None \<Longrightarrow> clean {} False s = s"
  by (rule kstate.equality) (simp_all add: clean_def thread_mutex_None restrict_map_def fun_eq_iff)

lemma seen_booted: "seen_as fine_booted = booted"
  by (simp add: seen_as_def fine_booted_def booted_def no_lists_booted pending_def clean_nothing boot_explicit)

lemma fine_ok_booted: "fine_ok fine_booted"
proof -
  have "own_ok fine_booted"
    by (simp add: own_ok_def fine_booted_def inside_def no_lists_booted lists_ok_def boot_explicit)
  then show ?thesis using sys_ok_booted by (simp add: fine_ok_own seen_booted)
qed

lemma reachable_fine: "steps fstep fine_booted es x \<Longrightarrow> fine_ok x"
  using fine.run_inv fine_ok_booted by blast

text \<open>Where no thread is within a section, there is nothing to leave out.\<close>

lemma quiet_seen:
  assumes "steps fstep fine_booted es (At pc, \<lambda>t. Call (q t), s)"
  shows "seen_as (At pc, \<lambda>t. Call (q t), s) = (pc, q, s)"
proof -
  let ?x = "(At pc, \<lambda>t. Call (q t), s)"
  have "\<not> inside ?x t" for t by (cases "t = 0") (simp_all add: inside_def)
  then have "mutex (thread1 s) = None"
    using fine_okD(2) [OF reachable_fine [OF assms]] by (metis not_None_eq)
  moreover have "delete_list (At pc) (\<lambda>t. Call (q t)) = (\<lambda>_. [])"
    by (simp add: delete_list_def fun_eq_iff)
  ultimately show ?thesis
    unfolding seen_as_def prod.case by (simp add: pending_def clean_nothing)
qed

section \<open>Properties\<close>

text \<open>
  The critical sections are atomic: every run in which the locks, the statements of the
  sections, the unlocks, the single frees and the reset of \<open>status\<close> are steps of their own, in any
  interleaving, is a run of the machine in which a section is one step, seen without the mutex,
  without the entries that only a local \<open>delete_list\<close> still names and with \<open>status\<close> as its reset
  will leave it; and where no thread is within a section nothing has to be left out.
\<close>

lemma sections_are_atomic:
  assumes "steps fstep fine_booted es x"
  shows "\<exists>fs. steps kstep booted fs (seen_as x) \<and> length fs \<le> length es
    \<and> (\<forall>pc q s. x = (At pc, \<lambda>t. Call (q t), s) \<longrightarrow> seen_as x = (pc, q, s))"
proof -
  obtain fs where "steps kstep booted fs (seen_as x)" "length fs \<le> length es"
    using fine.run_stutters [OF assms fine_ok_booted] by (auto simp: seen_booted)
  moreover have "seen_as x = (pc, q, s)" if x: "x = (At pc, \<lambda>t. Call (q t), s)" for pc q s
    using quiet_seen assms x by blast
  ultimately show ?thesis by blast
qed

text \<open>
  Thread 2 has queued a passenger and still holds the mutex; the scheduler has seen that there is
  work and waits for it.
\<close>

definition demo_held :: fsys where
  "demo_held = (At AtUnload, (\<lambda>_. Call Ready)(2 := RequestUnlock 0 1 5 1),
     set_mutex (Some 2) (requested_state 7 1 5 1 (boot_state\<lparr>elevator := (elevator boot_state)\<lparr>started := 1\<rparr>\<rparr>)))"

definition demo_held_events :: "fevent list" where
  "demo_held_events = [FEnter 2 StartCall None, FCall 2 0 None None, FCall 2 0 None (Some 0),
     FEnter 2 (RequestCall 1 5 1) None, FCall 2 0 None None, FCall 2 0 (Some 7) None, FSched 0]"

lemma demo_held_run: "steps fstep fine_booted demo_held_events demo_held"
  by (rule run_fine_steps)
    (simp add: demo_held_events_def demo_held_def fine_booted_def fresh_fine_def lock_step_def
      mutex_lock_interruptible_def enqueue_passenger_def requested_state_def boot_explicit
      res_simps set_mutex_def store_obj_def list_add_tail_def has_work_def list_empty_def inc32_def wrap32_def)

text \<open>A thread whose lock call was interrupted and that is about to unlock all the same.\<close>

fun sched_interrupted :: "fsched \<Rightarrow> bool" where
  "sched_interrupted (UnloadUnlock r dl u) \<longleftrightarrow> r \<noteq> 0"
| "sched_interrupted (LoadUnlock r u l) \<longleftrightarrow> r \<noteq> 0"
| "sched_interrupted p \<longleftrightarrow> False"

fun call_interrupted :: "fcall \<Rightarrow> bool" where
  "call_interrupted (RequestUnlock r start dest type) \<longleftrightarrow> r \<noteq> 0"
| "call_interrupted (StopUnlock r dl) \<longleftrightarrow> r \<noteq> 0"
| "call_interrupted q \<longleftrightarrow> False"

lemma sched_faults:
  assumes ok: "fine_ok (p, c, s)" and f: "fine_sched lk p s = Some (Inl f)"
  shows "f = UnlockNotOwner \<and> sched_interrupted p"
proof -
  note okD = fine_okD [OF ok]
  have own: "sched_holds p \<Longrightarrow> mutex (thread1 s) = Some 0" using okD(2) [of 0] by (simp add: inside_def)
  show ?thesis
  proof (cases p)
    case (At pc)
    then show ?thesis using f by (cases pc) (auto simp: lock_step_def split: if_splits)
  next
    case UnloadBody
    then have "well_formed (clean (pending (delete_list p c)) False s)" using okD(1) by simp
    then obtain s1 out u where
      "for_each_safe unload_visit (onboard (elevator s)) (s, [], 0) = Inr (s1, out, u)" by (rule unload_body)
    then show ?thesis using f UnloadBody by (simp add: res_simps)
  next
    case (UnloadUnlock r dl u)
    then show ?thesis using f own by (auto simp: unlock_step_def mutex_unlock_def split: if_splits)
  next
    case (UnloadFree dl u)
    have "set dl \<subseteq> dom (heap s)"
      using okD(3) UnloadFree unfolding lists_ok_def delete_list_def by (metis sched_list.simps(2))
    then show ?thesis using f UnloadFree by (cases dl) (auto simp: free_step_def kfree_def)
  next
    case (LoadWait u floor)
    then show ?thesis using f by (auto simp: lock_step_def split: if_splits)
  next
    case (LoadBody u floor)
    then have "well_formed (clean (pending (delete_list p c)) False s)" "floor = current_floor (elevator s)"
        "loads (elevator s) < CAPACITY" using okD(1,4) by simp_all
    then show ?thesis using f LoadBody by (elim load_body [where u = u]) (auto simp: res_simps)
  next
    case (LoadUnlock r u l)
    then show ?thesis using f own by (auto simp: unlock_step_def mutex_unlock_def split: if_splits)
  qed (use f in simp)
qed

lemma call_faults:
  assumes ok: "fine_ok (p, c, s)" and me: "0 < me" and f: "fine_call me lk km (c me) s = Some (Inl f)"
  shows "f = UnlockNotOwner \<and> call_interrupted (c me)
    \<or> f = NullDeref \<and> km = None \<and> (\<exists>start dest type. c me = RequestBody start dest type)"
proof -
  note okD = fine_okD [OF ok]
  have own: "call_holds (c me) \<Longrightarrow> mutex (thread1 s) = Some me" using okD(2) [of me] me by (simp add: inside_def)
  show ?thesis
  proof (cases "c me")
    case (Call pc)
    then show ?thesis using f by (cases pc) (auto simp: lock_step_def split: if_splits)
  next
    case (RequestBody start dest type)
    have "length (waiting_list s) = 10" "length (waiting_on_floor s) = 10" "request_valid start dest type"
      using wf_position [OF okD(1)] okD(6) [of me] RequestBody by simp_all
    moreover have "set_mutex (mutex (thread1 s)) s = s" by (rule kstate.equality) (simp_all add: set_mutex_def)
    ultimately have "\<exists>s'. enqueue_passenger (Some a) start dest type s = Inr s'" for a
      using enqueue_passenger_eq [of s start a dest type "mutex (thread1 s)"] by (simp add: request_valid_def)
    moreover have "enqueue_passenger km start dest type s = Inl f"
      using f RequestBody by (simp add: rbind_eq_Inl split: if_splits)
    ultimately show ?thesis
      using RequestBody by (cases km) (simp add: enqueue_passenger_def, metis Inl_Inr_False)
  next
    case (RequestUnlock r start dest type)
    then show ?thesis using f own by (auto simp: unlock_step_def mutex_unlock_def split: if_splits)
  next
    case StopBody
    then show ?thesis using f by (simp add: unlink_onboard_eq res_simps)
  next
    case (StopUnlock r dl)
    then show ?thesis using f own by (auto simp: unlock_step_def mutex_unlock_def split: if_splits)
  next
    case (StopFree dl)
    have "set dl \<subseteq> dom (heap s)"
      using okD(3) StopFree me unfolding lists_ok_def delete_list_def by (metis call_list.simps(2) less_irrefl)
    then show ?thesis using f StopFree by (cases dl) (auto simp: free_step_def kfree_def)
  qed
qed

text \<open>
  C13. Mutual exclusion, and what the lock protects: at most one thread is within a critical section,
  it can always go on, and the mutex is free when nobody is; no step of the scheduler or of a
  call faults, whatever runs in between, except the unlock after an interrupted lock and a request
  for whom \<open>kmalloc\<close> has no memory. In particular no entry of a \<open>delete_list\<close> is freed twice.
\<close>

theorem mutual_exclusion:
  assumes "steps fstep fine_booted es x" and "x = (p, c, s)" and "0 < me"
  shows "(inside x t \<and> inside x u \<longrightarrow> t = u) \<and> (mutex (thread1 s) = None \<longleftrightarrow> (\<forall>t. \<not> inside x t))
    \<and> (inside x 0 \<longrightarrow> fine_sched lk p s \<noteq> None) \<and> (inside x me \<longrightarrow> fine_call me lk km (c me) s \<noteq> None)
    \<and> (fine_sched lk p s = Some (Inl f) \<longrightarrow> f = UnlockNotOwner \<and> sched_interrupted p)
    \<and> (fine_call me lk km (c me) s = Some (Inl f) \<longrightarrow> f = UnlockNotOwner \<and> call_interrupted (c me)
        \<or> f = NullDeref \<and> km = None \<and> (\<exists>start dest type. c me = RequestBody start dest type))"
proof -
  have ok: "fine_ok (p, c, s)" using reachable_fine assms(1,2) by simp
  have own: "mutex (thread1 s) = Some t \<longleftrightarrow> inside x t" for t using fine_okD(2) [OF ok] assms(2) by simp
  then have "inside x t \<and> inside x u \<longrightarrow> t = u" by (metis option.inject)
  moreover have "mutex (thread1 s) = None \<longleftrightarrow> (\<forall>t. \<not> inside x t)"
    using own by (metis not_Some_eq)
  moreover have "inside x 0 \<longrightarrow> fine_sched lk p s \<noteq> None"
    using assms(2) by (cases p) (auto simp: inside_def unlock_step_def)
  moreover have "inside x me \<longrightarrow> fine_call me lk km (c me) s \<noteq> None"
    using assms(2,3) by (cases "c me") (auto simp: inside_def unlock_step_def)
  ultimately show ?thesis using sched_faults [OF ok] call_faults [OF ok assms(3)] by blast
qed

lemma sections_are_atomic_witness:
  "\<exists>fs. steps kstep booted fs (seen_as demo_held) \<and> length fs \<le> 7"
  using sections_are_atomic [OF demo_held_run] by (auto simp: demo_held_events_def)

theorem mutual_exclusion_witness:
  "inside demo_held 2 \<and> \<not> inside demo_held 0
    \<and> fine_call 2 0 None (RequestUnlock 0 1 5 1) (snd (snd demo_held)) \<noteq> Some (Inl UnlockNotOwner)"
  using mutual_exclusion [OF demo_held_run demo_held_def, of 2] by (auto simp: demo_held_def inside_def)

end
