(* ===== verification/LockRuns.thy ===== *)
theory LockRuns
  imports LockSteps
begin

text \<open>
  The other half of what \<open>LockSteps\<close> shows: every run in which a critical section is one step is
  also a run of the finer machine, in which the thread that is in a section happens not to be
  disturbed. So the coarse machine has neither too few runs nor too many.
\<close>

definition outside :: "sys \<Rightarrow> fsys" where
  "outside = (\<lambda>(pc, q, s). (At pc, \<lambda>t. Call (q t), s))"

section \<open>A section without disturbance\<close>

lemma clean_none: "well_formed s \<Longrightarrow> clean {} False (set_mutex m s) = s"
  using wfD(9) [of s] by (simp add: clean_nothing)

lemma sched_frees:
  "distinct dl \<Longrightarrow> set dl \<subseteq> dom (heap s) \<Longrightarrow>
    steps fstep (UnloadFree dl u, c, s) (replicate (length dl) (FSched 0))
      (UnloadFree [] u, c, s\<lparr>heap := heap s |` (- set dl)\<rparr>)"
proof (induction dl arbitrary: s)
  case Nil
  have "s\<lparr>heap := heap s |` (- {})\<rparr> = s" by (rule kstate.equality) (simp_all add: restrict_map_def fun_eq_iff)
  then show ?case by auto
next
  case (Cons a dl)
  let ?t = "s\<lparr>heap := (heap s)(a := None)\<rparr>"
  have "fstep (UnloadFree (a # dl) u, c, s) (FSched 0) (UnloadFree dl u, c, ?t)"
    by (rule fstep_sched) (use Cons.prems in \<open>auto simp: free_step_def kfree_def\<close>)
  moreover have "steps fstep (UnloadFree dl u, c, ?t) (replicate (length dl) (FSched 0))
      (UnloadFree [] u, c, ?t\<lparr>heap := heap ?t |` (- set dl)\<rparr>)"
    by (rule Cons.IH) (use Cons.prems in auto)
  moreover have "?t\<lparr>heap := heap ?t |` (- set dl)\<rparr> = s\<lparr>heap := heap s |` (- set (a # dl))\<rparr>"
    by (rule kstate.equality) (auto simp: restrict_map_def fun_eq_iff)
  ultimately show ?case by (metis length_Cons replicate_Suc steps_cons)
qed

lemma call_frees:
  "0 < me \<Longrightarrow> distinct dl \<Longrightarrow> set dl \<subseteq> dom (heap s) \<Longrightarrow> c me = StopFree dl \<Longrightarrow>
    steps fstep (p, c, s) (replicate (length dl) (FCall me 0 None None))
      (p, c(me := StopFree []), s\<lparr>heap := heap s |` (- set dl)\<rparr>)"
proof (induction dl arbitrary: s c)
  case Nil
  have "s\<lparr>heap := heap s |` (- {})\<rparr> = s" by (rule kstate.equality) (simp_all add: restrict_map_def fun_eq_iff)
  moreover have "c(me := StopFree []) = c" using Nil by (simp add: fun_eq_iff)
  ultimately show ?case by auto
next
  case (Cons a dl)
  let ?t = "s\<lparr>heap := (heap s)(a := None)\<rparr>"
  have "fstep (p, c, s) (FCall me 0 None None) (p, c(me := StopFree dl), ?t)"
    by (rule fstep_call) (use Cons.prems in \<open>auto simp: free_step_def kfree_def fresh_fine_def\<close>)
  moreover have "steps fstep (p, c(me := StopFree dl), ?t) (replicate (length dl) (FCall me 0 None None))
      (p, (c(me := StopFree dl))(me := StopFree []), ?t\<lparr>heap := heap ?t |` (- set dl)\<rparr>)"
    by (rule Cons.IH) (use Cons.prems in auto)
  moreover have "?t\<lparr>heap := heap ?t |` (- set dl)\<rparr> = s\<lparr>heap := heap s |` (- set (a # dl))\<rparr>"
    by (rule kstate.equality) (auto simp: restrict_map_def fun_eq_iff)
  ultimately show ?case by (metis fun_upd_upd length_Cons replicate_Suc steps_cons)
qed

lemma unload_undisturbed:
  assumes w: "well_formed s" and seg: "sched_segment 0 0 AtUnload s = Inr (pc', s')"
  shows "\<exists>es. steps fstep (At AtUnload, c, s) es (At pc', c, s')"
proof -
  let ?s = "set_mutex (Some 0) s"
  obtain s1 out u where loop: "for_each_safe unload_visit (onboard (elevator ?s)) (?s, [], 0) = Inr (s1, out, u)"
      and eff: "sched_segment 0 0 AtUnload (clean {} False ?s) = Inr (AtLoad u, clean ({} \<union> set out) True s1)"
      and s1: "heap s1 = heap ?s" "thread1 s1 = thread1 ?s" and out: "distinct out" "set out \<subseteq> dom (heap ?s)"
    by (rule unload_body [of "{}" ?s]) (simp only: clean_none w)
  let ?t = "set_mutex None s1" and ?e = "\<lambda>x. if loads (elevator x) = 0 then x\<lparr>elevator := (elevator x)\<lparr>status := 0\<rparr>\<rparr> else x"
  let ?f = "?t\<lparr>heap := heap ?t |` (- set out)\<rparr>"
  have 1: "fstep (At AtUnload, c, s) (FSched 0) (UnloadBody, c, ?s)"
    by (rule fstep_sched) (simp add: lock_step_def mutex_lock_interruptible_def wfD(9) [OF w])
  have 2: "fstep (UnloadBody, c, ?s) (FSched 0) (UnloadUnlock 0 out u, c, s1)"
    by (rule fstep_sched) (use loop in \<open>simp add: res_simps\<close>)
  have 3: "fstep (UnloadUnlock 0 out u, c, s1) (FSched 0) (UnloadFree out u, c, ?t)"
    by (rule fstep_sched) (simp add: unlock_step_def mutex_unlock_def s1)
  have 4: "steps fstep (UnloadFree out u, c, ?t) (replicate (length out) (FSched 0)) (UnloadFree [] u, c, ?f)"
    by (rule sched_frees) (use out s1 in simp_all)
  have 5: "fstep (UnloadFree [] u, c, ?f) (FSched 0) (UnloadEnd u, c, ?f)" by (rule fstep_sched) simp
  have 6: "fstep (UnloadEnd u, c, ?f) (FSched 0) (At (AtLoad u), c, ?e ?f)" by (rule fstep_sched) simp
  have "?e ?f = clean (set out) True s1"
    by (rule kstate.equality) (auto simp: clean_def set_mutex_def)
  then have r: "pc' = AtLoad u" "s' = ?e ?f" using eff seg by (simp_all only: clean_none [OF w] Un_empty_left sum.inject prod.inject)
  show ?thesis unfolding r using 1 2 3 steps_append [OF 4] 5 6 by blast
qed

lemma load_undisturbed:
  assumes w: "well_formed s" and seg: "sched_segment 0 0 (AtLoad u) s = Inr (pc', s')"
  shows "\<exists>es. steps fstep (At (AtLoad u), c, s) es (At pc', c, s')"
proof (cases "loads (elevator s) < CAPACITY")
  case False
  then have "fstep (At (AtLoad u), c, s) (FSched 0) (At pc', c, s')"
    by (intro fstep_sched) (use seg in \<open>simp add: res_simps\<close>)
  then show ?thesis by blast
next
  case True
  let ?s = "set_mutex (Some 0) s" and ?f = "current_floor (elevator s)"
  obtain q s1 l where q: "aget (waiting_list ?s) (?f - 1) = Inr q"
      and loop: "for_each_safe (load_visit ?f) q (?s, 0) = Inr (s1, l)"
      and eff: "sched_segment 0 0 (AtLoad u) (clean {} False ?s) = Inr (AtRest u l, clean {} False s1)"
      and s1: "thread1 s1 = thread1 ?s"
    by (rule load_body [of "{}" ?s u]) (use True in \<open>simp_all only: clean_none [OF w] w set_mutex_simps\<close>)
  have 1: "fstep (At (AtLoad u), c, s) (FSched 0) (LoadWait u ?f, c, s)"
    by (rule fstep_sched) (use True in simp)
  have 2: "fstep (LoadWait u ?f, c, s) (FSched 0) (LoadBody u ?f, c, ?s)"
    by (rule fstep_sched) (simp add: lock_step_def mutex_lock_interruptible_def wfD(9) [OF w])
  have 3: "fstep (LoadBody u ?f, c, ?s) (FSched 0) (LoadUnlock 0 u l, c, s1)"
    by (rule fstep_sched) (use q loop in \<open>simp add: res_simps\<close>)
  have 4: "fstep (LoadUnlock 0 u l, c, s1) (FSched 0) (At (AtRest u l), c, set_mutex None s1)"
    by (rule fstep_sched) (simp add: unlock_step_def mutex_unlock_def s1)
  have "set_mutex None s1 = clean {} False s1"
    by (rule kstate.equality) (simp_all add: clean_def set_mutex_def restrict_map_def)
  then have r: "pc' = AtRest u l" "s' = set_mutex None s1" using eff seg by (simp_all only: clean_none [OF w] sum.inject prod.inject)
  show ?thesis unfolding r using 1 2 3 4 by blast
qed

text \<open>A step of the scheduler and a step of a call.\<close>

lemma sched_undisturbed:
  assumes ok: "sys_ok (pc, q, s)" and seg: "sched_segment 0 lk pc s = Inr (pc', s')"
  shows "\<exists>es. steps fstep (At pc, c, s) es (At pc', c, s')"
proof -
  have w: "well_formed s" using ok by (simp add: sys_ok_def)
  have seg0: "sched_segment 0 0 pc s = Inr (pc', s')" by (rule segment_lock_free [OF w seg])
  show ?thesis
  proof (cases "pc = AtUnload \<or> (\<exists>u. pc = AtLoad u)")
    case True
    then show ?thesis using unload_undisturbed [OF w] load_undisturbed [OF w] seg0 by blast
  next
    case False
    then have "fine_sched 0 (At pc) s = Some (rbind (sched_segment 0 0 pc s) (\<lambda>(pc, s). Inr (At pc, s)))"
      by (cases pc) simp_all
    then have "fstep (At pc, c, s) (FSched 0) (At pc', c, s')" by (intro fstep_sched) (simp add: seg0)
    then show ?thesis by blast
  qed
qed

lemma request_undisturbed:
  assumes ok: "sys_ok (pc, q, s)" and me: "0 < me" "c me = Call (RequestLock start dest type)"
    and v: "request_valid start dest type" and fr: "fresh km (RequestLock start dest type) s"
    and seg: "request_critical me lk km start dest type s = Inr (r, s')"
  shows "r = 0 \<and> (\<exists>es. steps fstep (p, c, s) es (p, c(me := Call Ready), s'))"
proof -
  have w: "well_formed s" using ok by (simp add: sys_ok_def)
  let ?s = "set_mutex (Some me) s" and ?t = "set_mutex (Some me) s'"
  have body: "(if deactiving (elevator ?s) = 0 then enqueue_passenger km start dest type ?s else Inr ?s) = Inr ?t
      \<and> r = 0 \<and> set_mutex None ?t = s'"
    using w v seg
  proof (cases rule: request_critical_cases)
    case 1
    then show ?thesis using wfD(9) [OF w] by (simp add: set_mutex_set_mutex)
  next
    case (2 a)
    then have "deactiving (elevator s) = 0" using fr by (simp add: fresh_def)
    moreover have "length (waiting_list s) = 10" "length (waiting_on_floor s) = 10" using wf_position [OF w] by simp_all
    ultimately show ?thesis
      using 2 v wfD(9) [OF w] enqueue_passenger_eq [of s start a dest type "Some me"]
      by (simp add: set_mutex_set_mutex requested_state_mutex request_valid_def)
  qed
  let ?c1 = "c(me := RequestBody start dest type)" and ?c2 = "c(me := RequestUnlock 0 start dest type)"
  have 1: "fstep (p, c, s) (FCall me 0 None None) (p, ?c1, ?s)"
    by (rule fstep_call)
      (use me wfD(9) [OF w] in \<open>simp_all add: fresh_fine_def lock_step_def mutex_lock_interruptible_def\<close>)
  have 2: "fstep (p, ?c1, ?s) (FCall me 0 km None) (p, ?c1(me := RequestUnlock 0 start dest type), ?t)"
    by (rule fstep_call)
      (use fr body in \<open>simp_all add: fresh_fine_def fresh_def res_simps split: option.splits\<close>)
  have 3: "fstep (p, ?c2, ?t) (FCall me 0 None (Some 0)) (p, ?c2(me := Call Ready), s')"
    by (rule fstep_call)
      (use body in \<open>simp_all add: fresh_fine_def unlock_step_def mutex_unlock_def res_simps set_mutex_def\<close>)
  show ?thesis using body 1 2 3 by (metis fun_upd_upd steps_cons steps_nil)
qed

lemma stop_undisturbed:
  assumes ok: "sys_ok (pc, q, s)" and me: "0 < me" "c me = Call StopLock"
    and seg: "stop_offload me lk s = Inr (r, s')"
  shows "r = 0 \<and> (\<exists>es. steps fstep (p, c, s) es (p, c(me := Call Ready), s'))"
proof -
  have w: "well_formed s" using ok by (simp add: sys_ok_def)
  let ?s = "set_mutex (Some me) s" and ?on = "onboard (elevator s)"
  let ?u = "s\<lparr>elevator := (elevator s)\<lparr>onboard := []\<rparr>\<rparr>"
  let ?f = "?u\<lparr>heap := heap ?u |` (- set ?on)\<rparr>"
  have s': "r = 0" "s' = offloaded_state s" using stop_offload_result [OF w seg] by simp_all
  have on: "distinct ?on" "set ?on \<subseteq> dom (heap s)"
    using wfD(1) [OF w] by (auto simp: links_ok_def linked_def)
  have 1: "fstep (p, c, s) (FCall me 0 None None) (p, c(me := StopBody), ?s)"
    by (rule fstep_call)
      (use me wfD(9) [OF w] in \<open>simp_all add: fresh_fine_def lock_step_def mutex_lock_interruptible_def\<close>)
  have 2: "fstep (p, c(me := StopBody), ?s) (FCall me 0 None None)
      (p, c(me := StopUnlock 0 ?on), set_mutex (Some me) ?u)"
  proof -
    have "set_mutex (Some me) ?u = ?s\<lparr>elevator := (elevator ?s)\<lparr>onboard := []\<rparr>\<rparr>"
      by (rule kstate.equality) (simp_all add: set_mutex_def)
    then show ?thesis
      using fstep_call [of "c(me := StopBody)" me None ?s 0] by (simp add: fresh_fine_def unlink_onboard_eq res_simps)
  qed
  have u: "set_mutex None (set_mutex (Some me) ?u) = ?u"
    by (rule set_mutex_set_mutex) (use wfD(9) [OF w] in simp)
  have 3: "fstep (p, c(me := StopUnlock 0 ?on), set_mutex (Some me) ?u) (FCall me 0 None None)
      (p, c(me := StopFree ?on), ?u)"
    using fstep_call [of "c(me := StopUnlock 0 ?on)" me None "set_mutex (Some me) ?u" 0] u
    by (simp add: fresh_fine_def unlock_step_def mutex_unlock_def res_simps set_mutex_def)
  have 4: "steps fstep (p, c(me := StopFree ?on), ?u) (replicate (length ?on) (FCall me 0 None None))
      (p, c(me := StopFree ?on, me := StopFree []), ?f)"
    by (rule call_frees) (use me on in simp_all)
  have 5: "fstep (p, c(me := StopFree []), ?f) (FCall me 0 None (Some 0)) (p, c(me := Call Ready), ?f)"
    using fstep_call [of "c(me := StopFree [])" me None ?f 0] by (simp add: fresh_fine_def)
  have "?f = offloaded_state s"
    by (rule kstate.equality) (simp_all add: offloaded_state_def)
  then have "steps fstep (p, c, s) ([FCall me 0 None None, FCall me 0 None None, FCall me 0 None None]
      @ replicate (length ?on) (FCall me 0 None None) @ [FCall me 0 None (Some 0)]) (p, c(me := Call Ready), s')"
    using 1 2 3 4 5 s'(2) by (intro steps_append [OF _ steps_append]) auto
  then show ?thesis using s'(1) by blast
qed

lemma step_undisturbed:
  assumes st: "kstep x e y" and ok: "sys_ok x" and q0: "fst (snd x) 0 = Ready"
  shows "(\<exists>es. steps fstep (outside x) es (outside y)) \<and> fst (snd y) 0 = Ready"
  using st
proof (cases rule: kstep.cases)
  case (kstep_sched lk pc s pc' s' c)
  then show ?thesis using sched_undisturbed [of pc c s lk pc' s'] ok q0 by (simp add: outside_def)
next
  case (kstep_enter me c call s p r pc)
  have "fstep (outside x) (FEnter me call r) (At pc, (\<lambda>t. Call (c t))(me := Call p), s)"
    unfolding outside_def kstep_enter(1) prod.case by (rule fstep_enter) (use kstep_enter in simp_all)
  moreover have "(\<lambda>t. Call (c t))(me := Call p) = (\<lambda>t. Call ((c(me := p)) t))" by (simp add: fun_eq_iff)
  ultimately show ?thesis using kstep_enter q0 by (auto simp: outside_def)
next
  case (kstep_continue c me km s lk p r s' pc)
  let ?c = "\<lambda>t. Call (c t)"
  have me: "0 < me" using kstep_continue(1,4) q0 by (cases me) auto
  have ok': "sys_ok (pc, c, s)" using ok kstep_continue(1) by simp
  have goal: ?thesis if "steps fstep (At pc, ?c, s) es (At pc, ?c(me := Call p), s')" for es
  proof -
    have "?c(me := Call p) = (\<lambda>t. Call ((c(me := p)) t))" by (simp add: fun_eq_iff)
    then show ?thesis using that kstep_continue(1,3) me q0 by (auto simp: outside_def)
  qed
  consider start dest type where "c me = RequestLock start dest type" | "c me = StopLock"
    | "\<not> (\<exists>a b t. c me = RequestLock a b t)" "c me \<noteq> StopLock" by metis
  then show ?thesis
  proof cases
    case (1 start dest type)
    have "call_ok (c me)" using ok' by (simp add: sys_ok_def)
    then have v: "request_valid start dest type" by (simp add: 1)
    obtain r' where "request_critical me lk km start dest type s = Inr (r', s')" "p = Ready"
      using kstep_continue(6) 1 by (auto simp: rbind_eq_Inr)
    then show ?thesis
      using request_undisturbed [OF ok' me, of ?c start dest type km lk r' s' "At pc"] v 1 kstep_continue(5) goal by auto
  next
    case 2
    obtain r' where "stop_offload me lk s = Inr (r', s')" "p = Ready"
      using kstep_continue(6) 2 by (auto simp: rbind_eq_Inr)
    then show ?thesis using stop_undisturbed [OF ok' me, of ?c lk r' s' "At pc"] 2 goal by auto
  next
    case 3
    have km: "km = None" using kstep_continue(5) 3 by (cases "c me") (auto simp: fresh_def split: option.splits)
    have "fine_call me lk km (Call (c me)) s =
        Some (rbind (call_segment me lk km (c me) s) (\<lambda>((p, r), s). Inr ((Call p, r), s)))"
      using 3 by (cases "c me") simp_all
    then have "fstep (At pc, ?c, s) (FCall me lk km r) (At pc, ?c(me := Call p), s')"
      by (intro fstep_call) (use kstep_continue km in \<open>simp_all add: fresh_fine_def\<close>)
    then show ?thesis by (intro goal) blast
  qed
qed

lemma run_undisturbed:
  "steps kstep x es y \<Longrightarrow> sys_ok x \<Longrightarrow> fst (snd x) 0 = Ready \<Longrightarrow> \<exists>fs. steps fstep (outside x) fs (outside y)"
proof (induction rule: steps.induct)
  case (steps_cons x e y es z)
  have "sys_ok y" by (rule kstep_sys_ok [OF steps_cons.hyps(1) steps_cons.prems(1)])
  moreover obtain fs where fs: "steps fstep (outside x) fs (outside y)" "fst (snd y) 0 = Ready"
    using step_undisturbed [OF steps_cons.hyps(1) steps_cons.prems] by blast
  ultimately obtain gs where "steps fstep (outside y) gs (outside z)" using steps_cons.IH by blast
  from steps_append [OF fs(1) this] show ?case by blast
qed blast

section \<open>Properties\<close>

text \<open>
  C7. A critical section may be taken for one step, neither more nor less: the states that the
  machine with atomic sections reaches are exactly those that the finer machine reaches with no
  thread within a section, and each of its states is what is seen of some reachable state there.
\<close>

theorem atomic_sections_are_exact:
  "((\<exists>es. steps kstep booted es (pc, q, s)) \<longleftrightarrow> (\<exists>es. steps fstep fine_booted es (At pc, \<lambda>t. Call (q t), s)))
    \<and> ((\<exists>es. steps kstep booted es y) \<longleftrightarrow> (\<exists>es x. steps fstep fine_booted es x \<and> seen_as x = y))"
proof -
  have b: "outside booted = fine_booted" by (simp add: outside_def booted_def fine_booted_def)
  have up: "\<exists>es. steps fstep fine_booted es (outside z)" if "steps kstep booted es z" for es z
    using run_undisturbed [OF that sys_ok_booted] b by (simp add: booted_def)
  have down: "\<exists>es. steps kstep booted es (seen_as x)" if "steps fstep fine_booted es x" for es x
    using fine.run_stutters [OF that fine_ok_booted] seen_booted by auto
  have seen: "seen_as (outside z) = z" if "steps kstep booted es z" for es z
  proof -
    obtain pc q s where z: "z = (pc, q, s)" by (cases z)
    then have "mutex (thread1 s) = None" using reachable_ok [OF that [unfolded z]] by (simp add: sys_ok_def wfD(9))
    moreover have "delete_list (At pc) (\<lambda>t. Call (q t)) = (\<lambda>_. [])" by (simp add: delete_list_def fun_eq_iff)
    ultimately show ?thesis by (simp add: z outside_def seen_as_def pending_def clean_nothing)
  qed
  have "(\<exists>es. steps kstep booted es (pc, q, s)) \<longleftrightarrow> (\<exists>es. steps fstep fine_booted es (At pc, \<lambda>t. Call (q t), s))"
  proof
    assume "\<exists>es. steps kstep booted es (pc, q, s)"
    then show "\<exists>es. steps fstep fine_booted es (At pc, \<lambda>t. Call (q t), s)"
      using up [of _ "(pc, q, s)"] by (auto simp: outside_def)
  next
    assume "\<exists>es. steps fstep fine_booted es (At pc, \<lambda>t. Call (q t), s)"
    then obtain es where es: "steps fstep fine_booted es (At pc, \<lambda>t. Call (q t), s)" by blast
    show "\<exists>es. steps kstep booted es (pc, q, s)" using down [OF es] unfolding quiet_seen [OF es] .
  qed
  moreover have "(\<exists>es. steps kstep booted es y) \<longleftrightarrow> (\<exists>es x. steps fstep fine_booted es x \<and> seen_as x = y)"
    using up seen down by blast
  ultimately show ?thesis by (rule conjI)
qed

end
