(* ===== verification/CString.thy ===== *)
theory CString
  imports Prelude
begin

text \<open>
  The part of the C library that the proc files and the user programs format with: decimal
  output as \<open>%d\<close> and \<open>%ld\<close> print it, \<open>sprintf\<close> and \<open>strcat\<close> into a buffer of a known size, and
  the NUL terminated string in a byte array. A write past the end of its buffer is a fault.
\<close>

section \<open>Decimal numbers\<close>

definition digit :: "nat \<Rightarrow> char" where
  "digit d = ''0123456789'' ! d"

fun show_nat :: "nat \<Rightarrow> string" where
  "show_nat n = (if n < 10 then [digit n] else show_nat (n div 10) @ [digit (n mod 10)])"

declare show_nat.simps [simp del]

definition show_int :: "int \<Rightarrow> string" where
  "show_int i = (if i < 0 then CHR ''-'' # show_nat (nat (- i)) else show_nat (nat i))"

definition digit_value :: "char \<Rightarrow> nat" where
  "digit_value c = of_char c - 48"

definition read_nat :: "string \<Rightarrow> nat" where
  "read_nat s = foldl (\<lambda>n c. 10 * n + digit_value c) 0 s"

lemma below_10: "d < (10 :: nat) \<longleftrightarrow> d \<in> {0, 1, 2, 3, 4, 5, 6, 7, 8, 9}"
  by (auto simp: numeral_eq_Suc less_Suc_eq)

lemma digit_value_digit: "d < 10 \<Longrightarrow> digit_value (digit d) = d"
  unfolding below_10 by (auto simp: digit_def digit_value_def)

lemma digit_not_special: "d < 10 \<Longrightarrow> digit d \<noteq> CHR ''-'' \<and> digit d \<noteq> CHR ''.'' \<and> digit d \<noteq> CHR 0x0A
    \<and> digit d \<noteq> CHR 0x00"
  unfolding below_10 by (auto simp: digit_def)

lemma read_show_nat: "read_nat (show_nat n) = n"
proof (induction n rule: show_nat.induct)
  case (1 n)
  show ?case
  proof (cases "n < 10")
    case True
    then show ?thesis by (subst show_nat.simps) (simp add: read_nat_def digit_value_digit)
  next
    case False
    then have "read_nat (show_nat (n div 10)) = n div 10" using 1 by blast
    then show ?thesis
      using False by (subst show_nat.simps) (simp add: read_nat_def digit_value_digit)
  qed
qed

lemma show_nat_inj: "show_nat m = show_nat n \<Longrightarrow> m = n"
  by (metis read_show_nat)

lemma show_nat_digits: "c \<in> set (show_nat n) \<Longrightarrow> \<exists>d < 10. c = digit d"
proof (induction n rule: show_nat.induct)
  case (1 n)
  show ?case
  proof (cases "n < 10")
    case True
    then show ?thesis using "1.prems" by (subst (asm) show_nat.simps) auto
  next
    case False
    then have "c \<in> set (show_nat (n div 10)) \<or> c = digit (n mod 10)"
      using "1.prems" by (subst (asm) show_nat.simps) auto
    then show ?thesis using "1.IH" [OF False] by (auto intro: exI [of _ "n mod 10"])
  qed
qed

lemma length_show_nat_pos: "0 < length (show_nat n)"
  by (subst show_nat.simps) simp

lemma show_nat_not_Nil [simp]: "show_nat n \<noteq> []"
  using length_show_nat_pos [of n] by auto

lemma length_show_int_pos: "0 < length (show_int i)"
  by (simp add: show_int_def)

lemma length_show_nat: "n < 10 ^ Suc k \<Longrightarrow> length (show_nat n) \<le> Suc k"
proof (induction k arbitrary: n)
  case 0
  then show ?case by (subst show_nat.simps) simp
next
  case (Suc k)
  show ?case
  proof (cases "n < 10")
    case True
    then show ?thesis by (subst show_nat.simps) simp
  next
    case False
    have "n div 10 < 10 ^ Suc k" using Suc.prems by (simp add: less_mult_imp_div_less)
    from Suc.IH [OF this] False show ?thesis by (subst show_nat.simps) simp
  qed
qed

lemma show_nat_at_least: "10 ^ k \<le> n \<Longrightarrow> Suc k \<le> length (show_nat n)"
proof (induction k arbitrary: n)
  case 0
  then show ?case using length_show_nat_pos [of n] by linarith
next
  case (Suc k)
  have "(1 :: nat) \<le> 10 ^ k" by simp
  moreover have "10 * 10 ^ k \<le> n" using Suc.prems by simp
  ultimately have n: "10 * 10 ^ k \<le> n" "\<not> n < 10" by linarith+
  then have "10 ^ k \<le> n div 10" by (simp add: less_eq_div_iff_mult_less_eq mult.commute)
  from Suc.IH [OF this] n(2) show ?case by (subst show_nat.simps) simp
qed

lemma length_show_int_nonneg: "0 \<le> i \<Longrightarrow> i < 10 ^ Suc k \<Longrightarrow> length (show_int i) \<le> Suc k"
proof -
  assume "0 \<le> i" "i < 10 ^ Suc k"
  then have "nat i < 10 ^ Suc k" by (simp add: nat_less_iff)
  then show ?thesis using length_show_nat \<open>0 \<le> i\<close> by (simp add: show_int_def)
qed

text \<open>A 32-bit number takes at most eleven characters.\<close>

lemma length_show_wrap32: "length (show_int (wrap32 i)) \<le> 11"
proof -
  have "- 2147483648 \<le> wrap32 i" "wrap32 i < 2147483648" using wrap32_range by auto
  then have "nat (- wrap32 i) < 10 ^ Suc 9" "nat (wrap32 i) < 10 ^ Suc 9" by auto
  then have "length (show_nat (nat (- wrap32 i))) \<le> Suc 9" "length (show_nat (nat (wrap32 i))) \<le> Suc 9"
    using length_show_nat by blast+
  then show ?thesis by (simp add: show_int_def)
qed

definition newline :: string where [simp]: "newline = [CHR 0x0A]"

section \<open>Buffers\<close>

text \<open>
  The text of a buffer of \<open>cap\<close> bytes; the terminating NUL needs a byte of its own.
\<close>

definition sprintf :: "nat \<Rightarrow> string \<Rightarrow> fault + string" where
  "sprintf cap out = (if length out < cap then Inr out else Inl BufferOverflow)"

definition strcat :: "nat \<Rightarrow> string \<Rightarrow> string \<Rightarrow> fault + string" where
  "strcat cap dst src = (if length dst + length src < cap then Inr (dst @ src) else Inl BufferOverflow)"

lemma sprintf_fits [res_simps]: "length out < cap \<Longrightarrow> sprintf cap out = Inr out"
  by (simp add: sprintf_def)

lemma strcat_fits [res_simps]: "length dst + length src < cap \<Longrightarrow> strcat cap dst src = Inr (dst @ src)"
  by (simp add: strcat_def)

text \<open>Writes in sequence overflow exactly when the whole does not fit.\<close>

lemma sprintf_strcat:
  "rbind (sprintf cap a) (\<lambda>t. strcat cap t b) = sprintf cap (a @ b)"
  by (simp add: sprintf_def strcat_def)

lemma strcat_strcat:
  "rbind (strcat cap a b) (\<lambda>t. strcat cap t c) = strcat cap a (b @ c)"
  by (simp add: strcat_def)

section \<open>Strings in byte arrays\<close>

definition c_string :: "string \<Rightarrow> fault + string" where
  "c_string bytes =
     (if CHR 0x00 \<in> set bytes then Inr (takeWhile (\<lambda>c. c \<noteq> CHR 0x00) bytes) else Inl OutOfBounds)"

end
