(* ===== verification/ProcFile.thy ===== *)
theory ProcFile
  imports Service CString
begin

text \<open>
  \<open>/proc/elevator\<close> and the two debugging printers. \<open>open\<close> formats the report into a buffer
  that a global pointer names, \<open>read\<close> hands the buffer out on every other call, \<open>release\<close>
  frees it. The report is built line by line in \<open>temp\<close> (100 bytes) and collected in \<open>message\<close>
  (1024 bytes); the closed form says when both are large enough.
\<close>

section \<open>The code\<close>

definition ENTRY_SIZE :: nat where [simp]: "ENTRY_SIZE = 1024"
definition TEMP_SIZE :: nat where [simp]: "TEMP_SIZE = 100"
definition ENOMEM :: int where [simp]: "ENOMEM = 12"

text \<open>\<open>bufs\<close> holds the allocated character buffers; \<open>None\<close> in one is memory not written yet.\<close>

record proc_state =
  message :: "addr option"
  read_p :: int
  bufs :: "addr \<rightharpoonup> string option"

definition state_text :: "int \<Rightarrow> string option" where
  "state_text v =
     (if v = OFFLINE then Some (''OFFLINE'' @ newline)
      else if v = IDLE then Some (''IDELE '' @ newline)
      else if v = LOADING then Some (''LOADING '' @ newline)
      else if v = UP then Some (''UP'' @ newline)
      else if v = DOWN then Some (''DOWN'' @ newline)
      else None)"

definition status_text :: "int \<Rightarrow> string" where
  "status_text v = (if v = 0 then ''ELevator status: Uninfected'' @ newline
                    else ''ELevator status: Infected'' @ newline)"

definition emit :: "string \<Rightarrow> string \<Rightarrow> fault + string" where
  "emit line msg = rbind (sprintf TEMP_SIZE line) (\<lambda>temp. strcat ENTRY_SIZE msg temp)"

definition print_header :: "kstate \<Rightarrow> fault + string" where
  "print_header s =
     rbind (case state_text (state (elevator s)) of
              None \<Rightarrow> Inl Uninitialised | Some t \<Rightarrow> sprintf TEMP_SIZE t) (\<lambda>temp.
     rbind (sprintf ENTRY_SIZE ''Elevator state: '') (\<lambda>msg.
     rbind (strcat ENTRY_SIZE msg temp) (\<lambda>msg.
     rbind (emit (status_text (status (elevator s))) msg) (\<lambda>msg.
     rbind (emit (''Current floor: '' @ show_int (current_floor (elevator s)) @ newline) msg) (\<lambda>msg.
     rbind (emit (''Number of passengers: '' @ show_int (loads (elevator s)) @ newline) msg) (\<lambda>msg.
     rbind (emit (''Number of waiting: '' @ show_int (num_waiting s) @ newline) msg) (\<lambda>msg.
     emit (''Number passengers serviced: '' @ show_int (serviced s) @ newline @ newline) msg)))))))"

definition floor_label :: "int \<Rightarrow> int \<Rightarrow> int \<Rightarrow> string" where
  "floor_label here i n =
     ''['' @ [if here = i then CHR ''*'' else CHR '' ''] @ (if i = FLOORS then ''] Floor '' else ''] Floor  '')
       @ show_int i @ '':  '' @ show_int n @ '' ''"

definition seat_text :: "passenger_data \<Rightarrow> string" where
  "seat_text p = (if ptype p = 0 then '' |'' else '' X'')"

definition print_floor :: "kstate \<Rightarrow> int \<Rightarrow> string \<Rightarrow> fault + string" where
  "print_floor s i msg =
     rbind (aget (waiting_on_floor s) (i - 1)) (\<lambda>n.
     rbind (sprintf TEMP_SIZE (floor_label (current_floor (elevator s)) i n)) (\<lambda>temp.
     rbind (aget (waiting_list s) (i - 1)) (\<lambda>q.
     rbind (for_each_safe
              (\<lambda>a temp. rbind (deref (heap s) a) (\<lambda>p. strcat TEMP_SIZE temp (seat_text p))) q temp)
       (\<lambda>temp.
     rbind (strcat TEMP_SIZE temp newline) (\<lambda>temp.
     strcat ENTRY_SIZE msg temp)))))"

definition print_report :: "kstate \<Rightarrow> fault + string" where
  "print_report s = rbind (print_header s) (for_each_safe (print_floor s) (rev [1..FLOORS]))"

text \<open>\<open>tm\<close> and \<open>mm\<close> are what the two \<open>kmalloc\<close> calls returned.\<close>

definition elevator_proc_open ::
  "addr option \<Rightarrow> addr option \<Rightarrow> kstate \<Rightarrow> proc_state \<Rightarrow> fault + (int \<times> proc_state)" where
  "elevator_proc_open tm mm s p =
     (let p = (case tm of None \<Rightarrow> p | Some t \<Rightarrow> p\<lparr>bufs := store_obj t None (bufs p)\<rparr>);
          p = p\<lparr>read_p := 1, message := mm\<rparr>
      in case mm of
           None \<Rightarrow> Inr (- ENOMEM, p)
         | Some m \<Rightarrow>
             (case tm of
                None \<Rightarrow> Inl NullDeref
              | Some t \<Rightarrow>
                  rbind (print_report s) (\<lambda>txt.
                  rbind (kfree t (store_obj m (Some txt) (bufs p))) (\<lambda>h.
                    Inr (0, p\<lparr>bufs := h\<rparr>)))))"

text \<open>
  \<open>sz\<close> is the size of the reader's buffer. The result is the return value and what was copied
  into that buffer.
\<close>

definition elevator_proc_read ::
  "nat \<Rightarrow> proc_state \<Rightarrow> fault + ((int \<times> string option) \<times> proc_state)" where
  "elevator_proc_read sz p =
     rbind (case message p of None \<Rightarrow> Inl NullDeref | Some m \<Rightarrow> deref (bufs p) m) (\<lambda>txt.
       case txt of
         None \<Rightarrow> Inl Uninitialised
       | Some t \<Rightarrow>
           let len = int (length t);
               p = p\<lparr>read_p := (if read_p p = 0 then 1 else 0)\<rparr>
           in if read_p p \<noteq> 0 then Inr ((0, None), p) else Inr ((len, Some t), p))"

definition elevator_proc_release :: "proc_state \<Rightarrow> fault + (int \<times> proc_state)" where
  "elevator_proc_release p =
     (case message p of None \<Rightarrow> Inr (0, p)
      | Some m \<Rightarrow> rbind (kfree m (bufs p)) (\<lambda>h. Inr (0, p\<lparr>bufs := h\<rparr>)))"

section \<open>The report\<close>

definition header_text :: "kstate \<Rightarrow> string" where
  "header_text s =
     ''Elevator state: '' @ the (state_text (state (elevator s)))
     @ status_text (status (elevator s))
     @ ''Current floor: '' @ show_int (current_floor (elevator s)) @ newline
     @ ''Number of passengers: '' @ show_int (loads (elevator s)) @ newline
     @ ''Number of waiting: '' @ show_int (num_waiting s) @ newline
     @ ''Number passengers serviced: '' @ show_int (serviced s) @ newline @ newline"

definition floor_line :: "kstate \<Rightarrow> int \<Rightarrow> string" where
  "floor_line s i =
     floor_label (current_floor (elevator s)) i (waiting_on_floor s ! nat (i - 1))
     @ concat (map (\<lambda>a. seat_text (passenger_of s a)) (waiting_list s ! nat (i - 1))) @ newline"

definition report :: "kstate \<Rightarrow> string" where
  "report s = header_text s @ concat (map (floor_line s) (rev [1..FLOORS]))"

definition report_fits :: "kstate \<Rightarrow> bool" where
  "report_fits s \<longleftrightarrow> (\<forall>i \<in> set [1..FLOORS]. length (floor_line s i) < TEMP_SIZE)
     \<and> length (report s) < ENTRY_SIZE"

lemma length_seat_text [simp]: "length (seat_text p) = 2"
  by (simp add: seat_text_def)

lemma length_seats: "length (concat (map (\<lambda>a. seat_text (f a)) q)) = 2 * length q"
  by (induction q) simp_all

lemma state_text_ok:
  assumes "well_formed s"
  shows "\<exists>t. state_text (state (elevator s)) = Some t \<and> length t \<le> 9"
proof -
  have "0 \<le> state (elevator s)" "state (elevator s) \<le> 4"
    using wfD(8) [OF assms] by (auto simp: flags_ok_def)
  then consider "state (elevator s) = 0" | "state (elevator s) = 1" | "state (elevator s) = 2"
    | "state (elevator s) = 3" | "state (elevator s) = 4" by linarith
  then show ?thesis by cases (auto simp: state_text_def)
qed

lemma length_status_text: "length (status_text v) \<le> 28"
  by (simp add: status_text_def)

lemma header_numbers:
  assumes "well_formed s"
  shows "length (show_int (current_floor (elevator s))) \<le> 2" "length (show_int (loads (elevator s))) \<le> 2"
    and "length (show_int (num_waiting s)) \<le> 11" "length (show_int (serviced s)) \<le> 11"
proof -
  show "length (show_int (current_floor (elevator s))) \<le> 2"
    using length_show_int_nonneg [of "current_floor (elevator s)" 1] wf_position [OF assms]
    by (simp add: numeral_2_eq_2)
  show "length (show_int (loads (elevator s))) \<le> 2"
    using length_show_int_nonneg [of "loads (elevator s)" 1] wf_loads_range [OF assms]
    by (simp add: numeral_2_eq_2)
  obtain n m where "num_waiting s = wrap32 n" "serviced s = wrap32 m"
    using wfD(4) [OF assms] unfolding counts_ok_def by blast
  then show "length (show_int (num_waiting s)) \<le> 11" "length (show_int (serviced s)) \<le> 11"
    using length_show_wrap32 by simp_all
qed

lemma print_header_eq:
  assumes "well_formed s"
  shows "print_header s = Inr (header_text s)" and "length (header_text s) \<le> 168"
proof -
  obtain t where t: "state_text (state (elevator s)) = Some t" "length t \<le> 9"
    using state_text_ok [OF assms] by blast
  note n = header_numbers [OF assms] length_status_text [of "status (elevator s)"]
  show "print_header s = Inr (header_text s)"
    unfolding print_header_def emit_def header_text_def using t n
    by (simp add: res_simps)
  show "length (header_text s) \<le> 168"
    unfolding header_text_def using t n by simp
qed

lemma print_seats:
  assumes "well_formed s"
  shows "set q \<subseteq> set (linked s) \<Longrightarrow> length temp < TEMP_SIZE \<Longrightarrow>
    for_each_safe (\<lambda>a temp. rbind (deref (heap s) a) (\<lambda>p. strcat TEMP_SIZE temp (seat_text p))) q temp
      = strcat TEMP_SIZE temp (concat (map (\<lambda>a. seat_text (passenger_of s a)) q))"
proof (induction q arbitrary: temp)
  case Nil
  then show ?case by (simp add: res_simps)
next
  case (Cons a q)
  then have "heap s a = Some (passenger_of s a)" using wf_passenger(1) [OF assms] by simp
  then show ?case
    using Cons
    by (cases "length temp + 2 < TEMP_SIZE") (simp_all add: res_simps deref_in strcat_def)
qed

lemma print_floor_eq:
  assumes "well_formed s" and "1 \<le> i" and "i \<le> 10"
  shows "print_floor s i msg = rbind (sprintf TEMP_SIZE (floor_line s i)) (strcat ENTRY_SIZE msg)"
proof -
  let ?q = "waiting_list s ! nat (i - 1)"
  let ?l = "floor_label (current_floor (elevator s)) i (waiting_on_floor s ! nat (i - 1))"
  note pos = wf_position [OF assms(1)]
  have q: "set ?q \<subseteq> set (linked s)"
  proof -
    have "nat (i - 1) < length (waiting_list s)" using pos(4) assms(2,3) by simp
    then have "set ?q \<subseteq> set (concat (waiting_list s))" by (rule concat_nth_subset)
    then show ?thesis unfolding linked_def set_append by blast
  qed
  have a: "aget (waiting_on_floor s) (i - 1) = Inr (waiting_on_floor s ! nat (i - 1))"
    "aget (waiting_list s) (i - 1) = Inr ?q"
    using pos assms(2,3) by (simp_all add: res_simps)
  show ?thesis
  proof (cases "length ?l < TEMP_SIZE")
    case True
    then show ?thesis
      unfolding print_floor_def a rbind.simps floor_line_def
      by (simp only: sprintf_fits rbind.simps print_seats [OF assms(1) q] rbind_assoc [symmetric])
        (simp add: strcat_def sprintf_def)
  next
    case False
    then show ?thesis
      unfolding print_floor_def a rbind.simps floor_line_def by (simp add: sprintf_def)
  qed
qed

lemma print_floors_eq:
  assumes "well_formed s"
  shows "set is \<subseteq> {1..10} \<Longrightarrow> length msg < ENTRY_SIZE \<Longrightarrow> for_each_safe (print_floor s) is msg =
    (if (\<forall>i \<in> set is. length (floor_line s i) < TEMP_SIZE)
        \<and> length (msg @ concat (map (floor_line s) is)) < ENTRY_SIZE
     then Inr (msg @ concat (map (floor_line s) is)) else Inl BufferOverflow)"
proof (induction "is" arbitrary: msg)
  case Nil
  then show ?case by (simp add: res_simps)
next
  case (Cons i "is")
  have p: "print_floor s i msg = rbind (sprintf TEMP_SIZE (floor_line s i)) (strcat ENTRY_SIZE msg)"
    using Cons.prems by (intro print_floor_eq [OF assms]) auto
  show ?case
  proof (cases "length (floor_line s i) < TEMP_SIZE \<and> length msg + length (floor_line s i) < ENTRY_SIZE")
    case True
    then have "print_floor s i msg = Inr (msg @ floor_line s i)" by (simp add: p res_simps)
    moreover have "length (msg @ floor_line s i) < ENTRY_SIZE" using True by simp
    moreover have "set is \<subseteq> {1..10}" using Cons.prems by simp
    ultimately show ?thesis using Cons.IH [of "msg @ floor_line s i"] True by (simp add: res_simps)
  next
    case False
    then have "print_floor s i msg = Inl BufferOverflow" by (auto simp: p sprintf_def strcat_def)
    then show ?thesis using False by (auto simp: res_simps)
  qed
qed

text \<open>The report is complete, or one of the two buffers is too small for it.\<close>

lemma print_report_eq:
  assumes "well_formed s"
  shows "print_report s = (if report_fits s then Inr (report s) else Inl BufferOverflow)"
proof -
  have "length (header_text s) < ENTRY_SIZE" using print_header_eq(2) [OF assms] by simp
  moreover have "set (rev [1..FLOORS]) \<subseteq> {1..10}" by auto
  ultimately show ?thesis
    unfolding print_report_def print_header_eq(1) [OF assms] rbind.simps report_fits_def report_def
    using print_floors_eq [OF assms] by simp
qed

section \<open>Bounds\<close>

lemma length_floor_line:
  assumes "1 \<le> i" and "i \<le> 10"
  shows "length (floor_line s i) = 17 + length (show_int (waiting_on_floor s ! nat (i - 1)))
    + 2 * length (waiting_list s ! nat (i - 1))"
proof -
  consider "i = 10" | "0 \<le> i" "i < 10" using assms by linarith
  then have "length (show_int i) + (if i = 10 then 0 else 1) = 2"
  proof cases
    case 1
    then show ?thesis by (simp add: show_int_def show_nat.simps)
  next
    case 2
    then have "length (show_int i) \<le> Suc 0" using length_show_int_nonneg [of i 0] by simp
    then have "length (show_int i) = 1" using length_show_int_pos [of i] by linarith
    then show ?thesis using 2 by simp
  qed
  then show ?thesis by (auto simp: floor_line_def floor_label_def length_seats split: if_splits)
qed

lemma waiting_on_floor_digits:
  assumes "well_formed s" and "1 \<le> i" and "i \<le> 10" and "length (waiting_list s ! nat (i - 1)) \<le> 99"
  shows "length (show_int (waiting_on_floor s ! nat (i - 1))) \<le> 2"
proof -
  have "nat (i - 1) < nat FLOORS" using assms(2,3) by simp
  then have "waiting_on_floor s ! nat (i - 1) = wrap32 (int (length (waiting_list s ! nat (i - 1))))"
    using wfD(4) [OF assms(1)] unfolding counts_ok_def by blast
  also have "\<dots> = int (length (waiting_list s ! nat (i - 1)))"
    using assms(4) by (simp add: wrap32_id)
  finally show ?thesis
    using assms(4) length_show_int_nonneg [of "waiting_on_floor s ! nat (i - 1)" 1]
    by (simp add: numeral_2_eq_2)
qed

lemma small_queue_floors:
  assumes "well_formed s" and "\<forall>i < 10. length (waiting_list s ! i) \<le> 33"
  shows "1 \<le> i \<Longrightarrow> i \<le> 10 \<Longrightarrow> length (floor_line s i) \<le> 85"
    and "length (concat (map (floor_line s) (rev [1..FLOORS]))) \<le> 850"
proof -
  have line: "length (floor_line s i) \<le> 85" if "1 \<le> i" "i \<le> 10" for i
  proof -
    have "length (waiting_list s ! nat (i - 1)) \<le> 33" using assms(2) that by simp
    then show ?thesis
      using length_floor_line [OF that, of s] waiting_on_floor_digits [OF assms(1) that] by linarith
  qed
  then show "1 \<le> i \<Longrightarrow> i \<le> 10 \<Longrightarrow> length (floor_line s i) \<le> 85" .
  have "length (concat (map (floor_line s) is)) \<le> 85 * length is" if "set is \<subseteq> {1..10}" for "is"
    using that
  proof (induction "is")
    case (Cons i "is")
    then show ?case using line [of i] by simp
  qed simp
  from this [of "rev [1..FLOORS]"] show "length (concat (map (floor_line s) (rev [1..FLOORS]))) \<le> 850"
    by (auto simp del: length_concat)
qed

lemma small_queues_fit:
  assumes "well_formed s" and "\<forall>i < 10. length (waiting_list s ! i) \<le> 33"
  shows "report_fits s"
proof -
  have "length (report s) \<le> 1018"
    using print_header_eq(2) [OF assms(1)] small_queue_floors(2) [OF assms] unfolding report_def length_append by linarith
  then show ?thesis using small_queue_floors(1) [OF assms] by (fastforce simp: report_fits_def)
qed

lemma long_queue_does_not_fit:
  assumes "i < 10" and "40 < length (waiting_list s ! i)"
  shows "\<not> report_fits s"
proof -
  let ?f = "int i + 1"
  have f: "1 \<le> ?f" "?f \<le> 10" "nat (?f - 1) = i" using assms(1) by auto
  have "\<not> length (floor_line s ?f) < TEMP_SIZE"
    using length_floor_line [OF f(1,2), of s] assms(2) length_show_int_pos [of "waiting_on_floor s ! i"]
    unfolding f(3) TEMP_SIZE_def by linarith
  then show ?thesis using f(1,2) unfolding report_fits_def by (metis FLOORS_def atLeastAtMost_iff set_upto)
qed

section \<open>Properties\<close>

lemma open_eq:
  assumes "well_formed s" and "t \<noteq> m" and "bufs p t = None" and "bufs p m = None"
  shows "elevator_proc_open (Some t) (Some m) s p =
    (if report_fits s
     then Inr (0, p\<lparr>message := Some m, read_p := 1, bufs := (bufs p)(m \<mapsto> Some (report s))\<rparr>)
     else Inl BufferOverflow)"
proof -
  have "(bufs p)(t := None, m \<mapsto> v) = (bufs p)(m \<mapsto> v)" for v
    using assms(3) by (simp add: fun_eq_iff)
  then show ?thesis
    using assms(2)
    by (simp add: elevator_proc_open_def print_report_eq [OF assms(1)] res_simps store_obj_def
        kfree_def fun_upd_twist)
qed

text \<open>
  Opening \<open>/proc/elevator\<close>, when both allocations succeed: either the whole report fits its
  two buffers, and then \<open>open\<close> returns 0 with exactly the report in a fresh message buffer, the
  temporary buffer freed, nothing else allocated or lost; or one of the buffers overflows.
\<close>

lemma open_writes_the_report:
  assumes "well_formed s" and "t \<noteq> m" and "bufs p t = None" and "bufs p m = None"
  shows "elevator_proc_open (Some t) (Some m) s p =
    (if (\<forall>i \<in> {1..FLOORS}. length (floor_line s i) < TEMP_SIZE) \<and> length (report s) < ENTRY_SIZE
     then Inr (0, p\<lparr>message := Some m, read_p := 1, bufs := (bufs p)(m \<mapsto> Some (report s))\<rparr>)
     else Inl BufferOverflow)"
  using open_eq [OF assms] by (simp add: report_fits_def)

definition proc_start :: proc_state where
  "proc_start = \<lparr>message = None, read_p = 0, bufs = Map.empty\<rparr>"

lemma proc_start_bufs: "bufs proc_start a = None"
  by (simp add: proc_start_def)

lemma fits_demo: "report_fits demo_full"
  by (rule small_queues_fit [OF wf_demo_full]) (simp add: all_below_10 demo_full_def)

lemma open_writes_the_report_witness:
  "elevator_proc_open (Some 1) (Some 2) demo_full proc_start =
     Inr (0, \<lparr>message = Some 2, read_p = 1, bufs = [2 \<mapsto> Some (report demo_full)]\<rparr>)"
  using open_writes_the_report [OF wf_demo_full, of 1 2 proc_start] fits_demo
  by (simp add: report_fits_def proc_start_def)

text \<open>
  Enough room: as long as no floor has more than 33 passengers waiting, opening the proc
  file does not overflow a buffer.
\<close>

lemma open_safe_up_to_33:
  assumes "well_formed s" and "\<forall>i < 10. length (waiting_list s ! i) \<le> 33"
    and "t \<noteq> m" and "bufs p t = None" and "bufs p m = None"
  shows "\<exists>p'. elevator_proc_open (Some t) (Some m) s p = Inr (0, p') \<and> bufs p' m = Some (Some (report s))
    \<and> length (report s) < ENTRY_SIZE"
  using open_eq [OF assms(1,3-5)] small_queues_fit [OF assms(1,2)] by (simp add: report_fits_def)

lemma open_safe_up_to_33_witness:
  "\<exists>p'. elevator_proc_open (Some 1) (Some 2) demo_full proc_start = Inr (0, p')"
proof -
  have q: "\<forall>i < 10. length (waiting_list demo_full ! i) \<le> 33" by (simp add: all_below_10 demo_full_def)
  show ?thesis using open_safe_up_to_33 [OF wf_demo_full q, of 1 2 proc_start] by (auto simp: proc_start_def)
qed

text \<open>
  Overflow: as soon as 41 passengers wait on one floor, opening the proc file writes past
  the end of the 100 bytes of \<open>temp\<close> (or of the 1024 of \<open>message\<close> before that). Requests are
  not limited, so any user can bring this about.
\<close>

lemma open_overflows_from_41:
  assumes "well_formed s" and "i < 10" and "41 \<le> length (waiting_list s ! i)"
    and "t \<noteq> m" and "bufs p t = None" and "bufs p m = None"
  shows "elevator_proc_open (Some t) (Some m) s p = Inl BufferOverflow"
  using open_eq [OF assms(1,4-6)] long_queue_does_not_fit [OF assms(2), of s] assms(3) by simp

text \<open>41 requests on floor 1.\<close>

definition demo_crowd :: kstate where
  "demo_crowd = boot_state\<lparr>waiting_list := [0..<41] # replicate 9 [], num_waiting := 41,
     waiting_on_floor := 41 # replicate 9 0,
     heap := (\<lambda>a. if a < 41 then Some \<lparr>ptype = 0, start_floor = 1, destination_floor = 5\<rparr> else None)\<rparr>"

lemma wf_demo_crowd: "well_formed demo_crowd"
proof -
  have "set (linked demo_crowd) = dom (heap demo_crowd)"
    by (auto simp: linked_def demo_crowd_def boot_explicit dom_def)
  then have "links_ok demo_crowd"
    by (simp add: links_ok_def) (simp add: linked_def demo_crowd_def boot_explicit)
  moreover have "queues_ok demo_crowd" "counts_ok demo_crowd"
    unfolding queues_ok_def counts_ok_def
    by (simp_all add: all_below_10 demo_crowd_def boot_explicit wrap32_def sum_list_replicate)
      (auto intro!: exI [of _ 0])
  ultimately show ?thesis
    by (simp add: well_formed_def)
      (simp add: demo_crowd_def boot_explicit heap_ok_def loads_ok_def infection_ok_def position_ok_def
        flags_ok_def passenger_ok_def split: if_splits)
qed

lemma open_overflows_from_41_witness:
  "elevator_proc_open (Some 1) (Some 2) demo_crowd proc_start = Inl BufferOverflow"
  by (rule open_overflows_from_41 [OF wf_demo_crowd, of 0]) (simp_all add: demo_crowd_def proc_start_def)

text \<open>
  C29. How many may wait: opening the proc file succeeds with the complete report as long as no
  floor has more than 33 passengers waiting, and overflows a buffer as soon as some floor has 41.
  Requests are not limited, so any user can bring this about.
\<close>

theorem open_overflow_bounds:
  assumes "well_formed s" and "t \<noteq> m" and "bufs p t = None" and "bufs p m = None"
  shows "((\<forall>i < 10. length (waiting_list s ! i) \<le> 33) \<longrightarrow>
      (\<exists>p'. elevator_proc_open (Some t) (Some m) s p = Inr (0, p') \<and> bufs p' m = Some (Some (report s))))
    \<and> ((\<exists>i < 10. 41 \<le> length (waiting_list s ! i)) \<longrightarrow>
      elevator_proc_open (Some t) (Some m) s p = Inl BufferOverflow)"
  using open_safe_up_to_33 [OF assms(1) _ assms(2-4)] open_overflows_from_41 [OF assms(1) _ _ assms(2-4)]
  by blast

theorem open_overflow_bounds_witness:
  "(\<exists>p'. elevator_proc_open (Some 1) (Some 2) demo_full proc_start = Inr (0, p'))
    \<and> elevator_proc_open (Some 1) (Some 2) demo_crowd proc_start = Inl BufferOverflow"
proof -
  have "\<forall>i < 10. length (waiting_list demo_full ! i) \<le> 33" by (simp add: all_below_10 demo_full_def)
  moreover have "\<exists>i < 10. 41 \<le> length (waiting_list demo_crowd ! i)"
    by (intro exI [of _ 0]) (simp add: demo_crowd_def)
  ultimately show ?thesis
    using open_overflow_bounds [OF wf_demo_full _ proc_start_bufs proc_start_bufs, of 1 2]
      open_overflow_bounds [OF wf_demo_crowd _ proc_start_bufs proc_start_bufs, of 1 2] by auto
qed

text \<open>
  Two readers break each other: when a second \<open>open\<close> comes before the first one is released,
  the only pointer to the first buffer is overwritten. The first \<open>release\<close> frees the second
  buffer; after that the second reader's \<open>read\<close> uses freed memory and its \<open>release\<close> frees it
  again, while the first buffer stays allocated.
\<close>

lemma two_readers_double_free:
  assumes "well_formed s" and "report_fits s" and "t \<noteq> m1" and "t \<noteq> m2" and "m1 \<noteq> m2"
    and "bufs p t = None" and "bufs p m1 = None" and "bufs p m2 = None"
  shows "\<exists>p1 p2 p3. elevator_proc_open (Some t) (Some m1) s p = Inr (0, p1)
    \<and> elevator_proc_open (Some t) (Some m2) s p1 = Inr (0, p2)
    \<and> elevator_proc_release p2 = Inr (0, p3)
    \<and> elevator_proc_read size2 p3 = Inl UseAfterFree
    \<and> elevator_proc_release p3 = Inl DoubleFree
    \<and> bufs p3 m1 = Some (Some (report s))"
  using open_eq [OF assms(1,3,6,7)] assms
    open_eq [OF assms(1,4), of "p\<lparr>message := Some m1, read_p := 1, bufs := (bufs p)(m1 \<mapsto> Some (report s))\<rparr>"]
  by (simp add: elevator_proc_release_def elevator_proc_read_def kfree_def deref_def res_simps)

lemma two_readers_double_free_witness:
  "\<exists>p1 p2 p3. elevator_proc_open (Some 1) (Some 2) demo_full proc_start = Inr (0, p1)
    \<and> elevator_proc_open (Some 1) (Some 3) demo_full p1 = Inr (0, p2)
    \<and> elevator_proc_release p2 = Inr (0, p3) \<and> elevator_proc_release p3 = Inl DoubleFree"
  using two_readers_double_free [OF wf_demo_full fits_demo _ _ _ proc_start_bufs proc_start_bufs
      proc_start_bufs, of 1 2 3 16]
  by simp blast

text \<open>
  Failed allocations in \<open>open\<close>: without a message buffer it returns \<open>-ENOMEM\<close>, but the
  temporary buffer it already has stays allocated for good, and the global pointer is now
  \<open>NULL\<close>, so that a reader who has the file open faults; without a temporary buffer \<open>open\<close>
  itself dereferences \<open>NULL\<close>.
\<close>

lemma open_without_memory:
  assumes "bufs p t = None"
  shows "(\<exists>p'. elevator_proc_open (Some t) None s p = Inr (- 12, p') \<and> bufs p' t = Some None
       \<and> elevator_proc_read size1 p' = Inl NullDeref)
    \<and> elevator_proc_open None (Some m) s p = Inl NullDeref"
  by (simp_all add: elevator_proc_open_def elevator_proc_read_def store_obj_def res_simps)

lemma open_without_memory_witness:
  "elevator_proc_open None (Some 2) demo_full proc_start = Inl NullDeref"
  using open_without_memory [OF proc_start_bufs, of 1 demo_full 16 2] by blast

section \<open>The debugging printers\<close>

definition passenger_line :: "passenger_data \<Rightarrow> string" where
  "passenger_line p = ''type: '' @ show_int (ptype p) @ '', start: '' @ show_int (start_floor p)
     @ '', destination: '' @ show_int (destination_floor p) @ newline"

definition log_visit :: "kstate \<Rightarrow> addr \<Rightarrow> string list \<Rightarrow> fault + string list" where
  "log_visit s a out = rbind (deref (heap s) a) (\<lambda>p. Inr (out @ [passenger_line p]))"

text \<open>The result is the return value and the lines given to \<open>printk\<close>.\<close>

definition print_passengers :: "kstate \<Rightarrow> fault + (int \<times> string list)" where
  "print_passengers s =
     rbind (for_upto 10 (\<lambda>i out.
              rbind (aget (waiting_list s) (int i)) (\<lambda>q.
              for_each_safe (log_visit s) q
                (out @ [''floor # is = '' @ show_int (int i + 1) @ newline])))
            [''PRINTING ALL FLOORS'' @ newline])
       (\<lambda>out. Inr (0, out))"

definition print_who_on_it :: "kstate \<Rightarrow> fault + (int \<times> string list)" where
  "print_who_on_it s =
     rbind (for_each_safe (log_visit s) (onboard (elevator s)) [''printing people on elevator'' @ newline])
       (\<lambda>out. Inr (0, out))"

lemma log_visits:
  assumes "well_formed s"
  shows "set q \<subseteq> set (linked s) \<Longrightarrow> for_each_safe (log_visit s) q out =
    Inr (out @ map (\<lambda>a. passenger_line (passenger_of s a)) q)"
proof (induction q arbitrary: out)
  case (Cons a q)
  then have "heap s a = Some (passenger_of s a)" using wf_passenger(1) [OF assms] by simp
  then show ?case using Cons by (simp add: log_visit_def res_simps deref_in)
qed (simp add: res_simps)

text \<open>
  The debugging printers visit everybody and fault nowhere: \<open>print_who_on_it\<close> logs one
  line for each passenger on board, in order, and \<open>print_passengers\<close> a heading for each floor
  followed by one line for each passenger who waits there.
\<close>

lemma debug_printers_list_everybody:
  assumes "well_formed s"
  shows "print_who_on_it s = Inr (0, (''printing people on elevator'' @ newline)
       # map (\<lambda>a. passenger_line (passenger_of s a)) (onboard (elevator s)))
    \<and> print_passengers s = Inr (0, (''PRINTING ALL FLOORS'' @ newline)
       # concat (map (\<lambda>i. (''floor # is = '' @ show_int (int i + 1) @ newline)
            # map (\<lambda>a. passenger_line (passenger_of s a)) (waiting_list s ! i)) [0..<10]))"
proof -
  have on: "set (onboard (elevator s)) \<subseteq> set (linked s)" by (simp add: linked_def)
  let ?f = "\<lambda>i. (''floor # is = '' @ show_int (int i + 1) @ newline)
       # map (\<lambda>a. passenger_line (passenger_of s a)) (waiting_list s ! i)"
  have "for_upto n (\<lambda>i out. rbind (aget (waiting_list s) (int i)) (\<lambda>q.
        for_each_safe (log_visit s) q (out @ [''floor # is = '' @ show_int (int i + 1) @ newline]))) out
      = Inr (out @ concat (map ?f [0..<n]))" if "n \<le> 10" for n out
    using that
  proof (induction n)
    case (Suc n)
    have n: "n < length (waiting_list s)" using Suc.prems wf_position(4) [OF assms] by simp
    then have "set (waiting_list s ! n) \<subseteq> set (linked s)"
      using concat_nth_subset [OF n] unfolding linked_def set_append by blast
    from log_visits [OF assms this] Suc n show ?case by (simp add: for_upto_Suc res_simps)
  qed (simp add: res_simps)
  then show ?thesis
    unfolding print_who_on_it_def print_passengers_def log_visits [OF assms on]
    by (simp add: res_simps del: upt_Suc)
qed

end
