(* ===== verification/ReportText.thy ===== *)
theory ReportText
  imports ProcFile
begin

text \<open>
  What a user learns from \<open>/proc/elevator\<close>: a reader of the report's text, written as one would
  write a monitoring tool, which gets everything back that the code puts in. A part of the reader
  takes what it needs from the front of the text and hands the rest on.
\<close>

section \<open>A reader of the text\<close>

definition expect :: "string \<Rightarrow> string \<Rightarrow> string option" where
  "expect w s = (if take (length w) s = w then Some (drop (length w) s) else None)"

definition is_digit :: "char \<Rightarrow> bool" where
  "is_digit c \<longleftrightarrow> c \<in> set ''0123456789''"

definition read_digits :: "string \<Rightarrow> (nat \<times> string) option" where
  "read_digits s =
     (let ds = takeWhile is_digit s in if ds = [] then None else Some (read_nat ds, dropWhile is_digit s))"

definition read_int :: "string \<Rightarrow> (int \<times> string) option" where
  "read_int s =
     (case expect ''-'' s of
        Some s \<Rightarrow> map_option (apfst (\<lambda>n. - int n)) (read_digits s)
      | None \<Rightarrow> map_option (apfst int) (read_digits s))"

fun read_first :: "('a \<times> string) list \<Rightarrow> string \<Rightarrow> ('a \<times> string) option" where
  "read_first [] s = None"
| "read_first ((x, w) # ws) s = (case expect w s of Some s \<Rightarrow> Some (x, s) | None \<Rightarrow> read_first ws s)"

definition field :: "string \<Rightarrow> (string \<Rightarrow> ('a \<times> string) option) \<Rightarrow> string \<Rightarrow> ('a \<times> string) option" where
  "field w rd s = Option.bind (expect w s) rd"

text \<open>Those who wait on a floor, \<open>True\<close> for a zombie, up to the end of the line.\<close>

fun read_seats :: "string \<Rightarrow> (bool list \<times> string) option" where
  "read_seats (c # d # s) =
     (if c = CHR 0x0A then Some ([], d # s)
      else if c = CHR '' '' \<and> (d = CHR ''|'' \<or> d = CHR ''X'')
      then map_option (apfst ((#) (d = CHR ''X''))) (read_seats s) else None)"
| "read_seats [c] = (if c = CHR 0x0A then Some ([], []) else None)"
| "read_seats [] = None"

record floor_row =
  row_floor :: int
  row_here :: bool
  row_count :: int
  row_zombies :: "bool list"

definition read_row :: "string \<Rightarrow> (floor_row \<times> string) option" where
  "read_row s =
     Option.bind (field ''['' (read_first [(True, ''*''), (False, '' '')]) s) (\<lambda>(h, s).
     Option.bind (field ''] Floor'' (read_int \<circ> dropWhile (\<lambda>c. c = CHR '' '')) s) (\<lambda>(i, s).
     Option.bind (field '':  '' read_int s) (\<lambda>(n, s).
     Option.bind (field '' '' read_seats s) (\<lambda>(zs, s).
       Some (\<lparr>row_floor = i, row_here = h, row_count = n, row_zombies = zs\<rparr>, s)))))"

fun read_many :: "(string \<Rightarrow> ('a \<times> string) option) \<Rightarrow> nat \<Rightarrow> string \<Rightarrow> ('a list \<times> string) option" where
  "read_many rd 0 s = Some ([], s)"
| "read_many rd (Suc n) s =
     Option.bind (rd s) (\<lambda>(x, s). Option.bind (read_many rd n s) (\<lambda>(xs, s). Some (x # xs, s)))"

record report_view =
  view_state :: int
  view_infected :: bool
  view_floor :: int
  view_loads :: int
  view_waiting :: int
  view_serviced :: int
  view_rows :: "floor_row list"

definition read_state :: "string \<Rightarrow> (int \<times> string) option" where
  "read_state = read_first [(OFFLINE, ''OFFLINE'' @ newline), (IDLE, ''IDELE '' @ newline),
     (LOADING, ''LOADING '' @ newline), (UP, ''UP'' @ newline), (DOWN, ''DOWN'' @ newline)]"

definition read_report :: "string \<Rightarrow> report_view option" where
  "read_report s =
     Option.bind (field ''Elevator state: '' read_state s) (\<lambda>(v, s).
     Option.bind (field ''ELevator status: '' (read_first [(False, ''Uninfected''), (True, ''Infected'')]) s)
       (\<lambda>(z, s).
     Option.bind (field (newline @ ''Current floor: '') read_int s) (\<lambda>(f, s).
     Option.bind (field (newline @ ''Number of passengers: '') read_int s) (\<lambda>(l, s).
     Option.bind (field (newline @ ''Number of waiting: '') read_int s) (\<lambda>(w, s).
     Option.bind (field (newline @ ''Number passengers serviced: '') read_int s) (\<lambda>(d, s).
     Option.bind (field (newline @ newline) (read_many read_row (nat FLOORS)) s) (\<lambda>(rows, s).
       if s = [] then Some \<lparr>view_state = v, view_infected = z, view_floor = f, view_loads = l,
         view_waiting = w, view_serviced = d, view_rows = rows\<rparr> else None)))))))"

text \<open>What there is to be learnt about a state.\<close>

definition row_of :: "kstate \<Rightarrow> int \<Rightarrow> floor_row" where
  "row_of s i = \<lparr>row_floor = i, row_here = (current_floor (elevator s) = i),
     row_count = waiting_on_floor s ! nat (i - 1),
     row_zombies = map (\<lambda>a. ptype (passenger_of s a) \<noteq> 0) (waiting_list s ! nat (i - 1))\<rparr>"

definition view_of :: "kstate \<Rightarrow> report_view" where
  "view_of s = \<lparr>view_state = state (elevator s), view_infected = (status (elevator s) \<noteq> 0),
     view_floor = current_floor (elevator s), view_loads = loads (elevator s), view_waiting = num_waiting s,
     view_serviced = serviced s, view_rows = map (row_of s) (rev [1..FLOORS])\<rparr>"

section \<open>Written, then read\<close>

text \<open>A format: what is written comes back, and the rest of the text is left alone.\<close>

locale text_format =
  fixes wr :: "'a \<Rightarrow> string" and rd :: "string \<Rightarrow> ('b \<times> string) option" and val :: "'a \<Rightarrow> 'b"
    and ok :: "'a \<Rightarrow> bool" and stop :: "string \<Rightarrow> bool"
  assumes reads: "ok x \<Longrightarrow> stop r \<Longrightarrow> rd (wr x @ r) = Some (val x, r)"
begin

lemma reads_field: "ok x \<Longrightarrow> stop r \<Longrightarrow> field w rd (w @ wr x @ r) = Some (val x, r)"
  by (simp add: field_def expect_def reads)

lemma reads_many:
  assumes "\<And>r. stop r"
  shows "list_all ok xs \<Longrightarrow> read_many rd (length xs) (concat (map wr xs) @ r) = Some (map val xs, r)"
  by (induction xs) (simp_all add: reads assms)

end

lemma is_digit_digit [simp]: "d < 10 \<Longrightarrow> is_digit (digit d)"
  unfolding below_10 by (auto simp: digit_def is_digit_def)

lemma read_digits_show:
  assumes "r = [] \<or> \<not> is_digit (hd r)"
  shows "read_digits (show_nat n @ r) = Some (n, r)"
proof -
  have d: "\<forall>c \<in> set (show_nat n). is_digit c" using show_nat_digits [of _ n] by fastforce
  then have "takeWhile is_digit (show_nat n @ r) = show_nat n" "dropWhile is_digit (show_nat n @ r) = r"
    using assms by (cases r; simp add: takeWhile_append2 dropWhile_append2)+
  then show ?thesis by (simp add: read_digits_def read_show_nat Let_def)
qed

lemma expect_minus: "is_digit c \<Longrightarrow> expect ''-'' (c # s) = None"
  by (auto simp: expect_def is_digit_def)

interpretation int_format: text_format show_int read_int "\<lambda>i. i" "\<lambda>_. True" "\<lambda>r. r = [] \<or> \<not> is_digit (hd r)"
proof
  fix i :: int and r :: string
  assume r: "r = [] \<or> \<not> is_digit (hd r)"
  obtain c cs where s: "show_nat (nat i) = c # cs" by (meson neq_Nil_conv show_nat_not_Nil)
  then have "is_digit c" using show_nat_digits [of c "nat i"] by auto
  then have "expect ''-'' (show_nat (nat i) @ r) = None" by (simp add: s expect_minus)
  moreover have "expect ''-'' (CHR ''-'' # t) = Some t" for t by (simp add: expect_def)
  ultimately show "read_int (show_int i @ r) = Some (i, r)"
    using read_digits_show [OF r] by (simp add: read_int_def show_int_def)
qed

interpretation seats_format: text_format "\<lambda>ps. concat (map seat_text ps) @ newline" read_seats
  "map (\<lambda>p. ptype p \<noteq> 0)" "\<lambda>_. True" "\<lambda>_. True"
proof
  fix ps r
  show "read_seats ((concat (map seat_text ps) @ newline) @ r) = Some (map (\<lambda>p. ptype p \<noteq> 0) ps, r)"
  proof (induction ps)
    case Nil
    show ?case by (cases r) simp_all
  qed (simp add: seat_text_def)
qed

interpretation state_format: text_format "the \<circ> state_text" read_state "\<lambda>v. v" "\<lambda>v. v \<in> {0..4}" "\<lambda>_. True"
proof
  fix v :: int and r
  assume "v \<in> {0..4}"
  then consider "v = 0" | "v = 1" | "v = 2" | "v = 3" | "v = 4" by fastforce
  then show "read_state ((the \<circ> state_text) v @ r) = Some (v, r)"
    by cases (simp_all add: state_text_def expect_def read_state_def)
qed

lemma row_reads:
  assumes "1 \<le> i" and "i \<le> 10"
  shows "read_row (floor_line s i @ r) = Some (row_of s i, r)"
proof -
  let ?q = "map (passenger_of s) (waiting_list s ! nat (i - 1))"
  let ?n = "waiting_on_floor s ! nat (i - 1)"
  let ?seats = "(concat (map seat_text ?q) @ newline) @ r"
  have nd: "\<not> is_digit CHR '':''" "\<not> is_digit CHR '' ''" by (simp_all add: is_digit_def)
  have blank: "dropWhile (\<lambda>c. c = CHR '' '') (show_int i @ t) = show_int i @ t" for t
  proof -
    obtain c cs where c: "show_nat (nat i) = c # cs" by (meson neq_Nil_conv show_nat_not_Nil)
    then have "is_digit c" using show_nat_digits [of c "nat i"] by auto
    then have "c \<noteq> CHR '' ''" using nd by auto
    then show ?thesis using assms c by (simp add: show_int_def)
  qed
  have l: "floor_line s i @ r = ''['' @ (if current_floor (elevator s) = i then ''*'' else '' '') @ ''] Floor''
      @ (if i = 10 then '' '' else ''  '') @ show_int i @ '':  '' @ show_int ?n @ '' '' @ ?seats"
    by (simp add: floor_line_def floor_label_def comp_def)
  have h: "field ''['' (read_first [(True, ''*''), (False, '' '')]) (''['' @ (if b then ''*'' else '' '') @ t) = Some (b, t)"
    for b t by (simp add: field_def expect_def)
  have f: "field ''] Floor'' (read_int \<circ> dropWhile (\<lambda>c. c = CHR '' ''))
      (''] Floor'' @ (if b then '' '' else ''  '') @ show_int i @ '':  '' @ t) = Some (i, '':  '' @ t)" for b t
    using int_format.reads [of "'':  '' @ t" i] blank nd by (simp add: field_def expect_def)
  have n: "field '':  '' read_int ('':  '' @ show_int ?n @ '' '' @ t) = Some (?n, '' '' @ t)" for t
    by (rule int_format.reads_field) (simp_all add: nd)
  have z: "field '' '' read_seats ('' '' @ ?seats) = Some (map (\<lambda>p. ptype p \<noteq> 0) ?q, r)"
    by (rule seats_format.reads_field) simp_all
  show ?thesis
    unfolding l read_row_def h f n z bind.bind_lunit prod.case row_of_def by (simp add: comp_def)
qed

interpretation row_format: text_format "floor_line s" read_row "row_of s" "\<lambda>i. 1 \<le> i \<and> i \<le> 10" "\<lambda>_. True" for s
  by unfold_locales (simp add: row_reads)

lemma report_reads:
  assumes "well_formed s"
  shows "read_report (report s) = Some (view_of s)"
proof -
  let ?rows = "concat (map (floor_line s) (rev [1..FLOORS]))"
  have nl: "\<not> is_digit CHR 0x0A" by (simp add: is_digit_def)
  have r: "report s = ''Elevator state: '' @ (the \<circ> state_text) (state (elevator s))
      @ ''ELevator status: '' @ (if status (elevator s) = 0 then ''Uninfected'' else ''Infected'')
      @ (newline @ ''Current floor: '') @ show_int (current_floor (elevator s))
      @ (newline @ ''Number of passengers: '') @ show_int (loads (elevator s))
      @ (newline @ ''Number of waiting: '') @ show_int (num_waiting s)
      @ (newline @ ''Number passengers serviced: '') @ show_int (serviced s) @ (newline @ newline) @ ?rows"
    by (simp add: report_def header_text_def status_text_def)
  have st: "field ''Elevator state: '' read_state (''Elevator state: '' @ (the \<circ> state_text) (state (elevator s)) @ t)
      = Some (state (elevator s), t)" for t
    using wfD(8) [OF assms] by (intro state_format.reads_field) (simp_all add: flags_ok_def)
  have inf: "field ''ELevator status: '' (read_first [(False, ''Uninfected''), (True, ''Infected'')])
      (''ELevator status: '' @ (if b then ''Uninfected'' else ''Infected'') @ t) = Some (\<not> b, t)" for b t
    by (simp add: field_def expect_def)
  have num: "field w read_int (w @ show_int i @ (newline @ t) @ u) = Some (i, (newline @ t) @ u)" for w i t u
    by (rule int_format.reads_field) (simp_all add: nl)
  have "list_all (\<lambda>i. 1 \<le> i \<and> i \<le> 10) (rev [1..FLOORS])" by (auto simp: list_all_iff)
  then have "read_many read_row (length (rev [1..FLOORS])) (?rows @ []) = Some (map (row_of s) (rev [1..FLOORS]), [])"
    by (rule row_format.reads_many [rotated]) simp
  moreover have "length (rev [1..FLOORS]) = nat FLOORS" by simp
  ultimately have rows: "field (newline @ newline) (read_many read_row (nat FLOORS)) ((newline @ newline) @ ?rows)
      = Some (map (row_of s) (rev [1..FLOORS]), [])"
    unfolding field_def expect_def by (simp only: append_Nil2 length_append take_append drop_append) simp
  show ?thesis
    unfolding r read_report_def st inf num rows bind.bind_lunit prod.case by (simp add: view_of_def)
qed

section \<open>Properties\<close>

text \<open>
  C28. The report is complete and unambiguous: when the allocations succeed and the report fits,
  the first \<open>read\<close> after an \<open>open\<close> hands out a text from which state, infection, floor, the three
  counters and, floor by floor, the mark of the cabin, the count and who waits in which order can
  be read back; the second \<open>read\<close> reports the end. So two states with the same report agree in all
  of this.
\<close>

theorem report_can_be_read_back:
  assumes "well_formed s" and "report_fits s" and "t \<noteq> m" and "bufs p t = None" and "bufs p m = None"
  shows "\<exists>p1 p2 p3 txt. elevator_proc_open (Some t) (Some m) s p = Inr (0, p1)
    \<and> elevator_proc_read sz p1 = Inr ((int (length txt), Some txt), p2)
    \<and> elevator_proc_read sz p2 = Inr ((0, None), p3)
    \<and> read_report txt = Some (view_of s)"
  using assms open_eq [OF assms(1,3-5)] report_reads [OF assms(1)]
  by (simp add: elevator_proc_read_def deref_def res_simps Let_def)

theorem report_can_be_read_back_witness:
  "\<exists>p1 p2 txt. elevator_proc_open (Some 1) (Some 2) demo_full proc_start = Inr (0, p1)
    \<and> elevator_proc_read 4096 p1 = Inr ((int (length txt), Some txt), p2)
    \<and> read_report txt = Some (view_of demo_full) \<and> view_loads (view_of demo_full) = 10"
proof -
  have "view_loads (view_of demo_full) = 10" by (simp add: view_of_def demo_full_def)
  then show ?thesis
    using report_can_be_read_back [OF wf_demo_full fits_demo _ proc_start_bufs proc_start_bufs, of 1 2 4096] by auto
qed

end
