(* ===== verification/ReportRace.thy ===== *)
theory ReportRace
  imports ProcFile Interleaving
begin

text \<open>
  \<open>elevator_proc_open\<close> reads the globals without the mutex. Here the function is cut at the
  points where the scheduler can run in between: after the header, before each floor, before each
  entry of a queue. The reader keeps a pointer into the queue; where it goes next is decided by
  the list the entry is on when the pointer is followed.
\<close>

section \<open>Following a pointer\<close>

datatype head = OnboardHead | FloorHead int

datatype cursor = AtEntry addr | AtHead head

fun after :: "head \<Rightarrow> addr list \<Rightarrow> cursor" where
  "after h [] = AtHead h"
| "after h (a # q) = AtEntry a"

definition behind :: "addr \<Rightarrow> addr list \<Rightarrow> addr list" where
  "behind a q = tl (dropWhile (\<lambda>b. b \<noteq> a) q)"

text \<open>The queue that holds \<open>a\<close>, if it is on one.\<close>

definition queue_of :: "addr \<Rightarrow> addr list list \<Rightarrow> nat option" where
  "queue_of a wl = find (\<lambda>i. a \<in> set (wl ! i)) [0..<length wl]"

definition next_entry :: "kstate \<Rightarrow> addr \<Rightarrow> fault + cursor" where
  "next_entry s a =
     rbind (deref (heap s) a) (\<lambda>_.
       if a \<in> set (onboard (elevator s)) then Inr (after OnboardHead (behind a (onboard (elevator s))))
       else (case queue_of a (waiting_list s) of
               Some j \<Rightarrow> Inr (after (FloorHead (int j + 1)) (behind a (waiting_list s ! j)))
             | None \<Rightarrow> Inl UseAfterFree))"

section \<open>The reader\<close>

datatype reader_pc =
    AtHeader
  | AtFloor int string
  | AtWalk int cursor string string
  | AtEnd string

text \<open>\<open>AtWalk i cur temp msg\<close>: in the loop over the queue of floor \<open>i\<close>, before the test for its head.\<close>

fun reader_segment :: "kstate \<Rightarrow> reader_pc \<Rightarrow> fault + reader_pc" where
  "reader_segment s AtHeader = rbind (print_header s) (\<lambda>msg. Inr (AtFloor FLOORS msg))"
| "reader_segment s (AtFloor i msg) =
     (if i > 0 then
        rbind (aget (waiting_on_floor s) (i - 1)) (\<lambda>n.
        rbind (sprintf TEMP_SIZE (floor_label (current_floor (elevator s)) i n)) (\<lambda>temp.
        rbind (aget (waiting_list s) (i - 1)) (\<lambda>q.
          Inr (AtWalk i (after (FloorHead i) q) temp msg))))
      else Inr (AtEnd msg))"
| "reader_segment s (AtWalk i (AtEntry a) temp msg) =
     rbind (deref (heap s) a) (\<lambda>p.
     rbind (strcat TEMP_SIZE temp (seat_text p)) (\<lambda>temp.
     rbind (next_entry s a) (\<lambda>cur. Inr (AtWalk i cur temp msg))))"
| "reader_segment s (AtWalk i (AtHead h) temp msg) =
     (if h = FloorHead i then
        rbind (strcat TEMP_SIZE temp newline) (\<lambda>temp.
        rbind (strcat ENTRY_SIZE msg temp) (\<lambda>msg. Inr (AtFloor (i - 1) msg)))
      else Inl HeadAsEntry)"
| "reader_segment s (AtEnd msg) = Inr (AtEnd msg)"

text \<open>The reader alone, for at most \<open>n\<close> segments.\<close>

fun run_reader :: "nat \<Rightarrow> kstate \<Rightarrow> reader_pc \<Rightarrow> fault + reader_pc" where
  "run_reader 0 s pc = Inr pc"
| "run_reader (Suc n) s pc = rbind (reader_segment s pc) (run_reader n s)"

section \<open>The segments make the report\<close>

lemma run_reader_add: "run_reader (m + n) s pc = rbind (run_reader m s pc) (run_reader n s)"
proof (induction m arbitrary: pc)
  case (Suc m)
  then show ?case by (cases "reader_segment s pc") simp_all
qed simp

lemma run_reader_0 [simp]: "run_reader 0 s = Inr"
  by (simp add: fun_eq_iff)

lemma run_reader_end [simp]: "run_reader n s (AtEnd msg) = Inr (AtEnd msg)"
  by (induction n) simp_all

lemma behind_append: "a \<notin> set xs \<Longrightarrow> behind a (xs @ a # q) = q"
proof -
  assume "a \<notin> set xs"
  then have "dropWhile (\<lambda>b. b \<noteq> a) (xs @ a # q) = a # q" by (subst dropWhile_append2) auto
  then show ?thesis by (simp add: behind_def)
qed

lemma queue_of_unique:
  assumes "distinct (concat wl)" and "i < length wl" and "a \<in> set (wl ! i)"
  shows "queue_of a wl = Some i"
proof -
  have "a \<notin> set (wl ! j)" if "j < i" for j
  proof -
    have "concat wl = concat (take i wl) @ wl ! i @ concat (drop (Suc i) wl)"
      by (subst id_take_nth_drop [OF assms(2)]) simp
    then have "set (concat (take i wl)) \<inter> set (wl ! i) = {}" using assms(1) by auto
    moreover have "wl ! j = take i wl ! j" "j < length (take i wl)" using that assms(2) by simp_all
    then have "set (wl ! j) \<subseteq> set (concat (take i wl))" using concat_nth_subset by metis
    ultimately show ?thesis using assms(3) by blast
  qed
  then show ?thesis using assms(2,3)
    by (auto simp: queue_of_def find_Some_iff intro!: exI [of _ i])
qed

lemma next_waiting:
  assumes w: "well_formed s" and i: "1 \<le> i" "i \<le> 10"
    and q: "waiting_list s ! nat (i - 1) = xs @ a # q"
  shows "next_entry s a = Inr (after (FloorHead i) q)"
    and "heap s a = Some (passenger_of s a)"
proof -
  let ?j = "nat (i - 1)"
  have j: "?j < length (waiting_list s)" using wf_position(4) [OF w] i by simp
  have d: "distinct (linked s)" using wfD(1) [OF w] by (simp add: links_ok_def)
  have a: "a \<in> set (concat (waiting_list s))" using concat_nth_subset [OF j] unfolding q by auto
  then show h: "heap s a = Some (passenger_of s a)"
    using wf_passenger(1) [OF w] unfolding linked_def set_append by blast
  have "a \<notin> set (onboard (elevator s))" using d a unfolding linked_def by auto
  moreover have "queue_of a (waiting_list s) = Some ?j"
    by (rule queue_of_unique) (use d j q in \<open>auto simp: linked_def\<close>)
  moreover have "distinct (xs @ a # q)"
    using distinct_concat_nth [of "waiting_list s" ?j] d j unfolding q linked_def by simp
  ultimately show "next_entry s a = Inr (after (FloorHead i) q)"
    using h i by (simp add: next_entry_def deref_in res_simps q behind_append)
qed

lemma walk_queue:
  assumes "well_formed s" and "1 \<le> i" and "i \<le> 10"
  shows "waiting_list s ! nat (i - 1) = xs @ q \<Longrightarrow>
    run_reader (Suc (length q)) s (AtWalk i (after (FloorHead i) q) temp msg) =
      rbind (for_each_safe
              (\<lambda>a temp. rbind (deref (heap s) a) (\<lambda>p. strcat TEMP_SIZE temp (seat_text p))) q temp)
       (\<lambda>temp. rbind (strcat TEMP_SIZE temp newline) (\<lambda>temp.
          rbind (strcat ENTRY_SIZE msg temp) (\<lambda>msg. Inr (AtFloor (i - 1) msg))))"
proof (induction q arbitrary: xs temp)
  case Nil
  show ?case
    by (cases "strcat TEMP_SIZE temp newline") (simp_all add: res_simps rbind_Inr)
next
  case (Cons a q)
  note step = next_waiting [OF assms Cons.prems]
  have "run_reader (Suc (length q)) s (AtWalk i (after (FloorHead i) q) t msg) =
      rbind (for_each_safe
              (\<lambda>a temp. rbind (deref (heap s) a) (\<lambda>p. strcat TEMP_SIZE temp (seat_text p))) q t)
       (\<lambda>temp. rbind (strcat TEMP_SIZE temp newline) (\<lambda>temp.
          rbind (strcat ENTRY_SIZE msg temp) (\<lambda>msg. Inr (AtFloor (i - 1) msg))))" for t
    by (rule Cons.IH [of "xs @ [a]"]) (simp add: Cons.prems)
  then show ?case
    by (cases "strcat TEMP_SIZE temp (seat_text (passenger_of s a))")
      (simp_all add: deref_in step res_simps)
qed

lemma read_floor:
  assumes "well_formed s" and "1 \<le> i" and "i \<le> 10"
  shows "run_reader (length (waiting_list s ! nat (i - 1)) + 2) s (AtFloor i msg) =
    rbind (print_floor s i msg) (\<lambda>msg. Inr (AtFloor (i - 1) msg))"
proof -
  let ?q = "waiting_list s ! nat (i - 1)"
  have a: "aget (waiting_on_floor s) (i - 1) = Inr (waiting_on_floor s ! nat (i - 1))"
    "aget (waiting_list s) (i - 1) = Inr ?q"
    using wf_position [OF assms(1)] assms(2,3) by (simp_all add: res_simps)
  show ?thesis
  proof (cases "sprintf TEMP_SIZE (floor_label (current_floor (elevator s)) i (waiting_on_floor s ! nat (i - 1)))")
    case (Inl f)
    then show ?thesis using assms(2) by (simp add: print_floor_def a res_simps)
  next
    case (Inr temp)
    have "run_reader (length ?q + 2) s (AtFloor i msg) =
        run_reader (Suc (length ?q)) s (AtWalk i (after (FloorHead i) ?q) temp msg)"
      using assms(2) Inr by (simp add: a res_simps)
    also have "\<dots> = rbind (print_floor s i msg) (\<lambda>msg. Inr (AtFloor (i - 1) msg))"
      unfolding walk_queue [OF assms, of "[]", OF append_Nil [symmetric]] print_floor_def a Inr rbind.simps
      by (simp only: rbind_assoc)
    finally show ?thesis .
  qed
qed

lemma read_floors:
  assumes "well_formed s"
  shows "n \<le> 10 \<Longrightarrow>
    run_reader (length (concat (take n (waiting_list s))) + 2 * n) s (AtFloor (int n) msg) =
      rbind (for_each_safe (print_floor s) (rev [1..int n]) msg) (\<lambda>msg. Inr (AtFloor 0 msg))"
proof (induction n arbitrary: msg)
  case 0
  then show ?case by (simp add: res_simps)
next
  case (Suc n)
  let ?m = "length (concat (take n (waiting_list s))) + 2 * n"
  have n: "n < length (waiting_list s)" using Suc.prems wf_position(4) [OF assms] by simp
  have up: "rev [1..int (Suc n)] = int (Suc n) # rev [1..int n]" by (simp add: upto_rec2)
  have fuel: "length (concat (take (Suc n) (waiting_list s))) + 2 * Suc n
      = (length (waiting_list s ! nat (int (Suc n) - 1)) + 2) + ?m"
    using n by (simp add: take_Suc_conv_app_nth)
  have "run_reader (length (waiting_list s ! nat (int (Suc n) - 1)) + 2) s (AtFloor (int (Suc n)) msg) =
      rbind (print_floor s (int (Suc n)) msg) (\<lambda>msg. Inr (AtFloor (int n) msg))"
    using read_floor [OF assms, of "int (Suc n)" msg] Suc.prems by simp
  moreover have "run_reader ?m s (AtFloor (int n) t) =
      rbind (for_each_safe (print_floor s) (rev [1..int n]) t) (\<lambda>msg. Inr (AtFloor 0 msg))" for t
    using Suc by simp
  ultimately show ?case
    unfolding fuel run_reader_add up for_each_safe.simps
    by (cases "print_floor s (int (Suc n)) msg") simp_all
qed

lemma reader_makes_floors:
  assumes "well_formed s"
  shows "run_reader (length (concat (waiting_list s)) + 21) s (AtFloor 10 msg) =
    rbind (for_each_safe (print_floor s) (rev [1..10]) msg) (\<lambda>new. Inr (AtEnd new))"
proof -
  let ?n = "length (concat (take 10 (waiting_list s))) + 2 * 10"
  have "take 10 (waiting_list s) = waiting_list s" using wf_position(4) [OF assms] by simp
  then have fuel: "length (concat (waiting_list s)) + 21 = ?n + 1" by simp
  show ?thesis
    using read_floors [OF assms, of 10 msg] unfolding fuel run_reader_add [of ?n 1]
    by (cases "for_each_safe (print_floor s) (rev [1..10]) msg") simp_all
qed

lemma reader_makes_report:
  assumes "well_formed s"
  shows "run_reader (length (concat (waiting_list s)) + 22) s AtHeader =
    rbind (print_report s) (\<lambda>new. Inr (AtEnd new))"
proof -
  have "length (concat (waiting_list s)) + 22 = Suc (length (concat (waiting_list s)) + 21)" by simp
  then show ?thesis
    using reader_makes_floors [OF assms]
    by (simp only: print_report_def run_reader.simps(2)) (cases "print_header s", simp_all)
qed

text \<open>
  The segments are the \<open>open\<close>: run without interruption, the reader's segments build the report
  of \<open>elevator_proc_open\<close>, faults included, with 22 segments and one for each who waits.
\<close>

lemma open_in_segments:
  assumes "well_formed s"
  shows "run_reader (length (concat (waiting_list s)) + 22) s AtHeader =
    rbind (print_report s) (\<lambda>txt. Inr (AtEnd txt))"
  by (rule reader_makes_report [OF assms])

lemma open_in_segments_witness:
  "run_reader 23 demo_full AtHeader = Inr (AtEnd (report demo_full))"
proof -
  have "length (concat (waiting_list demo_full)) + 22 = 23" by (simp add: demo_full_def)
  then show ?thesis
    using open_in_segments [OF wf_demo_full] fits_demo
    by (simp only: print_report_eq [OF wf_demo_full] if_True rbind.simps)
qed

section \<open>A passenger boards under the reader\<close>

lemma run_reader_fault: "run_reader m s pc = Inl f \<Longrightarrow> m \<le> n \<Longrightarrow> run_reader n s pc = Inl f"
  using run_reader_add [of m "n - m" s pc] by simp

lemma next_riding:
  assumes w: "well_formed s" and q: "onboard (elevator s) = xs @ a # q"
  shows "next_entry s a = Inr (after OnboardHead q)" and "heap s a = Some (passenger_of s a)"
proof -
  have a: "a \<in> set (linked s)" by (simp add: linked_def q)
  then show h: "heap s a = Some (passenger_of s a)" by (rule wf_passenger(1) [OF w])
  have "a \<notin> set xs" using wfD(1) [OF w] by (auto simp: links_ok_def linked_def q)
  then show "next_entry s a = Inr (after OnboardHead q)"
    using h by (simp add: next_entry_def deref_in res_simps q behind_append)
qed

lemma ride_segment:
  assumes "well_formed s" and "onboard (elevator s) = xs @ a # q"
  obtains "reader_segment s (AtWalk i (AtEntry a) temp msg) = Inl BufferOverflow"
  | t where "reader_segment s (AtWalk i (AtEntry a) temp msg) = Inr (AtWalk i (after OnboardHead q) t msg)"
  using next_riding [OF assms]
  by (cases "strcat TEMP_SIZE temp (seat_text (passenger_of s a))")
    (auto simp: deref_in res_simps strcat_def split: if_splits)

lemma walk_onboard:
  assumes "well_formed s"
  shows "onboard (elevator s) = xs @ a # q \<Longrightarrow>
    run_reader (length q + 2) s (AtWalk i (AtEntry a) temp msg) \<in> {Inl HeadAsEntry, Inl BufferOverflow}"
proof (induction q arbitrary: xs a temp)
  case Nil
  from assms Nil show ?case
    by (rule ride_segment [where i = i and temp = temp and msg = msg])
      (simp_all add: numeral_2_eq_2 del: reader_segment.simps(3))
next
  case (Cons b q)
  have "run_reader (length q + 2) s (AtWalk i (AtEntry b) t msg) \<in> {Inl HeadAsEntry, Inl BufferOverflow}" for t
    by (rule Cons.IH [of "xs @ [a]"]) (simp add: Cons.prems)
  note ih = this
  have n: "length (b # q) + 2 = Suc (length q + 2)" by simp
  from assms Cons.prems show ?case
  proof (rule ride_segment [where i = i and temp = temp and msg = msg])
    assume r: "reader_segment s (AtWalk i (AtEntry a) temp msg) = Inl BufferOverflow"
    show ?case unfolding n run_reader.simps r rbind.simps by blast
  next
    fix t
    assume r: "reader_segment s (AtWalk i (AtEntry a) temp msg) = Inr (AtWalk i (after OnboardHead (b # q)) t msg)"
    show ?case unfolding n run_reader.simps(2) r rbind.simps after.simps by (rule ih)
  qed
qed

text \<open>
  C20. Reading without the lock: when the passenger at whom a reader of \<open>/proc/elevator\<close> stands
  boards before the reader goes on, the reader follows the list of those on board, never meets
  the head of the queue it is looking for, and within eleven segments reads the head of that
  list as if it were a passenger, or has overrun \<open>temp\<close>; when the passenger has got off by then,
  the reader uses freed memory.
\<close>

theorem boarding_derails_the_reader:
  assumes "steps kstep booted es (pc, c, s)" and "a \<in> set (waiting_list s ! nat (i - 1))"
    and "kstep (pc, c, s) (Sched lk) (pc', c', s')" and "a \<in> set (onboard (elevator s'))"
  shows "run_reader 11 s' (AtWalk i (AtEntry a) temp msg) \<in> {Inl HeadAsEntry, Inl BufferOverflow}
    \<and> (\<forall>t. heap t a = None \<longrightarrow> reader_segment t (AtWalk i (AtEntry a) temp msg) = Inl UseAfterFree)"
proof -
  have "sys_ok (pc', c', s')" by (rule reachable_ok [OF steps_append [OF assms(1) steps_one [of kstep, OF assms(3)]]])
  then have w: "well_formed s'" by (simp add: sys_ok_def)
  obtain xs q where q: "onboard (elevator s') = xs @ a # q" using assms(4) by (auto simp: in_set_conv_decomp)
  have "length q + 2 \<le> 11" using wf_loads_range [OF w] by (simp add: q)
  then have "run_reader 11 s' (AtWalk i (AtEntry a) temp msg) \<in> {Inl HeadAsEntry, Inl BufferOverflow}"
    using walk_onboard [OF w q, of i temp msg] run_reader_fault by blast
  then show ?thesis by (simp add: deref_def)
qed

theorem boarding_derails_the_reader_witness:
  "run_reader 11 demo_riding (AtWalk 1 (AtEntry 7) [] []) \<in> {Inl HeadAsEntry, Inl BufferOverflow}"
proof -
  have "7 \<in> set (waiting_list (unloaded_state demo_waiting) ! nat (1 - 1))"
    unfolding demo_unloaded by (simp add: demo_waiting_eq)
  from boarding_derails_the_reader [OF steps_append [OF demo_request demo_to_load] this demo_load_step]
  show ?thesis by (simp add: demo_riding_fields)
qed

end
