(* ===== verification/ReaderRuns.thy ===== *)
theory ReaderRuns
  imports ReportRace
begin

text \<open>
  The unlocked reader of \<open>ReportRace\<close> and the elevator interleaved: the scheduler and the calls of
  any number of threads run between any two segments of the reader. Only one thing can derail it, that
  the very passenger it stands at boards; queueing, other passengers boarding, unloading and
  stops cannot.
\<close>

section \<open>A budget of steps\<close>

text \<open>Each step of a run takes its cost from what is left and adds its gain.\<close>

locale budget = machine step inv
  for step :: "'s \<Rightarrow> 'e \<Rightarrow> 's \<Rightarrow> bool" and inv :: "'s \<Rightarrow> bool" +
  fixes left :: "'s \<Rightarrow> nat" and cost :: "'e \<Rightarrow> nat" and gain :: "'e \<Rightarrow> nat"
  assumes step_budget: "step s e t \<Longrightarrow> inv s \<Longrightarrow> left t + cost e \<le> left s + gain e"
begin

lemma run_budget:
  "steps step s es t \<Longrightarrow> inv s \<Longrightarrow> left t + sum_list (map cost es) \<le> left s + sum_list (map gain es)"
proof (induction rule: steps.induct)
  case (steps_cons s e t es u)
  have "left u + sum_list (map cost es) \<le> left t + sum_list (map gain es)"
    using steps_cons step_inv by blast
  then show ?case using step_budget [OF steps_cons.hyps(1) steps_cons.prems] by simp
qed simp

end

section \<open>The machine\<close>

type_synonym rsys = "sys \<times> reader_pc"

datatype revent = RElevator kevent | RSegment

inductive rstep :: "rsys \<Rightarrow> revent \<Rightarrow> rsys \<Rightarrow> bool" where
  rstep_elevator: "kstep x e y \<Longrightarrow> rstep (x, pc) (RElevator e) (y, pc)"
| rstep_reader: "(\<And>msg. pc \<noteq> AtEnd msg) \<Longrightarrow> reader_segment (globals x) pc = Inr pc' \<Longrightarrow>
     rstep (x, pc) RSegment (x, pc')"

text \<open>The reader stands at a passenger who is on board.\<close>

fun boarded_under :: "rsys \<Rightarrow> bool" where
  "boarded_under (x, AtWalk i (AtEntry a) temp msg) \<longleftrightarrow> a \<in> set (onboard (elevator (globals x)))"
| "boarded_under _ \<longleftrightarrow> False"

definition undisturbed_step :: "rsys \<Rightarrow> revent \<Rightarrow> rsys \<Rightarrow> bool" where
  "undisturbed_step z e z' \<longleftrightarrow> rstep z e z' \<and> \<not> boarded_under z'"

fun reader_ok :: "kstate \<Rightarrow> reader_pc \<Rightarrow> bool" where
  "reader_ok s AtHeader \<longleftrightarrow> True"
| "reader_ok s (AtFloor i msg) \<longleftrightarrow> 0 \<le> i \<and> i \<le> 10"
| "reader_ok s (AtWalk i (AtEntry a) temp msg) \<longleftrightarrow> 1 \<le> i \<and> i \<le> 10 \<and> a \<in> set (waiting_list s ! nat (i - 1))"
| "reader_ok s (AtWalk i (AtHead h) temp msg) \<longleftrightarrow> 1 \<le> i \<and> i \<le> 10 \<and> h = FloorHead i"
| "reader_ok s (AtEnd msg) \<longleftrightarrow> True"

text \<open>The segments the reader has left if nothing changes.\<close>

definition lower_floors :: "kstate \<Rightarrow> int \<Rightarrow> nat" where
  "lower_floors s i = length (concat (take (nat i) (waiting_list s))) + 2 * nat i + 1"

fun segments_left :: "kstate \<Rightarrow> reader_pc \<Rightarrow> nat" where
  "segments_left s AtHeader = lower_floors s 10 + 1"
| "segments_left s (AtFloor i msg) = lower_floors s i"
| "segments_left s (AtWalk i (AtEntry a) temp msg) =
     length (behind a (waiting_list s ! nat (i - 1))) + 2 + lower_floors s (i - 1)"
| "segments_left s (AtWalk i (AtHead h) temp msg) = 1 + lower_floors s (i - 1)"
| "segments_left s (AtEnd msg) = 0"

section \<open>The reader's segments\<close>

lemma waiting_entry:
  assumes "well_formed s" and "1 \<le> i" and "i \<le> 10" and "a \<in> set (waiting_list s ! nat (i - 1))"
  obtains xs q where "waiting_list s ! nat (i - 1) = xs @ a # q" and "behind a (waiting_list s ! nat (i - 1)) = q"
    and "next_entry s a = Inr (after (FloorHead i) q)" and "heap s a = Some (passenger_of s a)"
proof -
  obtain xs q where q: "waiting_list s ! nat (i - 1) = xs @ a # q" "a \<notin> set xs"
    using assms(4) by (metis split_list_first)
  then show thesis using that [OF q(1)] behind_append [OF q(2)] next_waiting [OF assms(1-3) q(1)] by simp
qed

lemma segment_fault:
  assumes w: "well_formed s" and ok: "reader_ok s pc" and f: "reader_segment s pc = Inl f"
  shows "f = BufferOverflow"
proof (cases "(s, pc)" rule: reader_segment.cases)
  case (1 s)
  then show ?thesis using f print_header_eq(1) [OF w] by simp
next
  case (2 s i msg)
  then have "i > 0 \<Longrightarrow> nat (i - 1) < 10" using ok by auto
  then show ?thesis
    using f ok 2 wf_position [OF w] by (auto simp: res_simps sprintf_def split: if_splits)
next
  case (3 s i a temp msg)
  obtain q where "next_entry s a = Inr (after (FloorHead i) q)" "heap s a = Some (passenger_of s a)"
    by (rule waiting_entry [of s i a]) (use w ok 3 in auto)
  then show ?thesis using f 3 by (auto simp: deref_in res_simps strcat_def split: if_splits)
next
  case (4 s i h temp msg)
  then show ?thesis using f ok by (auto simp: res_simps strcat_def rbind_eq_Inl split: if_splits)
qed (use f in simp)

lemma lower_floors_step:
  assumes "length (waiting_list s) = 10" and "1 \<le> i" and "i \<le> 10"
  shows "lower_floors s i = lower_floors s (i - 1) + length (waiting_list s ! nat (i - 1)) + 2"
proof -
  have i: "nat i = Suc (nat (i - 1))" "nat (i - 1) < length (waiting_list s)" using assms by auto
  show ?thesis unfolding lower_floors_def i(1) take_Suc_conv_app_nth [OF i(2)] by simp
qed

lemma segment_left:
  assumes w: "well_formed s" and ok: "reader_ok s pc" and n: "\<And>msg. pc \<noteq> AtEnd msg"
    and st: "reader_segment s pc = Inr pc'"
  shows "reader_ok s pc' \<and> segments_left s pc' + 1 = segments_left s pc"
proof (cases "(s, pc)" rule: reader_segment.cases)
  case (1 s)
  then show ?thesis using st print_header_eq(1) [OF w] by auto
next
  case (2 s i msg)
  show ?thesis
  proof (cases "i > 0")
    case True
    then have i: "1 \<le> i" "i \<le> 10" using ok 2 by auto
    let ?q = "waiting_list s ! nat (i - 1)"
    obtain temp where pc': "pc' = AtWalk i (after (FloorHead i) ?q) temp msg"
      using st 2 i wf_position [OF w] by (auto simp: res_simps rbind_eq_Inr)
    have "behind a ?q = q" if "?q = a # q" for a q using behind_append [of a "[]" q] that by simp
    then show ?thesis
      using lower_floors_step [of s i] wf_position(4) [OF w] i 2 unfolding pc' by (cases ?q) simp_all
  next
    case False
    then show ?thesis using st ok 2 by (auto simp: lower_floors_def)
  qed
next
  case (3 s i a temp msg)
  have i: "1 \<le> i" "i \<le> 10" using ok 3 by auto
  obtain xs q where q: "waiting_list s ! nat (i - 1) = xs @ a # q" "behind a (waiting_list s ! nat (i - 1)) = q"
      "next_entry s a = Inr (after (FloorHead i) q)"
    by (rule waiting_entry [of s i a]) (use w ok 3 in auto)
  have pc': "\<exists>temp. pc' = AtWalk i (after (FloorHead i) q) temp msg"
    using st 3 q(3) by (auto simp: rbind_eq_Inr)
  show ?thesis
  proof (cases q)
    case Nil
    then show ?thesis using pc' q(2) i 3 by auto
  next
    case (Cons b q')
    have "nat (i - 1) < 10" using i by auto
    then have "distinct (waiting_list s ! nat (i - 1))" using wf_queue_distinct [OF w] 3 by simp
    then have "behind b (waiting_list s ! nat (i - 1)) = q'"
      using behind_append [of b "xs @ [a]" q'] unfolding q(1) Cons by simp
    then show ?thesis using pc' q(1,2) Cons i 3 by auto
  qed
next
  case (4 s i h temp msg)
  then show ?thesis using st ok by (auto simp: rbind_eq_Inr split: if_splits)
qed (use n in simp)

section \<open>The elevator's steps under the reader\<close>

text \<open>A queue is replaced by one that still has the reader's entry and is at most \<open>g\<close> longer.\<close>

lemma lower_floors_update:
  assumes "waiting_list s' = (waiting_list s)[j := q]" and "length q \<le> length (waiting_list s ! j) + g"
    and "j < length (waiting_list s)"
  shows "lower_floors s' i \<le> lower_floors s i + g" and "nat i \<le> j \<Longrightarrow> lower_floors s' i = lower_floors s i"
proof -
  let ?t = "take (nat i) (waiting_list s)"
  have t: "take (nat i) (waiting_list s') = ?t[j := q]" unfolding assms(1) by (rule take_update_swap)
  have beyond: "?t[j := q] = ?t" if "length ?t \<le> j" using that by (rule list_update_beyond)
  show "nat i \<le> j \<Longrightarrow> lower_floors s' i = lower_floors s i"
    unfolding lower_floors_def t using beyond by simp
  show "lower_floors s' i \<le> lower_floors s i + g"
  proof (cases "j < length ?t")
    case True
    then have "?t ! j = waiting_list s ! j" by simp
    then show ?thesis using length_concat_update [OF True, of q] assms(2) unfolding lower_floors_def t by simp
  next
    case False
    then show ?thesis unfolding lower_floors_def t using beyond by (simp only: not_less)
  qed
qed

lemma queue_step:
  assumes u: "waiting_list s' = (waiting_list s)[j := q]" "j < length (waiting_list s)"
    and len: "length q \<le> length (waiting_list s ! j) + g"
    and at: "\<And>a. a \<in> set (waiting_list s ! j) \<Longrightarrow> a \<notin> set (onboard (elevator s')) \<Longrightarrow>
      a \<in> set q \<and> length (behind a q) \<le> length (behind a (waiting_list s ! j)) + g"
    and ok: "reader_ok s pc" and away: "\<not> boarded_under ((p, c, s'), pc)"
  shows "reader_ok s' pc \<and> segments_left s' pc \<le> segments_left s pc + g"
proof (cases "(s, pc)" rule: segments_left.cases)
  case (1 s)
  then show ?thesis using lower_floors_update(1) [OF u(1) len u(2)] by simp
next
  case (2 s i msg)
  then show ?thesis using lower_floors_update(1) [OF u(1) len u(2)] ok by simp
next
  case (3 s0 i a temp msg)
  then have pc: "pc = AtWalk i (AtEntry a) temp msg" and a: "1 \<le> i" "i \<le> 10" "a \<in> set (waiting_list s ! nat (i - 1))"
    using ok by auto
  show ?thesis
  proof (cases "j = nat (i - 1)")
    case True
    then show ?thesis
      using at [of a] a away lower_floors_update(2) [OF u(1) len u(2), of "i - 1"] u unfolding pc by auto
  next
    case False
    then show ?thesis
      using a lower_floors_update(1) [OF u(1) len u(2), of "i - 1"] u unfolding pc by auto
  qed
next
  case (4 s i h temp msg)
  then show ?thesis using lower_floors_update(1) [OF u(1) len u(2), of "i - 1"] ok by simp
qed simp

lemma behind_filter:
  assumes "P a"
  shows "length (behind a (filter P q)) \<le> length (behind a q)"
proof -
  have "dropWhile (\<lambda>b. b \<noteq> a) (filter P q) = filter P (dropWhile (\<lambda>b. b \<noteq> a) q)"
    using assms by (induction q) auto
  then have "length (dropWhile (\<lambda>b. b \<noteq> a) (filter P q)) \<le> length (dropWhile (\<lambda>b. b \<noteq> a) q)" by simp
  then show ?thesis by (simp add: behind_def)
qed

lemma behind_longer:
  assumes "a \<in> set q"
  shows "behind a (q @ [b]) = behind a q @ [b]"
proof -
  have "dropWhile (\<lambda>c. c \<noteq> a) q \<noteq> []" using assms by (simp add: dropWhile_eq_Nil_conv)
  moreover have "dropWhile (\<lambda>c. c \<noteq> a) (q @ [b]) = dropWhile (\<lambda>c. c \<noteq> a) q @ [b]"
    by (rule dropWhile_append1 [OF assms]) simp
  ultimately show ?thesis by (simp add: behind_def)
qed

fun relevators :: "revent \<Rightarrow> nat" where
  "relevators (RElevator e) = (if accepted e then 1 else 0)"
| "relevators RSegment = 0"

fun rsegments :: "revent \<Rightarrow> nat" where
  "rsegments RSegment = 1"
| "rsegments e = 0"

definition reading :: "rsys \<Rightarrow> bool" where
  "reading = (\<lambda>(x, pc). sys_ok x \<and> reader_ok (globals x) pc)"

lemma same_queues:
  assumes "waiting_list s' = waiting_list s" and "reader_ok s pc"
  shows "reader_ok s' pc \<and> segments_left s' pc = segments_left s pc"
  using assms by (cases "(s, pc)" rule: segments_left.cases) (auto simp: lower_floors_def)

lemma reading_elevator:
  assumes st: "kstep (pc, c, s) e (pc', c', s')" and ok: "sys_ok (pc, c, s)" "reader_ok s r"
    and away: "\<not> boarded_under ((pc', c', s'), r)"
  shows "reader_ok s' r \<and> segments_left s' r \<le> segments_left s r + (if accepted e then 1 else 0)"
  using st ok(1)
proof (cases rule: kstep_cases)
  case (unloads lk u)
  then have "waiting_list s' = waiting_list s" by (simp add: unloaded_state_def Let_def)
  from same_queues [OF this ok(2)] show ?thesis by simp
next
  case (offloads me lk)
  then have "waiting_list s' = waiting_list s" by (simp add: offloaded_state_def)
  from same_queues [OF this ok(2)] show ?thesis by simp
next
  case else
  then have "waiting_list s' = waiting_list s" by (simp add: same_passengers_def)
  from same_queues [OF this ok(2)] show ?thesis by simp
next
  case (loads lk u l)
  let ?j = "nat (current_floor (elevator s) - 1)" and ?b = "boards_here s (queue_here s)"
  have w: "well_formed s" using ok(1) by (simp add: sys_ok_def)
  have s': "waiting_list s' = (waiting_list s)[?j := filter (\<lambda>a. a \<notin> set ?b) (queue_here s)]"
      "onboard (elevator s') = onboard (elevator s) @ ?b"
    by (simp_all add: loads(4) loaded_state_def Let_def load_result_fields)
  have "?j < length (waiting_list s)" using wf_position [OF w] by simp
  from queue_step [OF s'(1) this, of 0 r pc' c'] show ?thesis
    using ok(2) away s'(2) behind_filter [of "\<lambda>a. a \<notin> set ?b" _ "queue_here s"] by fastforce
next
  case (requests me lk a start dest type)
  let ?j = "nat (start - 1)"
  have w: "well_formed s" using ok(1) by (simp add: sys_ok_def)
  have s': "waiting_list s' = (waiting_list s)[?j := waiting_list s ! ?j @ [a]]"
    by (simp add: requests(5) requested_state_def Let_def)
  have "?j < length (waiting_list s)" using wf_position(4) [OF w] requests(3) by (auto simp: request_valid_def)
  from queue_step [OF s' this, of 1 r pc' c'] show ?thesis
    using ok(2) away requests(1) by (simp add: behind_longer)
qed

lemma reading_step:
  assumes "undisturbed_step z e z'" and "reading z"
  shows "reading z' \<and> segments_left (globals (fst z')) (snd z') + rsegments e
    \<le> segments_left (globals (fst z)) (snd z) + relevators e"
proof -
  have st: "rstep z e z'" and away: "\<not> boarded_under z'" using assms(1) by (simp_all add: undisturbed_step_def)
  from st show ?thesis
  proof cases
    case (rstep_elevator x k y r)
    obtain pc c s pc' c' s' where xy: "x = (pc, c, s)" "y = (pc', c', s')" by (cases x, cases y)
    have "sys_ok y" using rstep_elevator assms(2) ksys.step_inv by (auto simp: reading_def)
    then show ?thesis
      using reading_elevator [of pc c s k pc' c' s' r] rstep_elevator assms(2) away
      by (simp add: reading_def xy)
  next
    case (rstep_reader pc x pc')
    have "well_formed (globals x)" using assms(2) rstep_reader(1) by (auto simp: reading_def sys_ok_def)
    from segment_left [OF this _ rstep_reader(4,5)] show ?thesis
      using assms(2) rstep_reader(1-3) by (simp add: reading_def)
  qed
qed

interpretation reader: budget undisturbed_step reading "\<lambda>z. segments_left (globals (fst z)) (snd z)" rsegments relevators
  by unfold_locales (use reading_step in blast)+

section \<open>The budget of a whole run\<close>

lemma undisturbed_reader:
  assumes "sys_ok x" and "steps undisturbed_step (x, AtHeader) es (y, pc)"
  shows "(\<forall>f. reader_segment (globals y) pc = Inl f \<longrightarrow> f = BufferOverflow)
    \<and> (\<forall>i h temp msg. pc = AtWalk i (AtHead h) temp msg \<longrightarrow> h = FloorHead i)
    \<and> (\<forall>i a temp msg. pc = AtWalk i (AtEntry a) temp msg \<longrightarrow> a \<in> set (waiting_list (globals y) ! nat (i - 1)))
    \<and> (let n = length (filter (\<lambda>e. e = RSegment) es);
           m = 22 + length (concat (waiting_list (globals x))) + length (filter (\<lambda>e. \<exists>k. e = RElevator k \<and> accepted k) es)
       in n \<le> m \<and> (n = m \<longrightarrow> (\<exists>msg. pc = AtEnd msg)))"
proof -
  have x: "reading (x, AtHeader)" and w: "well_formed (globals x)" using assms(1) by (auto simp: reading_def sys_ok_def)
  have y: "sys_ok y" "reader_ok (globals y) pc" using reader.run_inv [OF assms(2) x] by (simp_all add: reading_def)
  then have wy: "well_formed (globals y)" by (auto simp: sys_ok_def)
  have gain: "sum_list (map relevators es) = length (filter (\<lambda>e. \<exists>k. e = RElevator k \<and> accepted k) es)"
  proof (induction es)
    case (Cons e es)
    then show ?case by (cases e) auto
  qed simp
  have cost: "sum_list (map rsegments es) = length (filter (\<lambda>e. e = RSegment) es)"
  proof (induction es)
    case (Cons e es)
    then show ?case by (cases e) auto
  qed simp
  have "take 10 (waiting_list (globals x)) = waiting_list (globals x)" using wf_position(4) [OF w] by simp
  then have "segments_left (globals x) AtHeader = 22 + length (concat (waiting_list (globals x)))"
    by (simp add: lower_floors_def)
  then have b: "segments_left (globals y) pc + length (filter (\<lambda>e. e = RSegment) es)
      \<le> 22 + length (concat (waiting_list (globals x))) + length (filter (\<lambda>e. \<exists>k. e = RElevator k \<and> accepted k) es)"
    using reader.run_budget [OF assms(2) x] unfolding gain cost by simp
  have "segments_left (globals y) pc = 0 \<Longrightarrow> \<exists>msg. pc = AtEnd msg"
    by (cases "(globals y, pc)" rule: segments_left.cases) (auto simp: lower_floors_def)
  then show ?thesis
    using b segment_fault [OF wy y(2)] y(2) unfolding Let_def by (auto simp del: length_concat)
qed

section \<open>Properties\<close>

text \<open>
  C21. A reader without the lock is safe until the passenger it stands at boards: whatever the scheduler
  and any number of calls do between its segments, as long as that does not happen the reader
  never leaves its queue, faults at most by overrunning a buffer, and comes to its end within 22
  segments, one for each who waited when it began and one for each request accepted meanwhile.
\<close>

theorem undisturbed_reader_ends:
  assumes "steps kstep booted ds x" and "steps undisturbed_step (x, AtHeader) es (y, pc)"
  shows "(\<forall>f. reader_segment (globals y) pc = Inl f \<longrightarrow> f = BufferOverflow)
    \<and> (\<forall>i h temp msg. pc = AtWalk i (AtHead h) temp msg \<longrightarrow> h = FloorHead i)
    \<and> (\<forall>i a temp msg. pc = AtWalk i (AtEntry a) temp msg \<longrightarrow> a \<in> set (waiting_list (globals y) ! nat (i - 1)))
    \<and> (let n = length (filter (\<lambda>e. e = RSegment) es);
           m = 22 + length (concat (waiting_list (globals x))) + length (filter (\<lambda>e. \<exists>k. e = RElevator k \<and> accepted k) es)
       in n \<le> m \<and> (n = m \<longrightarrow> (\<exists>msg. pc = AtEnd msg)))"
  by (rule undisturbed_reader [OF reachable_ok [OF assms(1)] assms(2)])

text \<open>The reader has written the header, then the scheduler has looked for work.\<close>

theorem undisturbed_reader_ends_witness:
  "\<exists>y. steps undisturbed_step (booted, AtHeader) [RSegment, RElevator (Sched 0)] (y, AtFloor 10 (header_text boot_state))
    \<and> reader_segment (globals y) (AtFloor 10 (header_text boot_state)) \<noteq> Inl UseAfterFree"
proof -
  let ?pc = "AtFloor 10 (header_text boot_state)" and ?y = "(AtIdle, \<lambda>_. Ready, boot_state)"
  have "rstep (booted, AtHeader) RSegment (booted, ?pc)"
    by (rule rstep_reader) (simp_all add: booted_def print_header_eq(1) [OF wf_boot])
  moreover have "kstep booted (Sched 0) ?y"
    unfolding booted_def by (rule kstep_sched) (simp add: has_work_def boot_explicit list_empty_def)
  then have "rstep (booted, ?pc) (RElevator (Sched 0)) (?y, ?pc)" by (rule rstep_elevator)
  ultimately have run: "steps undisturbed_step (booted, AtHeader) [RSegment, RElevator (Sched 0)] (?y, ?pc)"
    by (intro steps_cons [OF _ steps_cons [OF _ steps_nil]]) (simp_all add: undisturbed_step_def)
  have start: "steps kstep booted [] booted" by auto
  have "reader_segment (globals ?y) ?pc \<noteq> Inl UseAfterFree"
    using undisturbed_reader_ends [OF start run] by fastforce
  then show ?thesis using run by blast
qed

end
