(* ===== verification/SharedReport.thy ===== *)
theory SharedReport
  imports ReportRace
begin

text \<open>
  \<open>elevator_proc_open\<close> once more, cut as in \<open>ReportRace\<close>, but with the report where the code has
  it: in the buffer that the global \<open>message\<close> names at the moment of each write. A reader keeps
  only \<open>temp\<close> and the place in the building; what another reader does to \<open>message\<close> in between
  decides where the next line goes.
\<close>

text \<open>The two buffers of \<open>open\<close>, where they are allocated, are not in use and not the same.\<close>

definition fresh_bufs :: "addr option \<Rightarrow> addr option \<Rightarrow> proc_state \<Rightarrow> bool" where
  "fresh_bufs tm mm p \<longleftrightarrow> (case tm of None \<Rightarrow> True | Some t \<Rightarrow> bufs p t = None \<and> mm \<noteq> Some t)
     \<and> (case mm of None \<Rightarrow> True | Some m \<Rightarrow> bufs p m = None)"

lemma read_result:
  assumes "message p = Some m" and "bufs p m = Some (Some out)"
  shows "elevator_proc_read sz p =
    Inr (if read_p p = 0 then (0, None) else (int (length out), Some out),
      p\<lparr>read_p := if read_p p = 0 then 1 else 0\<rparr>)"
  using assms by (simp add: elevator_proc_read_def deref_def res_simps Let_def)

lemma fits_boot: "report_fits boot_state"
  by (rule small_queues_fit [OF wf_boot]) (simp add: boot_explicit all_below_10)

section \<open>The code in segments\<close>

datatype opener =
    OHeader "addr option"
  | OFloor addr int
  | OWalk addr int cursor string
  | ODone
  | OFailed

text \<open>The two allocations and the two globals that \<open>open\<close> sets first.\<close>

definition begin_open :: "addr option \<Rightarrow> addr option \<Rightarrow> proc_state \<Rightarrow> opener \<times> proc_state" where
  "begin_open tm mm p =
     (let p = (case tm of None \<Rightarrow> p | Some t \<Rightarrow> p\<lparr>bufs := store_obj t None (bufs p)\<rparr>);
          p = p\<lparr>read_p := 1, message := mm\<rparr>
      in case mm of
           None \<Rightarrow> (OFailed, p)
         | Some m \<Rightarrow> (OHeader tm, p\<lparr>bufs := store_obj m None (bufs p)\<rparr>))"

text \<open>\<open>sprintf(message, ...)\<close> and \<open>strcat(message, ...)\<close>.\<close>

definition write_message :: "string \<Rightarrow> proc_state \<Rightarrow> fault + proc_state" where
  "write_message new p =
     (case message p of
        None \<Rightarrow> Inl NullDeref
      | Some m \<Rightarrow> rbind (deref (bufs p) m) (\<lambda>_. Inr (p\<lparr>bufs := store_obj m (Some new) (bufs p)\<rparr>)))"

definition append_message :: "string \<Rightarrow> proc_state \<Rightarrow> fault + proc_state" where
  "append_message line p =
     rbind (case message p of None \<Rightarrow> Inl NullDeref | Some m \<Rightarrow> deref (bufs p) m) (\<lambda>old.
       case old of
         None \<Rightarrow> Inl Uninitialised
       | Some old \<Rightarrow> rbind (strcat ENTRY_SIZE old line) (\<lambda>new. write_message new p))"

fun open_segment :: "kstate \<Rightarrow> opener \<Rightarrow> proc_state \<Rightarrow> fault + (opener \<times> proc_state)" where
  "open_segment s (OHeader tm) p =
     (case tm of
        None \<Rightarrow> Inl NullDeref
      | Some t \<Rightarrow> rbind (print_header s) (\<lambda>new. rbind (write_message new p) (\<lambda>p. Inr (OFloor t FLOORS, p))))"
| "open_segment s (OFloor t i) p =
     (if i > 0 then
        rbind (aget (waiting_on_floor s) (i - 1)) (\<lambda>n.
        rbind (sprintf TEMP_SIZE (floor_label (current_floor (elevator s)) i n)) (\<lambda>temp.
        rbind (aget (waiting_list s) (i - 1)) (\<lambda>q. Inr (OWalk t i (after (FloorHead i) q) temp, p))))
      else rbind (kfree t (bufs p)) (\<lambda>h. Inr (ODone, p\<lparr>bufs := h\<rparr>)))"
| "open_segment s (OWalk t i (AtEntry a) temp) p =
     rbind (deref (heap s) a) (\<lambda>x.
     rbind (strcat TEMP_SIZE temp (seat_text x)) (\<lambda>temp.
     rbind (next_entry s a) (\<lambda>cur. Inr (OWalk t i cur temp, p))))"
| "open_segment s (OWalk t i (AtHead h) temp) p =
     (if h = FloorHead i then
        rbind (strcat TEMP_SIZE temp newline) (\<lambda>temp.
        rbind (append_message temp p) (\<lambda>p. Inr (OFloor t (i - 1), p)))
      else Inl HeadAsEntry)"
| "open_segment s ODone p = Inr (ODone, p)"
| "open_segment s OFailed p = Inr (OFailed, p)"

fun run_open :: "nat \<Rightarrow> kstate \<Rightarrow> opener \<times> proc_state \<Rightarrow> fault + (opener \<times> proc_state)" where
  "run_open 0 s x = Inr x"
| "run_open (Suc n) s x = rbind (open_segment s (fst x) (snd x)) (run_open n s)"

text \<open>What \<open>open\<close> returns.\<close>

fun open_result_of :: "opener \<Rightarrow> int" where
  "open_result_of OFailed = - ENOMEM"
| "open_result_of pc = 0"

section \<open>A reader whose buffer nobody takes away\<close>

text \<open>The reader of \<open>ReportRace\<close>, with its text in the buffer \<open>m\<close>.\<close>

fun placed :: "addr \<Rightarrow> addr \<Rightarrow> proc_state \<Rightarrow> reader_pc \<Rightarrow> opener \<times> proc_state" where
  "placed t m p AtHeader = (OHeader (Some t), p)"
| "placed t m p (AtFloor i new) = (OFloor t i, p\<lparr>bufs := (bufs p)(m \<mapsto> Some new)\<rparr>)"
| "placed t m p (AtWalk i cur temp new) = (OWalk t i cur temp, p\<lparr>bufs := (bufs p)(m \<mapsto> Some new)\<rparr>)"
| "placed t m p (AtEnd new) = (ODone, p\<lparr>bufs := (bufs p)(m \<mapsto> Some new, t := None)\<rparr>)"

lemma placed_segment:
  assumes "message p = Some m" and "bufs p m \<noteq> None" and "bufs p t \<noteq> None" and "t \<noteq> m"
  shows "open_segment s (fst (placed t m p pc)) (snd (placed t m p pc)) =
    rbind (reader_segment s pc) (\<lambda>pc. Inr (placed t m p pc))"
proof -
  have w: "write_message new (p\<lparr>bufs := (bufs p)(m \<mapsto> v)\<rparr>) = Inr (p\<lparr>bufs := (bufs p)(m \<mapsto> Some new)\<rparr>)" for new v
    using assms(1) by (simp add: write_message_def deref_def store_obj_def res_simps)
  show ?thesis
  proof (cases pc)
    case AtHeader
    obtain v where "bufs p m = Some v" using assms(2) by blast
    then have "p = p\<lparr>bufs := (bufs p)(m \<mapsto> v)\<rparr>" by (simp add: fun_upd_idem)
    then have "write_message new p = Inr (p\<lparr>bufs := (bufs p)(m \<mapsto> Some new)\<rparr>)" for new using w by metis
    then show ?thesis using AtHeader by (cases "print_header s") (simp_all add: res_simps)
  next
    case (AtFloor i new)
    obtain v where "bufs p t = Some v" using assms(3) by blast
    then show ?thesis
      using AtFloor assms(4)
      by (cases "i > 0"; cases "aget (waiting_on_floor s) (i - 1)"; cases "aget (waiting_list s) (i - 1)")
        (auto simp: res_simps kfree_def sprintf_def)
  next
    case (AtWalk i cur temp new)
    show ?thesis
    proof (cases cur)
      case (AtEntry a)
      then show ?thesis
        using AtWalk by (cases "deref (heap s) a"; cases "next_entry s a") (auto simp: res_simps strcat_def)
    next
      case (AtHead h)
      have "append_message line (p\<lparr>bufs := (bufs p)(m \<mapsto> Some new)\<rparr>) =
          rbind (strcat ENTRY_SIZE new line) (\<lambda>new. Inr (p\<lparr>bufs := (bufs p)(m \<mapsto> Some new)\<rparr>))" for line
        using assms(1) by (simp add: append_message_def w deref_def res_simps)
      then show ?thesis
        using AtWalk AtHead by (auto simp: res_simps strcat_def)
    qed
  qed simp
qed

lemma placed_run:
  assumes "message p = Some m" and "bufs p m \<noteq> None" and "bufs p t \<noteq> None" and "t \<noteq> m"
  shows "run_open n s (placed t m p pc) = rbind (run_reader n s pc) (\<lambda>pc. Inr (placed t m p pc))"
proof (induction n arbitrary: pc)
  case (Suc n)
  then show ?case
    unfolding run_open.simps placed_segment [OF assms] by (cases "reader_segment s pc") (simp_all add: res_simps)
qed simp

section \<open>Properties\<close>

text \<open>
  The segments are the \<open>open\<close>: with fresh buffers, or without memory for them, the segments run
  without interruption do what \<open>elevator_proc_open\<close> does, faults included, in 22 segments and
  one for each who waits.
\<close>

lemma open_in_shared_segments:
  assumes "well_formed s" and "fresh_bufs tm mm p"
  shows "elevator_proc_open tm mm s p =
    rbind (run_open (length (concat (waiting_list s)) + 22) s (begin_open tm mm p))
      (\<lambda>(pc, p). Inr (open_result_of pc, p))"
proof -
  let ?n = "length (concat (waiting_list s)) + 22"
  have fail: "run_open n s (OFailed, q) = Inr (OFailed, q)" for n q by (induction n) (simp_all add: res_simps)
  have null: "run_open ?n s (OHeader None, q) = Inl NullDeref" for q by (simp add: numeral_eq_Suc)
  show ?thesis
  proof (cases mm)
    case None
    then show ?thesis by (cases tm) (simp_all add: elevator_proc_open_def begin_open_def Let_def fail res_simps)
  next
    case (Some m)
    show ?thesis
    proof (cases tm)
      case None
      then show ?thesis using Some null by (simp add: elevator_proc_open_def begin_open_def Let_def res_simps)
    next
      case tm: (Some t)
      let ?p = "p\<lparr>read_p := 1, message := Some m, bufs := (bufs p)(t \<mapsto> None, m \<mapsto> None)\<rparr>"
      have f: "bufs p t = None" "t \<noteq> m" using assms(2) tm Some by (auto simp: fresh_bufs_def)
      have "begin_open tm mm p = placed t m ?p AtHeader"
        using tm Some by (simp add: begin_open_def store_obj_def Let_def)
      moreover have "run_open ?n s (placed t m ?p AtHeader) =
          rbind (run_reader ?n s AtHeader) (\<lambda>pc. Inr (placed t m ?p pc))"
        by (rule placed_run) (use f(2) in simp_all)
      moreover have "(bufs p)(m \<mapsto> v, t := None) = (bufs p)(m \<mapsto> v)" for v
        using f by (auto simp: fun_eq_iff)
      ultimately show ?thesis
        unfolding reader_makes_report [OF assms(1)]
        using f tm Some
        by (cases "print_report s")
          (simp_all add: elevator_proc_open_def kfree_def store_obj_def Let_def res_simps fun_upd_twist)
    qed
  qed
qed

lemma open_in_shared_segments_witness:
  "rbind (run_open 23 demo_full (begin_open (Some 1) (Some 2) proc_start)) (\<lambda>(pc, p). Inr (open_result_of pc, p)) =
     Inr (0, \<lparr>message = Some 2, read_p = 1, bufs = [2 \<mapsto> Some (report demo_full)]\<rparr>)"
proof -
  have f: "fresh_bufs (Some 1) (Some 2) proc_start" by (simp add: fresh_bufs_def proc_start_def)
  have n: "length (concat (waiting_list demo_full)) + 22 = 23" by (simp add: demo_full_def)
  have o: "elevator_proc_open (Some 1) (Some 2) demo_full proc_start =
      Inr (0, \<lparr>message = Some 2, read_p = 1, bufs = [2 \<mapsto> Some (report demo_full)]\<rparr>)"
    using open_eq [OF wf_demo_full, of 1 2 proc_start] fits_demo by (simp add: proc_start_def)
  show ?thesis using open_in_shared_segments [OF wf_demo_full f] unfolding n o by (rule sym)
qed

text \<open>
  C30. Two readers at once: when a second \<open>open\<close> comes after a first reader has written the header,
  the first reader's lines go to the second one's buffer. If the report fits its buffers, even with
  its ten lines twice, and memory is found, both calls return 0; one buffer holds
  the header only and is lost, the other holds the report and its floors a second time. Whoever
  reads first gets that text, and the next \<open>read\<close> of the file, the other reader's first, gets the end
  of the file. The first \<open>release\<close> frees the buffer, after which a \<open>read\<close> uses freed memory and the
  second \<open>release\<close> frees it again.
\<close>

theorem two_readers_mix:
  assumes "well_formed s" and "report_fits s"
    and "length (report s @ concat (map (floor_line s) (rev [1..FLOORS]))) < ENTRY_SIZE"
    and "distinct [t1, t2, m1, m2]" and "\<forall>a \<in> {t1, t2, m1, m2}. bufs p a = None"
  shows "\<exists>p1 p2 p3 q p4. open_segment s (fst (begin_open (Some t1) (Some m1) p)) (snd (begin_open (Some t1) (Some m1) p))
        = Inr (OFloor t1 FLOORS, p1)
    \<and> elevator_proc_open (Some t2) (Some m2) s p1 = Inr (0, p2)
    \<and> run_open (length (concat (waiting_list s)) + 21) s (OFloor t1 FLOORS, p2) = Inr (ODone, p3)
    \<and> bufs p3 = (bufs p)(m1 \<mapsto> Some (header_text s),
        m2 \<mapsto> Some (report s @ concat (map (floor_line s) (rev [1..FLOORS]))))
    \<and> message p3 = Some m2
    \<and> elevator_proc_read sz p3 = Inr ((int (length (report s @ concat (map (floor_line s) (rev [1..FLOORS])))),
        Some (report s @ concat (map (floor_line s) (rev [1..FLOORS])))), q)
    \<and> elevator_proc_read sz' q = Inr ((0, None), p3)
    \<and> elevator_proc_release p3 = Inr (0, p4) \<and> elevator_proc_read sz p4 = Inl UseAfterFree
    \<and> elevator_proc_release p4 = Inl DoubleFree \<and> bufs p4 m1 = Some (Some (header_text s))"
proof -
  let ?floors = "concat (map (floor_line s) (rev [1..FLOORS]))"
  let ?b = "\<lambda>m msg. (bufs p)(t1 \<mapsto> None, m1 \<mapsto> msg)"
  define p1 where "p1 = p\<lparr>read_p := 1, message := Some m1, bufs := (bufs p)(t1 \<mapsto> None, m1 \<mapsto> Some (header_text s))\<rparr>"
  define p2 where "p2 = p1\<lparr>message := Some m2, read_p := 1, bufs := (bufs p1)(m2 \<mapsto> Some (report s))\<rparr>"
  define p3 where "p3 = p2\<lparr>bufs := (bufs p2)(m2 \<mapsto> Some (report s @ ?floors), t1 := None)\<rparr>"
  define p4 where "p4 = p3\<lparr>bufs := (bufs p3)(m2 := None)\<rparr>"
  have d: "t1 \<noteq> t2" "t1 \<noteq> m1" "t1 \<noteq> m2" "t2 \<noteq> m1" "t2 \<noteq> m2" "m1 \<noteq> m2" using assms(4) by auto
  have n: "bufs p t1 = None" "bufs p t2 = None" "bufs p m1 = None" "bufs p m2 = None" using assms(5) by auto
  have "open_segment s (fst (begin_open (Some t1) (Some m1) p)) (snd (begin_open (Some t1) (Some m1) p))
      = Inr (OFloor t1 FLOORS, p1)"
    by (simp add: begin_open_def store_obj_def Let_def print_header_eq(1) [OF assms(1)] write_message_def
        deref_def res_simps p1_def)
  moreover have "elevator_proc_open (Some t2) (Some m2) s p1 = Inr (0, p2)"
    using open_eq [OF assms(1) d(5), of p1] assms(2) d n by (simp add: p1_def p2_def)
  moreover have "run_open (length (concat (waiting_list s)) + 21) s (OFloor t1 FLOORS, p2) = Inr (ODone, p3)"
  proof -
    have "p2 = p2\<lparr>bufs := (bufs p2)(m2 \<mapsto> Some (report s))\<rparr>" by (simp add: p2_def)
    then have "(OFloor t1 FLOORS, p2) = placed t1 m2 p2 (AtFloor 10 (report s))" by simp
    moreover have "for_each_safe (print_floor s) (rev [1..10]) (report s) = Inr (report s @ ?floors)"
    proof -
      have "length (report s) < ENTRY_SIZE" "\<forall>i \<in> set (rev [1..10]). length (floor_line s i) < TEMP_SIZE"
        using assms(2) by (auto simp: report_fits_def)
      then show ?thesis
        using print_floors_eq [OF assms(1), of "rev [1..10]" "report s"] assms(3) by simp
    qed
    moreover have "run_open k s (placed t1 m2 p2 pc) = rbind (run_reader k s pc) (\<lambda>pc. Inr (placed t1 m2 p2 pc))" for k pc
      by (rule placed_run) (use d in \<open>simp_all add: p2_def p1_def\<close>)
    ultimately show ?thesis
      by (simp only: reader_makes_floors [OF assms(1)] rbind.simps) (simp add: p3_def)
  qed
  moreover have "bufs p3 = (bufs p)(m1 \<mapsto> Some (header_text s), m2 \<mapsto> Some (report s @ ?floors))"
    using d n by (auto simp: p3_def p2_def p1_def fun_eq_iff)
  moreover have m: "message p3 = Some m2" by (simp add: p3_def p2_def)
  moreover have b: "bufs p3 m2 = Some (Some (report s @ ?floors))" using d(3) by (simp add: p3_def)
  have "elevator_proc_read sz p3 = Inr ((int (length (report s @ ?floors)), Some (report s @ ?floors)), p3\<lparr>read_p := 0\<rparr>)"
    using read_result [OF m b] by (simp add: p3_def p2_def)
  moreover have "p3\<lparr>read_p := 1\<rparr> = p3" by (simp add: p3_def p2_def)
  then have "elevator_proc_read sz' (p3\<lparr>read_p := 0\<rparr>) = Inr ((0, None), p3)"
    using read_result [of "p3\<lparr>read_p := 0\<rparr>" m2] m b by simp
  moreover from calculation(4) m have "elevator_proc_release p3 = Inr (0, p4)"
    "elevator_proc_read sz p4 = Inl UseAfterFree" "elevator_proc_release p4 = Inl DoubleFree"
    "bufs p4 m1 = Some (Some (header_text s))"
    using d(6) by (simp_all add: elevator_proc_release_def elevator_proc_read_def kfree_def deref_def
        res_simps p4_def)
  ultimately show ?thesis by blast
qed

lemma boot_floors: "length (concat (map (floor_line boot_state) (rev [1..FLOORS]))) = 180"
proof -
  have "length (floor_line boot_state i) = 18" if "1 \<le> i" "i \<le> 10" for i
  proof -
    have "nat (i - 1) < 10" using that by simp
    then have "waiting_on_floor boot_state ! nat (i - 1) = 0" "waiting_list boot_state ! nat (i - 1) = []"
      by (auto simp: boot_explicit less_Suc_eq numeral_eq_Suc)
    moreover have "length (show_int 0) = 1" by (simp add: show_int_def show_nat.simps)
    ultimately show ?thesis using length_floor_line [OF that, of boot_state] by simp
  qed
  then have "map (length \<circ> floor_line boot_state) (rev [1..10]) = replicate 10 18"
    by (intro nth_equalityI) (auto simp: rev_nth)
  then show ?thesis by (simp add: length_concat sum_list_replicate)
qed

theorem two_readers_mix_witness:
  "\<exists>p2 p3. run_open 21 boot_state (OFloor 1 FLOORS, p2) = Inr (ODone, p3)
    \<and> bufs p3 3 = Some (Some (header_text boot_state)) \<and> message p3 = Some 4"
proof -
  have "length (report boot_state @ concat (map (floor_line boot_state) (rev [1..FLOORS]))) < ENTRY_SIZE"
    using boot_floors print_header_eq(2) [OF wf_boot] by (simp add: report_def)
  moreover have "distinct [1, 2, 3, 4 :: nat]" "\<forall>a \<in> {1, 2, 3, 4}. bufs proc_start a = None"
    by (simp_all add: proc_start_bufs)
  ultimately obtain p2 p3 where
    "run_open (length (concat (waiting_list boot_state)) + 21) boot_state (OFloor 1 FLOORS, p2) = Inr (ODone, p3)"
    and "bufs p3 = (bufs proc_start)(3 \<mapsto> Some (header_text boot_state),
        4 \<mapsto> Some (report boot_state @ concat (map (floor_line boot_state) (rev [1..FLOORS]))))"
    and "message p3 = Some 4"
    using two_readers_mix [OF wf_boot fits_boot, of 1 2 3 4 proc_start] by metis
  moreover have "length (concat (waiting_list boot_state)) + 21 = 21" by (simp add: boot_explicit)
  ultimately show ?thesis by (intro exI [of _ p2] exI [of _ p3]) simp
qed

end
