(* ===== verification/ModuleInit.thy ===== *)
theory ModuleInit
  imports Service
begin

text \<open>
  The life of the module: the system call entries of \<open>part3/syscall/part3.c\<close> with their stub
  pointers, \<open>elevator_init\<close> and \<open>elevator_exit\<close>. \<open>load_module\<close> and \<open>unload_module\<close> are the
  kernel's side: a module whose init returns a negative number is unmapped again, and a call
  through a pointer into an unmapped module is a fault.
\<close>

section \<open>State\<close>

datatype stub = StubNull | StubModule

record module_state =
  stub_start :: stub
  stub_request :: stub
  stub_stop :: stub
  mapped :: bool
  proc_entry :: bool
  thread_running :: bool
  next_id :: int
  kst :: kstate

text \<open>The kernel after booting, the module not loaded yet.\<close>

definition no_module :: module_state where
  "no_module = \<lparr>stub_start = StubNull, stub_request = StubNull, stub_stop = StubNull, mapped = False,
     proc_entry = False, thread_running = False, next_id = 1, kst = bss_state\<rparr>"

definition ENOSYS :: int where [simp]: "ENOSYS = 38"

section \<open>System call entries\<close>

text \<open>
  The stubs are declared to return \<open>int\<close>, so what the module's functions return as \<open>long\<close> is cut
  to 32 bits; the three arguments of a request arrive in 64-bit registers and are cut likewise.
\<close>

definition call_stub :: "stub \<Rightarrow> (kstate \<Rightarrow> fault + (int \<times> kstate)) \<Rightarrow> module_state
    \<Rightarrow> fault + (int \<times> module_state)" where
  "call_stub stub f m =
     (case stub of
        StubNull \<Rightarrow> Inr (- ENOSYS, m)
      | StubModule \<Rightarrow>
          if mapped m then rbind (f (kst m)) (\<lambda>(r, k). Inr (wrap32 r, m\<lparr>kst := k\<rparr>))
          else Inl DanglingCall)"

definition sys_start_elevator :: "module_state \<Rightarrow> fault + (int \<times> module_state)" where
  "sys_start_elevator m = call_stub (stub_start m) (\<lambda>k. Inr (start_elevator k)) m"

definition sys_issue_request ::
  "nat \<Rightarrow> int \<Rightarrow> addr option \<Rightarrow> int \<Rightarrow> int \<Rightarrow> int \<Rightarrow> module_state \<Rightarrow> fault + (int \<times> module_state)" where
  "sys_issue_request me lk km start dest type m =
     call_stub (stub_request m) (issue_request me lk km (wrap32 start) (wrap32 dest) (wrap32 type)) m"

definition sys_stop_elevator :: "nat \<Rightarrow> int \<Rightarrow> module_state \<Rightarrow> fault + (int \<times> module_state)" where
  "sys_stop_elevator me lk m = call_stub (stub_stop m) (stop_elevator me lk) m"

section \<open>Init and exit\<close>

text \<open>\<open>created\<close> tells whether \<open>proc_create\<close> succeeded, \<open>task\<close> is the result of \<open>kthread_run\<close>.\<close>

definition elevator_init :: "bool \<Rightarrow> task_ptr \<Rightarrow> module_state \<Rightarrow> int \<times> module_state" where
  "elevator_init created task m =
     (let m = m\<lparr>kst := setup_elevator (kst m)\<rparr>;
          m = m\<lparr>stub_start := StubModule, stub_request := StubModule, stub_stop := StubModule\<rparr>
      in if \<not> created then (- 12, m\<lparr>proc_entry := False\<rparr>)
         else
           let m = m\<lparr>proc_entry := True\<rparr>;
               (i, k) = thread_init_parameter (next_id m) task (kst m);
               m = m\<lparr>next_id := i, kst := k\<rparr>
           in (case kthread (thread1 (kst m)) of
                 ErrPtr e \<Rightarrow> (e, m\<lparr>proc_entry := False\<rparr>)
               | _ \<Rightarrow> (0, m\<lparr>thread_running := True\<rparr>)))"

definition elevator_exit :: "nat \<Rightarrow> int \<Rightarrow> module_state \<Rightarrow> fault + module_state" where
  "elevator_exit me lk m =
     (let m = m\<lparr>stub_start := StubNull, stub_request := StubNull, stub_stop := StubNull\<rparr>;
          m = m\<lparr>thread_running := False\<rparr>
      in rbind (removeAllPassengers me lk (kst m)) (\<lambda>k.
           Inr (m\<lparr>kst := k, proc_entry := False\<rparr>)))"

definition load_module :: "bool \<Rightarrow> task_ptr \<Rightarrow> module_state \<Rightarrow> int \<times> module_state" where
  "load_module created task m =
     (let (r, m) = elevator_init created task (m\<lparr>mapped := True, next_id := 1, kst := bss_state\<rparr>)
      in (r, m\<lparr>mapped := 0 \<le> r\<rparr>))"

definition unload_module :: "nat \<Rightarrow> int \<Rightarrow> module_state \<Rightarrow> fault + module_state" where
  "unload_module me lk m = rbind (elevator_exit me lk m) (\<lambda>m. Inr (m\<lparr>mapped := False\<rparr>))"

lemmas module_defs = load_module_def elevator_init_def call_stub_def sys_start_elevator_def
  sys_issue_request_def sys_stop_elevator_def thread_init_parameter_def

section \<open>Properties\<close>

text \<open>
  Loading: when the proc entry and the thread can be created, loading returns 0, the proc
  entry exists, the thread runs, and the elevator's state is well formed: offline, on floor 1,
  empty. For task 0 it is the state from which the interleaved runs start.
\<close>

lemma load_boots_the_elevator:
  shows "case load_module True (Task t) m of (r, m') \<Rightarrow>
      r = 0 \<and> proc_entry m' \<and> thread_running m' \<and> well_formed (kst m')
      \<and> elevator (kst m') = elevator boot_state \<and> waiting_list (kst m') = replicate 10 []
      \<and> heap (kst m') = Map.empty \<and> kthread (thread1 (kst m')) = Task t
      \<and> (t = 0 \<longrightarrow> (AtTop, \<lambda>_. Ready, kst m') = booted)"
  using wf_thread_init [OF wf_setup, of 1 "Task t"]
  by (simp add: module_defs Let_def split_def booted_def boot_state_def)
    (simp add: setup_explicit numeral_eq_Suc)

lemma load_boots_the_elevator_witness:
  "kst (snd (load_module True (Task 0) no_module)) = boot_state"
  using load_boots_the_elevator [of 0 no_module] by (simp add: split_def booted_def)

text \<open>
  The system calls reach the module: while it is loaded with its stubs set, each entry
  does what the module's function does, on arguments cut to 32 bits, and returns its result
  unchanged, although the stubs are declared with a narrower return type.
\<close>

lemma entries_reach_the_module:
  assumes "mapped m" and "stub_start m = StubModule" and "stub_request m = StubModule"
    and "stub_stop m = StubModule"
  shows "sys_start_elevator m =
      Inr (fst (start_elevator (kst m)), m\<lparr>kst := snd (start_elevator (kst m))\<rparr>)
    \<and> sys_issue_request me lk km start dest type m =
        rbind (issue_request me lk km (wrap32 start) (wrap32 dest) (wrap32 type) (kst m))
          (\<lambda>(r, k). Inr (r, m\<lparr>kst := k\<rparr>))
    \<and> sys_stop_elevator me lk m = rbind (stop_elevator me lk (kst m)) (\<lambda>(r, k). Inr (r, m\<lparr>kst := k\<rparr>))"
proof -
  have "wrap32 (fst (start_elevator s)) = fst (start_elevator s)" for s
    by (simp add: start_elevator_def wrap32_id)
  moreover note call_results(1) [of me lk km "wrap32 start" "wrap32 dest" "wrap32 type" "kst m"]
  moreover note call_results(2) [of me lk "kst m"]
  ultimately show ?thesis
    using assms(1-4)
    by (cases "issue_request me lk km (wrap32 start) (wrap32 dest) (wrap32 type) (kst m)";
        cases "stop_elevator me lk (kst m)")
      (fastforce simp: sys_start_elevator_def sys_issue_request_def sys_stop_elevator_def call_stub_def
        split_def res_simps wrap32_id)+
qed

definition demo_module :: module_state where
  "demo_module = (snd (load_module True (Task 0) no_module))\<lparr>kst := demo_full\<rparr>"

lemma demo_module_fields:
  "mapped demo_module" "stub_start demo_module = StubModule" "stub_request demo_module = StubModule"
  "stub_stop demo_module = StubModule" "kst demo_module = demo_full" "proc_entry demo_module"
  by (simp_all add: demo_module_def module_defs Let_def)

lemma entries_reach_the_module_witness:
  "sys_start_elevator demo_module = Inr (1, demo_module)
   \<and> sys_issue_request 5 0 (Some 11) 4294967299 11 0 demo_module = Inr (1, demo_module)"
proof -
  have e: "snd (start_elevator demo_full) = demo_full" "fst (start_elevator demo_full) = 1"
    by (simp_all add: start_elevator_def demo_full_def)
  have r: "issue_request 5 0 (Some 11) (wrap32 4294967299) (wrap32 11) (wrap32 0) demo_full = Inr (1, demo_full)"
    by (rule issue_request_rejected) (simp add: wrap32_def request_valid_def)
  have "demo_module\<lparr>kst := demo_full\<rparr> = demo_module"
    by (rule module_state.equality) (simp_all add: demo_module_fields)
  then show ?thesis
    using entries_reach_the_module [OF demo_module_fields(1-4), of 5 0 "Some 11" 4294967299 11 0]
    unfolding demo_module_fields(5) e r by simp
qed

text \<open>
  Unloading: with a well-formed state and no signal, unloading frees every passenger,
  removes the proc entry, and from then on all three system calls answer \<open>-ENOSYS\<close> and change
  nothing, whatever their arguments.
\<close>

lemma unload_cleans_up:
  assumes "well_formed (kst m)"
  shows "\<exists>m'. unload_module me 0 m = Inr m' \<and> heap (kst m') = Map.empty
    \<and> \<not> proc_entry m' \<and> \<not> thread_running m' \<and> sys_start_elevator m' = Inr (- 38, m')
    \<and> sys_issue_request you lk km start dest type m' = Inr (- 38, m')
    \<and> sys_stop_elevator you lk m' = Inr (- 38, m')"
  using removeAllPassengers_eq [OF assms, of me]
  by (simp add: unload_module_def elevator_exit_def res_simps Let_def module_defs emptied_state_def)

lemma unload_cleans_up_witness:
  "\<exists>m'. unload_module 5 0 demo_module = Inr m' \<and> heap (kst m') = Map.empty
    \<and> sys_start_elevator m' = Inr (- 38, m')"
  using unload_cleans_up [of demo_module 5 9 0 None 1 2 0] wf_demo_full unfolding demo_module_fields(5)
  by blast

text \<open>
  A failed load leaves the stubs set: when the proc entry or the thread cannot be created,
  loading returns the negative error, but the three stubs still point into the module that the
  kernel then unmaps, and every later system call, from any user, calls through them.
\<close>

lemma failed_load_leaves_dangling_stubs:
  assumes "\<not> created \<or> (\<exists>e. task = ErrPtr e \<and> e < 0)"
  shows "case load_module created task m of (r, m') \<Rightarrow>
      r < 0 \<and> \<not> proc_entry m' \<and> sys_start_elevator m' = Inl DanglingCall
      \<and> sys_issue_request you lk km start dest type m' = Inl DanglingCall
      \<and> sys_stop_elevator you lk m' = Inl DanglingCall"
  using assms by (auto simp: module_defs Let_def)

lemma failed_load_leaves_dangling_stubs_witness:
  "sys_start_elevator (snd (load_module True (ErrPtr (- 12)) no_module)) = Inl DanglingCall"
  using failed_load_leaves_dangling_stubs [where created = True and task = "ErrPtr (- 12)" and m = no_module]
  by (simp add: split_def)

end
