(* ===== verification/ModuleLife.thy ===== *)
theory ModuleLife
  imports ModuleInit Interleaving
begin

text \<open>
  The module over time: loading in the order of \<open>elevator_init\<close>, unloading in that of
  \<open>elevator_exit\<close>, the scheduler's thread and the system calls of any number of threads, all
  interleaved. A system call reads the stub pointer twice, once to test it and once to call
  through it. A thread that is inside the module when the kernel unmaps it has no code to return
  to (\<open>Stale\<close>).
\<close>

section \<open>The machine\<close>

datatype caller = Outside | AtStub call | Inside call_pc | Stale

text \<open>
  Where the module is in its life: \<open>Published\<close> is between the assignment of the stubs and the
  start of the thread in \<open>elevator_init\<close>, those after \<open>Live\<close> are positions in \<open>elevator_exit\<close>.
\<close>

datatype stage = Absent | Published | Live | ClearRequest | ClearStop | StopThread | Remove | Unmap

text \<open>Stages are ordered by the number of steps of the exit that are left.\<close>

primrec steps_left :: "stage \<Rightarrow> nat" where
  "steps_left Absent = 0"
| "steps_left Unmap = 1"
| "steps_left Remove = 2"
| "steps_left StopThread = 3"
| "steps_left ClearStop = 4"
| "steps_left ClearRequest = 5"
| "steps_left Live = 6"
| "steps_left Published = 7"

lemma steps_left_inject: "steps_left a = steps_left b \<longleftrightarrow> a = b"
  by (cases a; cases b) simp_all

instantiation stage :: linorder
begin

definition less_eq_stage :: "stage \<Rightarrow> stage \<Rightarrow> bool" where
  "a \<le> b \<longleftrightarrow> steps_left a \<le> steps_left b"

definition less_stage :: "stage \<Rightarrow> stage \<Rightarrow> bool" where
  "a < b \<longleftrightarrow> steps_left a < steps_left b"

instance
  by standard (auto simp: less_eq_stage_def less_stage_def steps_left_inject)

end

record life =
  kmod :: module_state
  stage :: stage
  thread_pc :: sched_pc
  callers :: "nat \<Rightarrow> caller"

datatype life_event =
    Load
  | Init bool "int option"
  | Exit nat int
  | Run int
  | Test nat call
  | Jump nat
  | Resume nat int "addr option"

fun stub_of :: "call \<Rightarrow> module_state \<Rightarrow> stub" where
  "stub_of StartCall m = stub_start m"
| "stub_of (RequestCall start dest type) m = stub_request m"
| "stub_of StopCall m = stub_stop m"

text \<open>The arguments of a request are cut to \<open>int\<close> before the entry's body runs.\<close>

fun cut_args :: "call \<Rightarrow> call" where
  "cut_args (RequestCall start dest type) = RequestCall (wrap32 start) (wrap32 dest) (wrap32 type)"
| "cut_args call = call"

definition entered :: "call_pc \<times> int option \<Rightarrow> caller" where
  "entered = (\<lambda>(p, r). case r of None \<Rightarrow> Inside p | Some _ \<Rightarrow> Outside)"

definition put :: "nat \<Rightarrow> caller \<Rightarrow> life \<Rightarrow> life" where
  "put me c x = x\<lparr>callers := (callers x)(me := c)\<rparr>"

definition set_kst :: "kstate \<Rightarrow> life \<Rightarrow> life" where
  "set_kst k x = x\<lparr>kmod := (kmod x)\<lparr>kst := k\<rparr>\<rparr>"

text \<open>A thread inside the module when it is unmapped.\<close>

definition gone :: "(nat \<Rightarrow> caller) \<Rightarrow> nat \<Rightarrow> caller" where
  "gone c = (\<lambda>k. case c k of Inside p \<Rightarrow> Stale | q \<Rightarrow> q)"

text \<open>The two halves of \<open>elevator_init\<close>; between them \<open>thread1.mutex\<close> is not initialised.\<close>

definition publish :: "module_state \<Rightarrow> module_state" where
  "publish m = m\<lparr>mapped := True, next_id := 1, kst := setup_elevator bss_state,
     stub_start := StubModule, stub_request := StubModule, stub_stop := StubModule\<rparr>"

definition finish_init :: "bool \<Rightarrow> task_ptr \<Rightarrow> module_state \<Rightarrow> int \<times> module_state" where
  "finish_init created task m =
     (if \<not> created then (- 12, m\<lparr>proc_entry := False\<rparr>)
      else
        let m = m\<lparr>proc_entry := True\<rparr>;
            (i, k) = thread_init_parameter (next_id m) task (kst m);
            m = m\<lparr>next_id := i, kst := k\<rparr>
        in (case kthread (thread1 (kst m)) of
              ErrPtr e \<Rightarrow> (e, m\<lparr>proc_entry := False\<rparr>)
            | _ \<Rightarrow> (0, m\<lparr>thread_running := True\<rparr>)))"

lemma init_halves: "load_module created task m =
    (let (r, m') = finish_init created task (publish m) in (r, m'\<lparr>mapped := 0 \<le> r\<rparr>))"
  by (simp add: load_module_def elevator_init_def publish_def finish_init_def Let_def)

text \<open>The positions whose next step takes the mutex; a mutex that is not initialised must not be locked.\<close>

fun locks :: "call_pc \<Rightarrow> bool" where
  "locks (RequestLock start dest type) \<longleftrightarrow> True"
| "locks StopLock \<longleftrightarrow> True"
| "locks p \<longleftrightarrow> False"

text \<open>\<open>kthread_stop\<close> waits until the thread has seen the flag at the top of its loop.\<close>

definition exit_step :: "nat \<Rightarrow> int \<Rightarrow> life \<Rightarrow> (fault + life) option" where
  "exit_step me lk x =
     (let m = kmod x in
      case stage x of
        Absent \<Rightarrow> None
      | Published \<Rightarrow> None
      | Live \<Rightarrow> Some (Inr (x\<lparr>kmod := m\<lparr>stub_start := StubNull\<rparr>, stage := ClearRequest\<rparr>))
      | ClearRequest \<Rightarrow> Some (Inr (x\<lparr>kmod := m\<lparr>stub_request := StubNull\<rparr>, stage := ClearStop\<rparr>))
      | ClearStop \<Rightarrow> Some (Inr (x\<lparr>kmod := m\<lparr>stub_stop := StubNull\<rparr>, stage := StopThread\<rparr>))
      | StopThread \<Rightarrow>
          if thread_pc x = AtTop
          then Some (Inr (x\<lparr>kmod := m\<lparr>thread_running := False\<rparr>, stage := Remove\<rparr>)) else None
      | Remove \<Rightarrow> Some (rbind (removeAllPassengers me lk (kst m)) (\<lambda>k.
          Inr (x\<lparr>kmod := m\<lparr>kst := k\<rparr>, stage := Unmap\<rparr>)))
      | Unmap \<Rightarrow> Some (Inr (x\<lparr>kmod := m\<lparr>proc_entry := False, mapped := False\<rparr>, stage := Absent,
          callers := gone (callers x)\<rparr>)))"

text \<open>\<open>None\<close>: the event is not possible in this state.\<close>

fun life_next :: "life_event \<Rightarrow> life \<Rightarrow> (fault + life) option" where
  "life_next Load x =
     (if stage x = Absent
      then Some (Inr (x\<lparr>kmod := publish (kmod x), stage := Published, thread_pc := AtTop\<rparr>)) else None)"
| "life_next (Init created err) x =
     (if stage x = Published \<and> (\<forall>e \<in> set_option err. e < 0) then
        let (r, m) = finish_init created (case err of None \<Rightarrow> Task 0 | Some e \<Rightarrow> ErrPtr e) (kmod x)
        in Some (Inr (if 0 \<le> r then x\<lparr>kmod := m, stage := Live\<rparr>
             else x\<lparr>kmod := m\<lparr>mapped := False\<rparr>, stage := Absent, callers := gone (callers x)\<rparr>))
      else None)"
| "life_next (Exit me lk) x = exit_step me lk x"
| "life_next (Run lk) x =
     (if thread_running (kmod x) then
        Some (rbind (sched_segment 0 lk (thread_pc x) (kst (kmod x)))
          (\<lambda>(pc, k). Inr ((set_kst k x)\<lparr>thread_pc := pc\<rparr>)))
      else None)"
| "life_next (Test me call) x =
     (if 0 < me \<and> callers x me = Outside then
        Some (Inr (if stub_of call (kmod x) = StubNull then x else put me (AtStub (cut_args call)) x))
      else None)"
| "life_next (Jump me) x =
     (case callers x me of
        AtStub call \<Rightarrow> Some (case stub_of call (kmod x) of
            StubNull \<Rightarrow> Inl NullDeref
          | StubModule \<Rightarrow>
              if mapped (kmod x) then Inr (put me (entered (enter_call call (kst (kmod x)))) x)
              else Inl DanglingCall)
      | _ \<Rightarrow> None)"
| "life_next (Resume me lk km) x =
     (case callers x me of
        Inside p \<Rightarrow>
          if locks p \<and> \<not> mutex_ready (thread1 (kst (kmod x))) then Some (Inl Uninitialised)
          else if fresh km p (kst (kmod x)) then
            Some (rbind (call_segment me lk km p (kst (kmod x)))
              (\<lambda>(q, k). Inr (put me (entered q) (set_kst k x))))
          else None
      | Stale \<Rightarrow> Some (Inl DanglingCall)
      | _ \<Rightarrow> None)"

definition lstep :: "life \<Rightarrow> life_event \<Rightarrow> life \<Rightarrow> bool" where
  "lstep x e y \<longleftrightarrow> life_next e x = Some (Inr y)"

definition before_load :: life where
  "before_load = \<lparr>kmod = no_module, stage = Absent, thread_pc = AtTop, callers = (\<lambda>_. Outside)\<rparr>"

section \<open>The steps make the whole\<close>

fun run_life :: "life_event list \<Rightarrow> life \<Rightarrow> (fault + life) option" where
  "run_life [] x = Some (Inr x)"
| "run_life (e # es) x = (case life_next e x of Some (Inr y) \<Rightarrow> run_life es y | z \<Rightarrow> z)"

lemma run_life_steps: "run_life es x = Some (Inr y) \<Longrightarrow> steps lstep x es y"
  by (induction es arbitrary: x) (auto simp: lstep_def split: option.splits sum.splits)

lemma init_steps_make_load:
  assumes "stage x = Absent" and "\<forall>e \<in> set_option err. e < 0" and "callers x = (\<lambda>_. Outside)"
    and "load_module created (case err of None \<Rightarrow> Task 0 | Some e \<Rightarrow> ErrPtr e) (kmod x) = (r, m)"
  shows "run_life [Load, Init created err] x =
    Some (Inr (x\<lparr>kmod := m, stage := if 0 \<le> r then Live else Absent, thread_pc := AtTop\<rparr>))"
  using assms unfolding init_halves
  by (auto simp: split_def Let_def gone_def finish_init_def publish_def split: if_splits task_ptr.splits
      option.splits)

lemma exit_steps_make_unload:
  assumes "stage x = Live" and "thread_pc x = AtTop"
  shows "run_life (replicate 6 (Exit me lk)) x = Some (rbind (unload_module me lk (kmod x)) (\<lambda>m.
    Inr (x\<lparr>kmod := m, stage := Absent, callers := gone (callers x)\<rparr>)))"
  using assms
  by (cases "removeAllPassengers me lk (kst (kmod x))")
    (simp_all add: numeral_eq_Suc exit_step_def unload_module_def elevator_exit_def Let_def res_simps)

text \<open>Each step of the exit brings its end nearer.\<close>

lemma exit_advances: "exit_step me lk x = Some (Inr y) \<Longrightarrow> stage y < stage x"
  by (auto simp: exit_step_def Let_def less_stage_def rbind_eq_Inr split: stage.splits if_splits)

section \<open>The loaded module is the interleaved machine\<close>

fun pc_of :: "caller \<Rightarrow> call_pc" where
  "pc_of (Inside p) = p"
| "pc_of _ = Ready"

text \<open>
  Until the thread is created, the machine it joins is seen with the thread's record already set
  up; calls that do not reach the mutex cannot tell the difference.
\<close>

definition readied :: "module_state \<Rightarrow> kstate" where
  "readied m = snd (thread_init_parameter (next_id m) (Task 0) (kst m))"

definition seen :: "life \<Rightarrow> kstate" where
  "seen x = (if stage x = Published then readied (kmod x) else kst (kmod x))"

definition view :: "life \<Rightarrow> sys" where
  "view x = (thread_pc x, \<lambda>k. pc_of (callers x k), seen x)"

definition stubs_cleared :: "module_state \<Rightarrow> bool" where
  "stubs_cleared m \<longleftrightarrow> stub_start m = StubNull \<and> stub_request m = StubNull \<and> stub_stop m = StubNull"

definition stubs_set :: "module_state \<Rightarrow> bool" where
  "stubs_set m \<longleftrightarrow> stub_start m = StubModule \<and> stub_request m = StubModule \<and> stub_stop m = StubModule"

definition callers_ok :: "life \<Rightarrow> bool" where
  "callers_ok x \<longleftrightarrow> callers x 0 = Outside \<and> (\<forall>k. callers x k \<noteq> Inside Ready)
     \<and> (\<not> mapped (kmod x) \<longrightarrow> (\<forall>k p. callers x k \<noteq> Inside p))"

definition stage_ok :: "life \<Rightarrow> bool" where
  "stage_ok x \<longleftrightarrow> (mapped (kmod x) \<longleftrightarrow> stage x \<noteq> Absent)
     \<and> (thread_running (kmod x) \<longleftrightarrow> stage x \<in> {Live, ClearRequest, ClearStop, StopThread})
     \<and> (stage x \<in> {Published, Live} \<longrightarrow> stubs_set (kmod x))
     \<and> (stage x \<in> {StopThread, Remove, Unmap} \<longrightarrow> stubs_cleared (kmod x))
     \<and> (stage x = ClearStop \<longrightarrow> stub_start (kmod x) = StubNull \<and> stub_request (kmod x) = StubNull)
     \<and> (stage x = ClearRequest \<longrightarrow> stub_start (kmod x) = StubNull)
     \<and> (stage x \<noteq> Absent \<longrightarrow> mutex_ready (thread1 (kst (kmod x))) = (stage x \<noteq> Published))"

lemma stage_ready:
  "stage_ok x \<Longrightarrow> stage x \<noteq> Absent \<Longrightarrow> mutex_ready (thread1 (kst (kmod x))) = (stage x \<noteq> Published)"
  by (simp add: stage_ok_def)

lemma stage_running:
  "stage_ok x \<Longrightarrow> thread_running (kmod x) \<Longrightarrow> stage x \<in> {Live, ClearRequest, ClearStop, StopThread}"
  unfolding stage_ok_def by blast

definition life_ok :: "life \<Rightarrow> bool" where
  "life_ok x \<longleftrightarrow> callers_ok x \<and> stage_ok x
     \<and> (stage x \<notin> {Absent, Unmap} \<longrightarrow> (\<exists>es. steps kstep booted es (view x)))"

lemma put_fields [simp]:
  "kmod (put me c x) = kmod x" "stage (put me c x) = stage x" "thread_pc (put me c x) = thread_pc x"
  "callers (put me c x) = (callers x)(me := c)"
  by (simp_all add: put_def)

lemma set_kst_fields [simp]:
  "kmod (set_kst k x) = (kmod x)\<lparr>kst := k\<rparr>" "stage (set_kst k x) = stage x"
  "thread_pc (set_kst k x) = thread_pc x" "callers (set_kst k x) = callers x"
  by (simp_all add: set_kst_def)

lemma seen_put [simp]: "seen (put me c x) = seen x"
  by (simp add: seen_def)

lemma view_put: "view (put me c x) = (thread_pc x, (\<lambda>k. pc_of (callers x k))(me := pc_of c), seen x)"
  by (auto simp: view_def fun_eq_iff)

lemma enter_call_readied: "enter_call call (readied m) = enter_call call (kst m)"
  by (cases call) (simp_all add: readied_def thread_init_parameter_def)

lemma fresh_readied: "fresh km p (readied m) = fresh km p (kst m)"
  by (simp add: fresh_def readied_def thread_init_parameter_def split: option.split)

lemma call_segment_readied:
  assumes "call_segment me lk km p (kst m) = Inr (q, k)" and "\<not> locks p"
  shows "call_segment me lk km p (readied m) = Inr (q, readied (m\<lparr>kst := k\<rparr>))"
  using assms by (cases p) (auto simp: readied_def thread_init_parameter_def)

lemma enter_call_result: "enter_call call s = (p, r) \<Longrightarrow> p = Ready \<longleftrightarrow> r \<noteq> None"
  by (cases call) (auto split: if_splits)

lemma call_segment_result:
  "call_segment me lk km q s = Inr ((p, r), s') \<Longrightarrow> q \<noteq> Ready \<Longrightarrow> p = Ready \<longleftrightarrow> r \<noteq> None"
  by (cases q) (auto simp: rbind_eq_Inr split: if_splits)

lemma pc_of_entered: "p = Ready \<longleftrightarrow> r \<noteq> None \<Longrightarrow> pc_of (entered (p, r)) = p"
  by (auto simp: entered_def split: option.split)

lemma entered_ok: "p = Ready \<longleftrightarrow> r \<noteq> None \<Longrightarrow> entered (p, r) \<noteq> Inside Ready"
  by (auto simp: entered_def split: option.split)

text \<open>What an event that belongs neither to the init nor to the exit does.\<close>

lemma lstep_cases:
  assumes "lstep x e y" and "callers_ok x"
  obtains (load) "e = Load" | (init) created err where "e = Init created err"
  | (exit) me lk where "e = Exit me lk"
  | (run) lk pc k where "e = Run lk" and "thread_running (kmod x)"
      and "sched_segment 0 lk (thread_pc x) (kst (kmod x)) = Inr (pc, k)"
      and "y = (set_kst k x)\<lparr>thread_pc := pc\<rparr>"
  | (refused) me call where "e = Test me call" and "y = x"
  | (tested) me call where "e = Test me call" and "0 < me" and "callers x me = Outside"
      and "stub_of call (kmod x) = StubModule" and "y = put me (AtStub (cut_args call)) x"
  | (jump) me call p r where "e = Jump me" and "callers x me = AtStub call"
      and "stub_of call (kmod x) = StubModule" and "mapped (kmod x)"
      and "enter_call call (kst (kmod x)) = (p, r)" and "y = put me (entered (p, r)) x"
      and "p = Ready \<longleftrightarrow> r \<noteq> None" and "0 < me"
  | (resume) me lk km p q r k where "e = Resume me lk km" and "callers x me = Inside p"
      and "fresh km p (kst (kmod x))" and "call_segment me lk km p (kst (kmod x)) = Inr ((q, r), k)"
      and "y = put me (entered (q, r)) (set_kst k x)" and "q = Ready \<longleftrightarrow> r \<noteq> None" and "p \<noteq> Ready"
      and "0 < me" and "mapped (kmod x)" and "locks p \<Longrightarrow> mutex_ready (thread1 (kst (kmod x)))"
proof (cases e)
  case (Run lk)
  then show thesis
    using assms(1) that(4) by (auto simp: lstep_def rbind_eq_Inr split: if_splits)
next
  case (Test me call)
  then show thesis
    using assms(1) that(5,6)
    by (cases "stub_of call (kmod x)") (auto simp: lstep_def split: if_splits)
next
  case (Jump me)
  then obtain call where c: "callers x me = AtStub call"
    using assms(1) by (auto simp: lstep_def split: caller.splits)
  moreover obtain p r where pr: "enter_call call (kst (kmod x)) = (p, r)" by (cases "enter_call call (kst (kmod x))")
  moreover have "0 < me" using assms(2) c by (cases me) (auto simp: callers_ok_def)
  ultimately show thesis
    using assms(1) that(7) [OF Jump c _ _ pr _ enter_call_result [OF pr]] Jump
    by (auto simp: lstep_def split: stub.splits if_splits)
next
  case (Resume me lk km)
  then obtain p where p: "callers x me = Inside p"
    using assms(1) by (auto simp: lstep_def split: caller.splits)
  then have n: "p \<noteq> Ready" "0 < me" "mapped (kmod x)"
    using assms(2) by (auto simp: callers_ok_def intro: Suc_leI)
  obtain q r k where "fresh km p (kst (kmod x))" "call_segment me lk km p (kst (kmod x)) = Inr ((q, r), k)"
      "y = put me (entered (q, r)) (set_kst k x)" "locks p \<Longrightarrow> mutex_ready (thread1 (kst (kmod x)))"
    using assms(1) Resume p by (auto simp: lstep_def rbind_eq_Inr split: if_splits)
  then show thesis using that(8) [OF Resume p] n call_segment_result by blast
qed (use that in blast)+

definition part_of_call :: "life_event \<Rightarrow> bool" where
  "part_of_call e \<longleftrightarrow> (case e of Load \<Rightarrow> False | Init _ _ \<Rightarrow> False | Exit _ _ \<Rightarrow> False | _ \<Rightarrow> True)"

lemma view_step:
  assumes "lstep x e y" and "callers_ok x" and "stage_ok x" and "part_of_call e"
  shows "view y = view x \<or> (\<exists>ke. kstep (view x) ke (view y))"
  using assms(1,2)
proof (cases rule: lstep_cases)
  case (run lk pc k)
  then have "stage x \<noteq> Published" using stage_running [OF assms(3)] by auto
  then have "kstep (view x) (Sched lk) (view y)"
    using run unfolding view_def by (auto simp: seen_def intro: kstep_sched)
  then show ?thesis by blast
next
  case (tested me call)
  then have "view y = view x" by (auto simp: view_put view_def fun_eq_iff)
  then show ?thesis by blast
next
  case (jump me call p r)
  have "kstep (view x) (Enter me call r) (view y)"
    unfolding jump(6) view_put pc_of_entered [OF jump(7)] unfolding view_def
    by (rule kstep_enter) (use jump in \<open>simp_all add: seen_def enter_call_readied\<close>)
  then show ?thesis by blast
next
  case (resume me lk km p q r k)
  let ?c = "(\<lambda>k. pc_of (callers x k))(me := q)"
  have "view y = (thread_pc x, ?c, seen (set_kst k x))"
    unfolding resume(5) view_put pc_of_entered [OF resume(6)] by simp
  moreover have "\<not> locks p" if "stage x = Published"
    using resume(10) stage_ready [OF assms(3)] that by auto
  then have "call_segment me lk km p (seen x) = Inr ((q, r), seen (set_kst k x))"
    using resume(4) call_segment_readied by (auto simp: seen_def)
  then have "kstep (view x) (Continue me lk km r) (thread_pc x, ?c, seen (set_kst k x))"
    unfolding view_def by (intro kstep_continue) (use resume in \<open>simp_all add: seen_def fresh_readied\<close>)
  ultimately show ?thesis by metis
qed (use assms in \<open>simp_all add: part_of_call_def\<close>)

lemma exit_callers:
  assumes "exit_step me lk x = Some (Inr y)"
  shows "callers y = callers x \<or> callers y = gone (callers x)"
    and "stage x \<noteq> Unmap \<Longrightarrow> callers y = callers x \<and> mapped (kmod y) = mapped (kmod x)"
  using assms by (auto simp: exit_step_def Let_def rbind_eq_Inr split: stage.splits if_splits)

lemma init_cases:
  assumes "lstep x (Init created err) y"
  shows "stage x = Published
    \<and> (stage y = Live \<and> callers y = callers x \<and> thread_pc y = thread_pc x
          \<and> (\<exists>i. kmod y = (kmod x)\<lparr>proc_entry := True, next_id := i, kst := readied (kmod x),
                 thread_running := True\<rparr>)
        \<or> stage y = Absent \<and> callers y = gone (callers x) \<and> \<not> mapped (kmod y)
          \<and> thread_running (kmod y) = thread_running (kmod x))"
proof -
  let ?t = "case err of None \<Rightarrow> Task 0 | Some e \<Rightarrow> ErrPtr e"
  obtain r m where m: "finish_init created ?t (kmod x) = (r, m)" by fastforce
  have y: "stage x = Published" "\<forall>e \<in> set_option err. e < 0"
      "y = (if 0 \<le> r then x\<lparr>kmod := m, stage := Live\<rparr>
        else x\<lparr>kmod := m\<lparr>mapped := False\<rparr>, stage := Absent, callers := gone (callers x)\<rparr>)"
    using assms by (auto simp: lstep_def m split: if_splits)
  show ?thesis
    using m y
    by (cases created; cases err)
      (auto simp: finish_init_def readied_def thread_init_parameter_def Let_def)
qed

lemma gone_ok: "callers_ok x \<Longrightarrow> callers y = gone (callers x) \<Longrightarrow> callers_ok y"
  by (auto simp: callers_ok_def gone_def split: caller.splits)

lemma callers_ok_step:
  assumes "lstep x e y" and "callers_ok x" and "stage_ok x"
  shows "callers_ok y"
  using assms(1,2)
proof (cases rule: lstep_cases)
  case load
  then show ?thesis using assms by (auto simp: lstep_def callers_ok_def publish_def split: if_splits)
next
  case (init created err)
  then have i: "lstep x (Init created err) y" using assms(1) by simp
  show ?thesis
    using init_cases [OF i] gone_ok assms(2,3) by (auto simp: callers_ok_def stage_ok_def)
next
  case (exit me lk)
  then have st: "exit_step me lk x = Some (Inr y)" using assms(1) by (simp add: lstep_def)
  show ?thesis
  proof (cases "stage x = Unmap")
    case True
    then have "callers y = gone (callers x)" using st by (auto simp: exit_step_def Let_def)
    then show ?thesis using gone_ok assms(2) by blast
  next
    case False
    then show ?thesis using exit_callers(2) [OF st] assms(2) by (auto simp: callers_ok_def)
  qed
next
  case (jump me call p r)
  then show ?thesis using assms(2) entered_ok [OF jump(7)] by (auto simp: callers_ok_def)
next
  case (resume me lk km p q r k)
  then show ?thesis using assms(2) entered_ok [OF resume(6)] by (auto simp: callers_ok_def)
qed (use assms(2) in \<open>auto simp: callers_ok_def\<close>)

lemma stage_ok_exit: "stage_ok x \<Longrightarrow> exit_step me lk x = Some (Inr y) \<Longrightarrow> stage_ok y"
  by (auto simp: exit_step_def Let_def rbind_eq_Inr stage_ok_def stubs_cleared_def
      dest: parameters_ready [OF removal_keeps] split: stage.splits if_splits)

lemma lstep_stage:
  assumes "lstep x e y" and "callers_ok x" and "part_of_call e"
  shows "stage y = stage x \<and> (\<exists>k. kmod y = (kmod x)\<lparr>kst := k\<rparr> \<and> parameters k = parameters (kst (kmod x)))"
proof -
  have same: "\<exists>k. kmod x = (kmod x)\<lparr>kst := k\<rparr> \<and> parameters k = parameters (kst (kmod x))"
    by (rule exI [of _ "kst (kmod x)"]) simp
  from assms(1,2) show ?thesis
  proof (cases rule: lstep_cases)
    case (run lk pc k)
    then show ?thesis using sched_segment_keeps by auto
  next
    case (resume me lk km p q r k)
    then show ?thesis using call_segment_keeps by auto
  qed (use assms(3) same in \<open>simp_all add: part_of_call_def\<close>)
qed

lemma stage_ok_step:
  assumes "lstep x e y" and "callers_ok x" and "stage_ok x"
  shows "stage_ok y"
proof (cases "part_of_call e")
  case True
  then obtain k where "stage y = stage x" "kmod y = (kmod x)\<lparr>kst := k\<rparr>" "parameters k = parameters (kst (kmod x))"
    using lstep_stage [OF assms(1,2)] by blast
  then show ?thesis
    using assms(3) parameters_ready [of k "kst (kmod x)"]
    by (simp add: stage_ok_def stubs_cleared_def stubs_set_def)
next
  case False
  then consider "e = Load" | created err where "e = Init created err"
      | me lk where "exit_step me lk x = Some (Inr y)"
    using assms(1) by (cases e) (auto simp: lstep_def part_of_call_def)
  then show ?thesis
  proof cases
    case 1
    then show ?thesis
      using assms(1,3) by (auto simp: lstep_def stage_ok_def publish_def stubs_set_def setup_explicit split: if_splits)
  next
    case (2 created err)
    then show ?thesis 
      using init_cases [of x created err y] assms(1,3)
      by (auto simp: stage_ok_def stubs_set_def readied_def thread_init_parameter_def)
  next
    case (3 me lk)
    then show ?thesis using stage_ok_exit assms(3) by blast
  qed
qed

lemma exit_view:
  assumes "exit_step me lk x = Some (Inr y)" and "stage x \<noteq> Remove" and "stage x \<noteq> Unmap"
  shows "view y = view x"
  using assms by (auto simp: exit_step_def Let_def view_def seen_def split: stage.splits if_splits)

lemma load_view:
  assumes "lstep x Load y" and "callers_ok x" and "stage_ok x"
  shows "view y = booted"
proof -
  have y: "stage x = Absent" "y = x\<lparr>kmod := publish (kmod x), stage := Published, thread_pc := AtTop\<rparr>"
    using assms(1) by (auto simp: lstep_def split: if_splits)
  have "pc_of (callers x k) = Ready" for k
    using assms(2,3) y(1) by (cases "callers x k") (auto simp: callers_ok_def stage_ok_def)
  then show ?thesis
    unfolding y(2) by (simp add: view_def seen_def readied_def booted_def boot_state_def publish_def)
qed

lemma init_view: "lstep x (Init created err) y \<Longrightarrow> stage y = Live \<Longrightarrow> view y = view x"
  using init_cases [of x created err y] by (auto simp: view_def seen_def)

lemma life_ok_step:
  assumes "lstep x e y" and "life_ok x"
  shows "life_ok y"
proof -
  have c: "callers_ok x" "stage_ok x" using assms(2) by (auto simp: life_ok_def)
  have "\<exists>es. steps kstep booted es (view y)" if y: "stage y \<notin> {Absent, Unmap}"
  proof -
    have same: ?thesis if "view y = view x" "stage x \<notin> {Absent, Unmap}"
      using that assms(2) by (simp add: life_ok_def)
    consider "e = Load" | created err where "e = Init created err"
        | me lk where "e = Exit me lk" | "part_of_call e"
      by (cases e) (auto simp: part_of_call_def)
    then show ?thesis
    proof cases
      case 1
      then show ?thesis using load_view c assms(1) by auto
    next
      case (2 created err)
      then have "stage x = Published" "stage y = Live" using init_cases [of x] assms(1) y by auto
      then show ?thesis using same init_view assms(1) 2 by auto
    next
      case (3 me lk)
      then have ex: "exit_step me lk x = Some (Inr y)" using assms(1) by (auto simp: lstep_def)
      then have "stage x \<notin> {Absent, Remove, Unmap}"
        using y by (auto simp: exit_step_def Let_def rbind_eq_Inr)
      then show ?thesis using same exit_view [OF ex] by simp
    next
      case 4
      then have st: "stage x \<notin> {Absent, Unmap}" using lstep_stage [OF assms(1) c(1)] y by auto
      then obtain es where es: "steps kstep booted es (view x)" using assms(2) by (auto simp: life_ok_def)
      from view_step [OF assms(1) c 4] show ?thesis
      proof
        assume "\<exists>ke. kstep (view x) ke (view y)"
        then obtain ke where "steps kstep (view x) [ke] (view y)" by blast
        then show ?thesis using steps_append [OF es] by blast
      qed (use same st in simp)
    qed
  qed
  then show ?thesis
    using callers_ok_step [OF assms(1) c] stage_ok_step [OF assms(1) c] by (simp add: life_ok_def)
qed

interpretation module_life: machine lstep life_ok
  by unfold_locales (rule life_ok_step)

lemma life_ok_before: "life_ok before_load"
  by (simp add: life_ok_def callers_ok_def stage_ok_def before_load_def no_module_def)

lemma reachable_life: "steps lstep before_load es x \<Longrightarrow> life_ok x"
  using module_life.run_inv life_ok_before by blast

section \<open>Properties\<close>

text \<open>
  The loaded module is the interleaved machine: whatever loads, failed loads, unloads and
  calls came before, a state between a successful load and the end of the removal at exit is,
  seen from the scheduler and the threads inside the module, a reachable state of the interleaved
  machine; so every property of its reachable states holds there, and it is well formed.
\<close>

lemma loaded_module_interleaves:
  assumes "steps lstep before_load es x" and "stage x \<notin> {Absent, Published, Unmap}"
  shows "(\<exists>fs. steps kstep booted fs (thread_pc x, \<lambda>k. pc_of (callers x k), kst (kmod x)))
    \<and> well_formed (kst (kmod x)) \<and> mapped (kmod x)"
proof -
  have "life_ok x" by (rule reachable_life [OF assms(1)])
  then obtain fs where "steps kstep booted fs (view x)" "mapped (kmod x)"
    using assms(2) by (auto simp: life_ok_def stage_ok_def)
  then show ?thesis using reachable_ok [of fs "view x"] assms(2) by (auto simp: view_def seen_def sys_ok_def)
qed

definition demo_live :: life where
  "demo_live =
     \<lparr>kmod = \<lparr>stub_start = StubModule, stub_request = StubModule, stub_stop = StubModule, mapped = True,
        proc_entry = True, thread_running = True, next_id = 2, kst = boot_state\<rparr>,
      stage = Live, thread_pc = AtTop, callers = (\<lambda>_. Outside)\<rparr>"

lemma demo_run_load: "run_life [Load, Init True None] before_load = Some (Inr demo_live)"
  by (simp add: before_load_def demo_live_def split_def)
    (simp add: publish_def finish_init_def thread_init_parameter_def Let_def boot_state_def no_module_def
      inc32_def wrap32_def)

lemma run_life_append:
  "run_life (es @ fs) x = (case run_life es x of Some (Inr y) \<Rightarrow> run_life fs y | z \<Rightarrow> z)"
  by (induction es arbitrary: x) (auto split: option.splits sum.splits)

text \<open>A run that continues after a load without an error.\<close>

lemma demo_load:
  assumes "run_life es demo_live = Some (Inr y)"
  shows "steps lstep before_load ([Load, Init True None] @ es) y"
  by (rule run_life_steps) (simp only: run_life_append demo_run_load assms option.case sum.case)

lemma loaded_module_interleaves_witness:
  "\<exists>fs. steps kstep booted fs (AtTop, \<lambda>k. Ready, kst (kmod demo_live))"
  using loaded_module_interleaves [OF demo_load [OF run_life.simps(1)]]
  by (simp add: demo_live_def)

section \<open>Calls before the init ends\<close>

text \<open>
  C32. The stubs are published before the module is ready. Between their assignment and the rest of
  the init \<open>mutex_init\<close> has not run on the mutex of \<open>thread1\<close>, and a call that has come through a
  stub and wants the mutex locks it all the same. If the init succeeds, the mutex is ready. If the
  proc entry or the thread cannot be created, the kernel unmaps the module with the stubs set: a
  call inside it runs on in unmapped code, and so does every call that has tested its stub or
  ever tests it from then on.
\<close>

theorem calls_before_init_ends:
  assumes "steps lstep before_load es x" and "stage x = Published" and "callers x i = Inside p"
    and "locks p" and "\<not> created \<or> err \<noteq> None" and "\<forall>e \<in> set_option err. e < 0"
  shows "\<not> mutex_ready (thread1 (kst (kmod x))) \<and> life_next (Resume i lk km) x = Some (Inl Uninitialised)
    \<and> (\<exists>z. lstep x (Init True None) z \<and> stage z = Live \<and> mutex_ready (thread1 (kst (kmod z))))
    \<and> (\<exists>y. lstep x (Init created err) y \<and> stage y = Absent \<and> \<not> proc_entry (kmod y)
        \<and> life_next (Resume i lk km) y = Some (Inl DanglingCall)
        \<and> (\<forall>j call. callers y j = AtStub call \<longrightarrow> life_next (Jump j) y = Some (Inl DanglingCall))
        \<and> (\<forall>j call. 0 < j \<longrightarrow> callers y j = Outside \<longrightarrow>
             (\<exists>z. lstep y (Test j call) z \<and> life_next (Jump j) z = Some (Inl DanglingCall))))"
proof -
  let ?t = "case err of None \<Rightarrow> Task 0 | Some e \<Rightarrow> ErrPtr e"
  have "stage_ok x" using reachable_life [OF assms(1)] by (simp add: life_ok_def)
  then have raw: "\<not> mutex_ready (thread1 (kst (kmod x)))" and stubs: "stub_of call (kmod x) = StubModule" for call
    using assms(2) by (simp add: stage_ready, cases call) (simp_all add: stage_ok_def stubs_set_def)
  obtain r m where m: "finish_init created ?t (kmod x) = (r, m)" by fastforce
  have r: "r < 0" "\<not> proc_entry m" "stub_start m = stub_start (kmod x)"
      "stub_request m = stub_request (kmod x)" "stub_stop m = stub_stop (kmod x)"
    using m assms(5,6)
    by (cases created; cases err; auto simp: finish_init_def thread_init_parameter_def Let_def)+
  define y where "y = x\<lparr>kmod := m\<lparr>mapped := False\<rparr>, stage := Absent, callers := gone (callers x)\<rparr>"
  have stub: "stub_of call (kmod y) = StubModule" for call
    using stubs [of call] r(3-5) by (cases call) (simp_all add: y_def)
  have y: "lstep x (Init created err) y"
    using assms(2,6) r(1) m by (simp add: lstep_def y_def)
  have "\<exists>z. lstep y (Test j call) z \<and> life_next (Jump j) z = Some (Inl DanglingCall)"
    if "0 < j" "callers y j = Outside" for j call
    using that stub by (intro exI [of _ "put j (AtStub (cut_args call)) y"]) (simp add: lstep_def y_def)
  moreover have "life_next (Resume i lk km) y = Some (Inl DanglingCall)"
    using assms(3) by (simp add: y_def gone_def)
  moreover have "life_next (Jump j) y = Some (Inl DanglingCall)" if "callers y j = AtStub call" for j call
    using that stub by (simp add: y_def)
  moreover have "stage y = Absent" "\<not> proc_entry (kmod y)" using r(2) by (simp_all add: y_def)
  moreover have "life_next (Resume i lk km) x = Some (Inl Uninitialised)" using assms(3,4) raw by simp
  moreover have "\<exists>z. lstep x (Init True None) z \<and> stage z = Live \<and> mutex_ready (thread1 (kst (kmod z)))"
    using assms(2) by (simp add: lstep_def finish_init_def thread_init_parameter_def Let_def)
  ultimately show ?thesis using y raw by blast
qed

text \<open>Thread 2 has started the elevator while it is loaded, and its request is at the mutex.\<close>

definition demo_early :: life where
  "demo_early =
     \<lparr>kmod = (publish no_module)\<lparr>kst := (setup_elevator bss_state)
        \<lparr>elevator := (elevator (setup_elevator bss_state))\<lparr>started := 1\<rparr>\<rparr>\<rparr>,
      stage = Published, thread_pc = AtTop,
      callers = (\<lambda>_. Outside)(2 := Inside (RequestLock 1 5 1), 3 := AtStub StartCall)\<rparr>"

definition demo_early_events :: "life_event list" where
  "demo_early_events = [Load, Test 2 StartCall, Jump 2, Resume 2 0 None, Resume 2 0 None,
     Test 2 (RequestCall 1 5 1), Jump 2, Test 3 StartCall]"

lemma demo_early_run: "steps lstep before_load demo_early_events demo_early"
  by (rule run_life_steps)
    (simp add: demo_early_events_def demo_early_def before_load_def publish_def no_module_def put_def
      set_kst_def entered_def fresh_def res_simps setup_explicit wrap32_def)

theorem calls_before_init_ends_witness:
  "life_next (Resume 2 0 (Some 7)) demo_early = Some (Inl Uninitialised)
    \<and> (\<exists>y. lstep demo_early (Init True (Some (- 12))) y
        \<and> life_next (Resume 2 0 (Some 7)) y = Some (Inl DanglingCall))"
proof -
  have "stage demo_early = Published" "callers demo_early 2 = Inside (RequestLock 1 5 1)"
    by (simp_all add: demo_early_def)
  from calls_before_init_ends [OF demo_early_run this, of True "Some (- 12)" 0 "Some 7"] show ?thesis by auto
qed

section \<open>An unload without calls in flight\<close>

text \<open>No thread is in a call, and none can get in.\<close>

definition leaving :: "life \<Rightarrow> bool" where
  "leaving x \<longleftrightarrow> life_ok x \<and> (\<forall>k. callers x k = Outside)
     \<and> stage x \<in> {StopThread, Remove, Unmap, Absent} \<and> stubs_cleared (kmod x)
     \<and> (stage x \<in> {Unmap, Absent} \<longrightarrow> heap (kst (kmod x)) = Map.empty)"

fun no_load :: "life_event \<Rightarrow> bool" where
  "no_load Load = False"
| "no_load e = True"

lemma stub_of_cleared: "stubs_cleared m \<Longrightarrow> stub_of call m = StubNull"
  by (cases call) (simp_all add: stubs_cleared_def)

lemma life_view_ok: "life_ok x \<Longrightarrow> stage x \<noteq> Absent \<Longrightarrow> stage x \<noteq> Unmap \<Longrightarrow> sys_ok (view x)"
  using reachable_ok by (simp add: life_ok_def) metis

lemma life_sys_ok:
  assumes "life_ok x" and "stage x \<notin> {Absent, Published, Unmap}"
  shows "sys_ok (thread_pc x, \<lambda>k. pc_of (callers x k), kst (kmod x))"
  using life_view_ok [OF assms(1)] assms(2) by (simp add: view_def seen_def)

lemma leaving_running:
  assumes "leaving x" and "thread_running (kmod x)"
  shows "stage x = StopThread"
proof -
  have "stage x \<in> {Live, ClearRequest, ClearStop, StopThread}" "stage x \<in> {StopThread, Remove, Unmap, Absent}"
    using assms unfolding leaving_def life_ok_def stage_ok_def by blast+
  then show ?thesis by auto
qed

lemma leaving_wf:
  assumes "leaving x" and "stage x = StopThread \<or> stage x = Remove"
  shows "well_formed (kst (kmod x)) \<and> pc_ok (thread_pc x) (kst (kmod x))"
proof -
  have "life_ok x" using assms(1) by (simp add: leaving_def)
  from life_sys_ok [OF this] show ?thesis using assms(2) by (auto simp: sys_ok_def)
qed

lemma leaving_exit:
  assumes "exit_step me lk x = Some (Inr y)" and "leaving x" and "life_ok y"
  shows "leaving y"
proof -
  have w: "well_formed (kst (kmod x))" if "stage x = Remove"
    using leaving_wf [OF assms(2)] that by blast
  have rem: "heap k = Map.empty"
    if "stage x = Remove" "removeAllPassengers me lk (kst (kmod x)) = Inr k" for k
    using removeAllPassengers_result [OF w [OF that(1)], of me lk] that(2)
    by (auto simp: emptied_state_def split: if_splits)
  show ?thesis
    using assms rem
    by (auto simp: exit_step_def leaving_def Let_def rbind_eq_Inr stubs_cleared_def gone_def
        split: stage.splits if_splits)
qed

lemma leaving_step:
  assumes "lstep x e y \<and> no_load e" and "leaving x"
  shows "leaving y"
proof -
  have ok: "life_ok x" "callers_ok x" using assms(2) by (auto simp: leaving_def life_ok_def)
  have y: "life_ok y" by (rule life_ok_step) (use assms ok in auto)
  have out: "callers x k = Outside" and cl: "stub_of call (kmod x) = StubNull" for k call
    using assms(2) stub_of_cleared by (auto simp: leaving_def)
  show ?thesis
    using conjunct1 [OF assms(1)] ok(2)
  proof (cases rule: lstep_cases)
    case (exit me lk)
    then show ?thesis using leaving_exit assms y by (auto simp: lstep_def)
  next
    case (run lk pc k)
    then have "stage x = StopThread" using leaving_running assms(2) by blast
    then show ?thesis using run y assms(2) by (simp add: leaving_def stubs_cleared_def)
  next
    case load
    then show ?thesis using assms(1) by simp
  next
    case (init created err)
    then have "stage x = Published" using init_cases [of x] assms(1) by blast
    then show ?thesis using assms(2) by (simp add: leaving_def)
  qed (use assms(2) out cl in simp_all)
qed

interpretation leave: machine "\<lambda>x e y. lstep x e y \<and> no_load e" leaving
  by unfold_locales (rule leaving_step)

text \<open>
  A clean unload, with sections as one step: if no thread is in a call when the last stub has been cleared, then until
  the next load nobody gets in again, the only fault possible is the release of the mutex after
  an interrupted lock, and when the module is gone every passenger has been freed.
\<close>

lemma clean_unload:
  assumes "steps lstep before_load es x" and "stage x = StopThread" and "\<forall>k. callers x k = Outside"
    and "steps (\<lambda>x e y. lstep x e y \<and> no_load e) x fs y"
  shows "(\<forall>k. callers y k = Outside) \<and> (\<forall>call. stub_of call (kmod y) = StubNull)
    \<and> (stage y = Absent \<longrightarrow> heap (kst (kmod y)) = Map.empty)
    \<and> (\<forall>e f. life_next e y = Some (Inl f) \<longrightarrow> f = UnlockNotOwner)"
proof -
  have "leaving x"
    using reachable_life [OF assms(1)] assms(2,3) by (auto simp: leaving_def life_ok_def stage_ok_def)
  then have y: "leaving y" by (rule leave.run_inv [OF assms(4)])
  have faults: "f = UnlockNotOwner" if e: "life_next e y = Some (Inl f)" for e f
  proof (cases e)
    case (Exit me lk)
    then have st: "stage y = Remove" "removeAllPassengers me lk (kst (kmod y)) = Inl f"
      using e by (auto simp: exit_step_def Let_def rbind_eq_Inl split: stage.splits if_splits)
    then have "well_formed (kst (kmod y))" using leaving_wf [OF y] by blast
    then show ?thesis
      using st(2) by (auto simp: removeAllPassengers_result split: if_splits)
  next
    case (Run lk)
    then have r: "thread_running (kmod y)"
        "sched_segment 0 lk (thread_pc y) (kst (kmod y)) = Inl f"
      using e by (auto simp: rbind_eq_Inl split: if_splits)
    have w: "well_formed (kst (kmod y))" "pc_ok (thread_pc y) (kst (kmod y))"
      using leaving_wf [OF y] leaving_running [OF y r(1)] by blast+
    show ?thesis
    proof (cases "lk = 0")
      case True
      then show ?thesis using segment_ok [OF w, of 0] r(2) by auto
    next
      case False
      then show ?thesis using r(2) w
        by (cases "thread_pc y") (auto simp: unloadPassengers_interrupted loadPassengers_interrupted
            res_simps split: if_splits)
    qed
  qed (use e y in \<open>auto simp: leaving_def split_def Let_def split: if_splits\<close>)
  show ?thesis using y faults stub_of_cleared by (auto simp: leaving_def)
qed

definition demo_cleared :: life where
  "demo_cleared = demo_live\<lparr>kmod := (kmod demo_live)\<lparr>stub_start := StubNull, stub_request := StubNull,
     stub_stop := StubNull\<rparr>, stage := StopThread\<rparr>"

lemma demo_clear: "run_life (replicate 3 (Exit 5 0)) demo_live = Some (Inr demo_cleared)"
  by (simp add: numeral_eq_Suc exit_step_def demo_live_def demo_cleared_def)

lemma clean_unload_witness:
  "callers demo_cleared 3 = Outside \<and> stub_of StopCall (kmod demo_cleared) = StubNull
    \<and> life_next (Run 0) demo_cleared \<noteq> Some (Inl UseAfterFree)"
  using clean_unload [OF demo_load [OF demo_clear] _ _ steps_nil] by (fastforce simp: demo_cleared_def demo_live_def)

section \<open>An unload with calls in flight\<close>

lemma request_critical_dropped:
  assumes "mutex (thread1 s) = None" and "deactiving (elevator s) \<noteq> 0"
  shows "request_critical me 0 km start dest type s = Inr (0, s)"
  using assms(2) set_mutex_set_mutex [OF assms(1)]
  by (simp add: request_critical_def locked_region_def Let_def mutex_lock_interruptible_def res_simps)

text \<open>
  C19. What an unload does to calls in flight, from any reachable state of the live module whose
  scheduler thread is at the top of its loop, where \<open>kthread_stop\<close> finds it: a start that has passed
  the test of its stub calls through the null pointer that the exit has just stored; a request that
  waits for the mutex runs on in unmapped code when it gets the mutex after the unmapping. When it
  gets it before, its call ends: unless a stop is under way, it has then queued a passenger whom
  nobody will ever free; if one is, the request is dropped and nothing is left.
\<close>

theorem unload_with_calls_in_flight:
  assumes "steps lstep before_load es x" and "stage x = Live" and "thread_pc x = AtTop"
    and "callers x i = AtStub StartCall" and "callers x j = Inside (RequestLock start dest type)"
  shows "\<exists>x1 x5 x6 y6 y7. lstep x (Exit me 0) x1 \<and> life_next (Jump i) x1 = Some (Inl NullDeref)
    \<and> steps lstep x1 (replicate 4 (Exit me 0)) x5
    \<and> lstep x5 (Exit me 0) x6 \<and> life_next (Resume j lk km) x6 = Some (Inl DanglingCall)
    \<and> lstep x5 (Resume j 0 (if deactiving (elevator (kst (kmod x))) = 0 then Some a else None)) y6
    \<and> callers y6 j = Outside \<and> lstep y6 (Exit me 0) y7 \<and> stage y7 = Absent
    \<and> heap (kst (kmod y7)) = (if deactiving (elevator (kst (kmod x))) = 0
        then [a \<mapsto> \<lparr>ptype = type, start_floor = start, destination_floor = dest\<rparr>] else Map.empty)"
proof -
  let ?quiet = "deactiving (elevator (kst (kmod x))) = 0"
  let ?m = "kmod x" and ?k = "emptied_state (kst (kmod x))"
  let ?q = "if ?quiet then requested_state a start dest type ?k else ?k"
  let ?km = "if ?quiet then Some a else None"
  note ok = life_sys_ok [OF reachable_life [OF assms(1)]]
  then have w: "well_formed (kst ?m)" by (simp add: assms(2) sys_ok_def)
  have "stage_ok x" using reachable_life [OF assms(1)] by (simp add: life_ok_def)
  then have ready: "mutex_ready (thread1 (kst ?m))" using assms(2) by (simp add: stage_ready)
  have "call_ok (pc_of (callers x j))" using ok by (simp add: assms(2) sys_ok_def)
  then have v: "request_valid start dest type" by (simp add: assms(5))
  define m4 where "m4 = ?m\<lparr>stub_start := StubNull, stub_request := StubNull, stub_stop := StubNull,
    thread_running := False\<rparr>"
  define x1 where "x1 = x\<lparr>kmod := ?m\<lparr>stub_start := StubNull\<rparr>, stage := ClearRequest\<rparr>"
  define x5 where "x5 = x\<lparr>kmod := m4\<lparr>kst := ?k\<rparr>, stage := Unmap\<rparr>"
  define x6 where "x6 = x5\<lparr>kmod := (kmod x5)\<lparr>proc_entry := False, mapped := False\<rparr>, stage := Absent,
    callers := gone (callers x5)\<rparr>"
  define y6 where "y6 = put j Outside (set_kst ?q x5)"
  define y7 where "y7 = y6\<lparr>kmod := (kmod y6)\<lparr>proc_entry := False, mapped := False\<rparr>, stage := Absent,
    callers := gone (callers y6)\<rparr>"
  have x1: "lstep x (Exit me 0) x1" by (simp add: lstep_def exit_step_def assms(2) x1_def)
  have jump: "life_next (Jump i) x1 = Some (Inl NullDeref)" by (simp add: x1_def assms(4))
  have x5: "steps lstep x1 (replicate 4 (Exit me 0)) x5"
    by (rule run_life_steps) (simp add: numeral_eq_Suc exit_step_def x1_def x5_def m4_def assms(3)
        removeAllPassengers_eq [OF w] res_simps)
  have x6: "lstep x5 (Exit me 0) x6"
    by (simp add: lstep_def exit_step_def x5_def x6_def gone_def)
  have resume: "life_next (Resume j lk km) x6 = Some (Inl DanglingCall)"
    by (simp add: x6_def x5_def gone_def assms(5))
  have none: "mutex (thread1 ?k) = None" using wfD(9) [OF w] by (simp add: emptied_state_def)
  have "request_critical j 0 ?km start dest type ?k = Inr (0, ?q)"
  proof (cases ?quiet)
    case True
    then show ?thesis
      using request_critical_queues [OF none, of start dest type j a] v wf_position(5) [OF w]
      by (simp add: emptied_state_def)
  next
    case False
    then have "deactiving (elevator ?k) \<noteq> 0" by (simp add: emptied_state_def)
    with none have "request_critical j 0 None start dest type ?k = Inr (0, ?k)" by (rule request_critical_dropped)
    with False show ?thesis by simp
  qed
  then have y6: "lstep x5 (Resume j 0 ?km) y6"
    using assms(5) ready
    by (simp add: lstep_def x5_def y6_def fresh_def emptied_state_def res_simps entered_def)
  have y7: "lstep y6 (Exit me 0) y7"
    by (simp add: lstep_def exit_step_def y6_def y7_def x5_def gone_def)
  have "heap (kst (kmod y7)) = (if ?quiet
      then [a \<mapsto> \<lparr>ptype = type, start_floor = start, destination_floor = dest\<rparr>] else Map.empty)"
    by (simp add: y7_def y6_def x5_def requested_state_def emptied_state_def Let_def)
  moreover have "stage y7 = Absent" "callers y6 j = Outside" by (simp_all add: y7_def y6_def)
  ultimately show ?thesis using x1 jump x5 x6 resume y6 y7 by blast
qed

text \<open>Loaded and started, thread 2 waits for the mutex and thread 3 has tested its stub.\<close>

definition demo_busy :: life where
  "demo_busy = demo_live
     \<lparr>kmod := (kmod demo_live)\<lparr>kst := boot_state\<lparr>elevator := (elevator boot_state)\<lparr>started := 1\<rparr>\<rparr>\<rparr>,
      callers := (\<lambda>_. Outside)(2 := Inside (RequestLock 1 5 1), 3 := AtStub StartCall)\<rparr>"

definition demo_busy_events :: "life_event list" where
  "demo_busy_events = [Test 2 StartCall, Jump 2, Resume 2 0 None, Resume 2 0 None,
     Test 2 (RequestCall 1 5 1), Jump 2, Test 3 StartCall]"

lemma demo_busy_run: "run_life demo_busy_events demo_live = Some (Inr demo_busy)"
  by (simp add: demo_busy_events_def demo_live_def demo_busy_def put_def set_kst_def entered_def
      fresh_def res_simps boot_explicit wrap32_def)

theorem unload_with_calls_in_flight_witness:
  "\<exists>x1. lstep demo_busy (Exit 5 0) x1 \<and> life_next (Jump 3) x1 = Some (Inl NullDeref)"
proof -
  have "stage demo_busy = Live" "thread_pc demo_busy = AtTop" "callers demo_busy 3 = AtStub StartCall"
    "callers demo_busy 2 = Inside (RequestLock 1 5 1)"
    by (simp_all add: demo_busy_def demo_live_def boot_explicit)
  from unload_with_calls_in_flight [OF demo_load [OF demo_busy_run] this, of 5 0 None 7] show ?thesis by blast
qed

end
