(* ===== verification/ModuleEnd.thy ===== *)
theory ModuleEnd
  imports ModuleLife
begin

text \<open>
  The end of an unload. \<open>kthread_stop\<close> waits for the thread, which looks at the flag only at the
  top of its loop; the thread gets there without help from anybody, whatever it was doing and
  whoever is in a call, and the rest of \<open>elevator_exit\<close> cannot fail.
\<close>

section \<open>The thread comes to the top of its loop\<close>

lemma thread_runs:
  "steps kstep (thread_pc x, c, kst (kmod x)) (replicate n (Sched 0)) (pc, c', k) \<Longrightarrow> thread_running (kmod x) \<Longrightarrow>
    steps lstep x (replicate n (Run 0)) ((set_kst k x)\<lparr>thread_pc := pc\<rparr>)"
proof (induction n arbitrary: x)
  case 0
  then have "(set_kst k x)\<lparr>thread_pc := pc\<rparr> = x" by (auto simp: set_kst_def)
  then show ?case by auto
next
  case (Suc n)
  then obtain y where y: "kstep (thread_pc x, c, kst (kmod x)) (Sched 0) y"
      "steps kstep y (replicate n (Sched 0)) (pc, c', k)" by auto
  then obtain pc1 k1 where k1: "y = (pc1, c, k1)" "sched_segment 0 0 (thread_pc x) (kst (kmod x)) = Inr (pc1, k1)"
    by (auto elim: kstep_schedE)
  let ?x = "(set_kst k1 x)\<lparr>thread_pc := pc1\<rparr>"
  have "lstep x (Run 0) ?x" using Suc.prems(2) by (simp add: lstep_def k1(2) res_simps)
  moreover have "steps lstep ?x (replicate n (Run 0)) ((set_kst k ?x)\<lparr>thread_pc := pc\<rparr>)"
    by (rule Suc.IH) (use y(2) k1(1) Suc.prems(2) in simp_all)
  moreover have "(set_kst k ?x)\<lparr>thread_pc := pc\<rparr> = (set_kst k x)\<lparr>thread_pc := pc\<rparr>" by (simp add: set_kst_def)
  ultimately show ?case by auto
qed

section \<open>The steps of the exit\<close>

lemma exit_reaches_stop:
  assumes "stage x \<in> {Live, ClearRequest, ClearStop, StopThread}"
  obtains i y where "steps lstep x (replicate i (Exit me 0)) y" and "steps_left (stage x) = i + 3"
    and "stage y = StopThread" and "kst (kmod y) = kst (kmod x)" and "thread_pc y = thread_pc x"
proof -
  have "\<exists>y. run_life (replicate (steps_left (stage x) - 3) (Exit me 0)) x = Some (Inr y)
      \<and> stage y = StopThread \<and> kst (kmod y) = kst (kmod x) \<and> thread_pc y = thread_pc x"
    using assms by (auto simp: exit_step_def Let_def numeral_eq_Suc)
  moreover have "steps_left (stage x) = (steps_left (stage x) - 3) + 3" using assms by auto
  ultimately show thesis using that run_life_steps by metis
qed

lemma exit_from_remove:
  assumes "stage x = Remove" and "well_formed (kst (kmod x))"
  obtains y where "steps lstep x [Exit me 0, Exit me 0] y" and "stage y = Absent" and "\<not> mapped (kmod y)"
    and "heap (kst (kmod y)) = Map.empty"
proof -
  have "\<exists>y. run_life [Exit me 0, Exit me 0] x = Some (Inr y) \<and> stage y = Absent \<and> \<not> mapped (kmod y)
      \<and> heap (kst (kmod y)) = Map.empty"
    using assms by (simp add: exit_step_def Let_def removeAllPassengers_eq res_simps emptied_state_def)
  then show thesis using that run_life_steps by metis
qed

lemma exit_from_stop:
  assumes "stage x = StopThread" and "thread_pc x = AtTop" and "well_formed (kst (kmod x))"
  obtains y where "steps lstep x (replicate 3 (Exit me 0)) y" and "stage y = Absent" and "\<not> mapped (kmod y)"
    and "heap (kst (kmod y)) = Map.empty"
proof -
  let ?r = "x\<lparr>kmod := (kmod x)\<lparr>thread_running := False\<rparr>, stage := Remove\<rparr>"
  have 1: "lstep x (Exit me 0) ?r" using assms(1,2) by (simp add: lstep_def exit_step_def)
  obtain y where y: "steps lstep ?r [Exit me 0, Exit me 0] y" "stage y = Absent" "\<not> mapped (kmod y)"
      "heap (kst (kmod y)) = Map.empty"
    by (rule exit_from_remove [of ?r]) (use assms(3) in simp_all)
  have "replicate 3 (Exit me 0) = [Exit me 0, Exit me 0, Exit me 0]" by (simp add: numeral_eq_Suc)
  then show thesis using that [of y] 1 y by auto
qed

section \<open>Properties\<close>

text \<open>
  An unload ends: from every reachable state of the loaded module, whatever the thread is doing
  and whoever is in a call, with \<open>elevator_exit\<close> not begun or under way, what is left of the six
  steps of the exit and at most six segments of the thread in between lead to the unloaded module
  without a fault, with every passenger freed, if no signal comes.
\<close>

lemma unload_ends:
  assumes "steps lstep before_load es x" and "stage x \<in> {Live, ClearRequest, ClearStop, StopThread, Remove}"
  shows "\<exists>i n j y. i + j = steps_left (stage x) \<and> n \<le> 6
    \<and> steps lstep x (replicate i (Exit me 0) @ replicate n (Run 0) @ replicate j (Exit me 0)) y
    \<and> stage y = Absent \<and> \<not> mapped (kmod y) \<and> heap (kst (kmod y)) = Map.empty"
proof (cases "stage x = Remove")
  case True
  have "sys_ok (thread_pc x, \<lambda>k. pc_of (callers x k), kst (kmod x))"
    by (rule life_sys_ok [OF reachable_life [OF assms(1)]]) (use True in simp)
  then have "well_formed (kst (kmod x))" by (simp add: sys_ok_def)
  then obtain y where "steps lstep x [Exit me 0, Exit me 0] y" "stage y = Absent" "\<not> mapped (kmod y)"
      "heap (kst (kmod y)) = Map.empty" by (rule exit_from_remove [OF True])
  then show ?thesis
    using True by (intro exI [of _ 0] exI [of _ 0] exI [of _ 2] exI [of _ y]) (simp add: numeral_eq_Suc)
next
  case False
  then have st: "stage x \<in> {Live, ClearRequest, ClearStop, StopThread}" using assms(2) by simp
  obtain i x1 where x1: "steps lstep x (replicate i (Exit me 0)) x1" "steps_left (stage x) = i + 3"
      "stage x1 = StopThread" "kst (kmod x1) = kst (kmod x)" "thread_pc x1 = thread_pc x"
    by (rule exit_reaches_stop [OF st])
  let ?c = "\<lambda>k. pc_of (callers x1 k)"
  have ok: "life_ok x1" by (rule module_life.run_inv [OF x1(1) reachable_life [OF assms(1)]])
  have "sys_ok (thread_pc x1, ?c, kst (kmod x1))"
    by (rule life_sys_ok [OF ok]) (use x1(3) in simp)
  then obtain n k where n: "n \<le> rank (thread_pc x1)"
      "steps kstep (thread_pc x1, ?c, kst (kmod x1)) (replicate n (Sched 0)) (AtTop, ?c, k)" "well_formed k"
    using finish_round by blast
  have "thread_running (kmod x1)" using ok x1(3) by (simp add: life_ok_def stage_ok_def)
  let ?x2 = "(set_kst k x1)\<lparr>thread_pc := AtTop\<rparr>"
  have x2: "steps lstep x1 (replicate n (Run 0)) ?x2" by (rule thread_runs [OF n(2)]) fact
  obtain y where y: "steps lstep ?x2 (replicate 3 (Exit me 0)) y" "stage y = Absent" "\<not> mapped (kmod y)"
      "heap (kst (kmod y)) = Map.empty"
    by (rule exit_from_stop [of ?x2]) (use x1(3) n(3) in simp_all)
  have "n \<le> 6" using n(1) rank_bound [of "thread_pc x1"] by linarith
  moreover have "i + 3 = steps_left (stage x)" using x1(2) by (rule sym)
  ultimately show ?thesis
    using steps_append [OF x1(1) steps_append [OF x2 y(1)]] y(2-4) by blast
qed

lemma unload_ends_witness:
  "\<exists>i n j y. i + j = 6 \<and> n \<le> 6
    \<and> steps lstep demo_busy (replicate i (Exit 5 0) @ replicate n (Run 0) @ replicate j (Exit 5 0)) y
    \<and> stage y = Absent \<and> heap (kst (kmod y)) = Map.empty"
proof -
  have "stage demo_busy = Live" by (simp add: demo_busy_def demo_live_def)
  then show ?thesis using unload_ends [OF demo_load [OF demo_busy_run], of 5] by auto
qed

end
