(* ===== verification/LifeSteps.thy ===== *)
theory LifeSteps
  imports LockSteps ModuleLife
begin

text \<open>
  The life of the module over the opened critical sections: \<open>ModuleLife\<close> with the thread and the
  calls of \<open>LockSteps\<close>, and with the section of \<open>removeAllPassengers\<close> opened up in the same way. A
  thread in the loop that frees its \<open>delete_list\<close> is inside the module here. While the module is
  loaded this machine is \<open>fstep\<close>.
\<close>

section \<open>The machine\<close>

text \<open>A thread that was inside when the module was unmapped keeps its position, which is gone.\<close>

datatype fcaller = FOutside | FAtStub call | FInside fcall | FStale fcall

text \<open>The positions within \<open>removeAllPassengers\<close>.\<close>

datatype removal =
    RemoveWait
  | RemoveBody
  | RemoveUnlock int "addr list"
  | RemoveFree "addr list"

record flife =
  fkmod :: module_state
  fstage :: stage
  fpc :: fsched
  fcallers :: "nat \<Rightarrow> fcaller"
  removing :: removal

datatype flife_event =
    FLoad
  | FInit bool "int option"
  | FExit int
  | FRun int
  | FTest nat call
  | FJump nat
  | FResume nat int "addr option"

text \<open>
  The removal waits for the mutex like everybody. The thread that unloads takes the number 0,
  which nobody has any more: \<open>kthread_stop\<close> has returned. \<open>None\<close> as the next position: the
  function has returned.
\<close>

fun removal_step :: "int \<Rightarrow> removal \<Rightarrow> kstate \<Rightarrow> (fault + (removal option \<times> kstate)) option" where
  "removal_step lk RemoveWait s = lock_step 0 lk (Some RemoveBody) (Some (RemoveUnlock lk [])) s"
| "removal_step lk RemoveBody s =
     Some (rbind (rbind (unlink_onboard (s, [])) (for_upto (nat FLOORS) unlink_floor))
       (\<lambda>(s, dl). Inr (Some (RemoveUnlock 0 dl), s)))"
| "removal_step lk (RemoveUnlock r dl) s = unlock_step 0 (Some (RemoveFree dl)) s"
| "removal_step lk (RemoveFree []) s = Some (Inr (None, s))"
| "removal_step lk (RemoveFree (a # dl)) s = free_step a (Some (RemoveFree dl)) s"

definition fput :: "nat \<Rightarrow> fcaller \<Rightarrow> flife \<Rightarrow> flife" where
  "fput me c x = x\<lparr>fcallers := (fcallers x)(me := c)\<rparr>"

definition set_fkst :: "kstate \<Rightarrow> flife \<Rightarrow> flife" where
  "set_fkst k x = x\<lparr>fkmod := (fkmod x)\<lparr>kst := k\<rparr>\<rparr>"

definition fentered :: "fcall \<times> int option \<Rightarrow> fcaller" where
  "fentered = (\<lambda>(q, r). case r of None \<Rightarrow> FInside q | Some _ \<Rightarrow> FOutside)"

definition fgone :: "(nat \<Rightarrow> fcaller) \<Rightarrow> nat \<Rightarrow> fcaller" where
  "fgone c = (\<lambda>k. case c k of FInside q \<Rightarrow> FStale q | d \<Rightarrow> d)"

fun flocks :: "fcall \<Rightarrow> bool" where
  "flocks (Call p) \<longleftrightarrow> locks p"
| "flocks q \<longleftrightarrow> False"

definition fexit_step :: "int \<Rightarrow> flife \<Rightarrow> (fault + flife) option" where
  "fexit_step lk x =
     (let m = fkmod x in
      case fstage x of
        Absent \<Rightarrow> None
      | Published \<Rightarrow> None
      | Live \<Rightarrow> Some (Inr (x\<lparr>fkmod := m\<lparr>stub_start := StubNull\<rparr>, fstage := ClearRequest\<rparr>))
      | ClearRequest \<Rightarrow> Some (Inr (x\<lparr>fkmod := m\<lparr>stub_request := StubNull\<rparr>, fstage := ClearStop\<rparr>))
      | ClearStop \<Rightarrow> Some (Inr (x\<lparr>fkmod := m\<lparr>stub_stop := StubNull\<rparr>, fstage := StopThread\<rparr>))
      | StopThread \<Rightarrow>
          if fpc x = At AtTop
          then Some (Inr (x\<lparr>fkmod := m\<lparr>thread_running := False\<rparr>, fstage := Remove, removing := RemoveWait\<rparr>))
          else None
      | Remove \<Rightarrow>
          (case removal_step lk (removing x) (kst m) of
             None \<Rightarrow> None
           | Some y \<Rightarrow> Some (rbind y (\<lambda>(r, k).
               Inr (case r of None \<Rightarrow> (set_fkst k x)\<lparr>fstage := Unmap\<rparr>
                    | Some r \<Rightarrow> (set_fkst k x)\<lparr>removing := r\<rparr>))))
      | Unmap \<Rightarrow> Some (Inr (x\<lparr>fkmod := m\<lparr>proc_entry := False, mapped := False\<rparr>, fstage := Absent,
          fcallers := fgone (fcallers x)\<rparr>)))"

text \<open>\<open>None\<close>: the event is not possible in this state, or the thread waits for the mutex.\<close>

fun flife_next :: "flife_event \<Rightarrow> flife \<Rightarrow> (fault + flife) option" where
  "flife_next FLoad x =
     (if fstage x = Absent
      then Some (Inr (x\<lparr>fkmod := publish (fkmod x), fstage := Published, fpc := At AtTop\<rparr>)) else None)"
| "flife_next (FInit created err) x =
     (if fstage x = Published \<and> (\<forall>e \<in> set_option err. e < 0) then
        let (r, m) = finish_init created (case err of None \<Rightarrow> Task 0 | Some e \<Rightarrow> ErrPtr e) (fkmod x)
        in Some (Inr (if 0 \<le> r then x\<lparr>fkmod := m, fstage := Live\<rparr>
             else x\<lparr>fkmod := m\<lparr>mapped := False\<rparr>, fstage := Absent, fcallers := fgone (fcallers x)\<rparr>))
      else None)"
| "flife_next (FExit lk) x = fexit_step lk x"
| "flife_next (FRun lk) x =
     (if thread_running (fkmod x) then
        (case fine_sched lk (fpc x) (kst (fkmod x)) of
           None \<Rightarrow> None
         | Some y \<Rightarrow> Some (rbind y (\<lambda>(p, k). Inr ((set_fkst k x)\<lparr>fpc := p\<rparr>))))
      else None)"
| "flife_next (FTest me call) x =
     (if 0 < me \<and> fcallers x me = FOutside then
        Some (Inr (if stub_of call (fkmod x) = StubNull then x else fput me (FAtStub (cut_args call)) x))
      else None)"
| "flife_next (FJump me) x =
     (case fcallers x me of
        FAtStub call \<Rightarrow> Some (case stub_of call (fkmod x) of
            StubNull \<Rightarrow> Inl NullDeref
          | StubModule \<Rightarrow>
              if mapped (fkmod x)
              then Inr (let (p, r) = enter_call call (kst (fkmod x)) in fput me (fentered (Call p, r)) x)
              else Inl DanglingCall)
      | _ \<Rightarrow> None)"
| "flife_next (FResume me lk km) x =
     (case fcallers x me of
        FInside q \<Rightarrow>
          if flocks q \<and> \<not> mutex_ready (thread1 (kst (fkmod x))) then Some (Inl Uninitialised)
          else if fresh_fine km q (kst (fkmod x)) then
            (case fine_call me lk km q (kst (fkmod x)) of
               None \<Rightarrow> None
             | Some y \<Rightarrow> Some (rbind y (\<lambda>(q, k). Inr (fput me (fentered q) (set_fkst k x)))))
          else None
      | FStale q \<Rightarrow> Some (Inl DanglingCall)
      | _ \<Rightarrow> None)"

definition flstep :: "flife \<Rightarrow> flife_event \<Rightarrow> flife \<Rightarrow> bool" where
  "flstep x e y \<longleftrightarrow> flife_next e x = Some (Inr y)"

definition fine_before :: flife where
  "fine_before = \<lparr>fkmod = no_module, fstage = Absent, fpc = At AtTop, fcallers = (\<lambda>_. FOutside),
     removing = RemoveWait\<rparr>"

fun run_flife :: "flife_event list \<Rightarrow> flife \<Rightarrow> (fault + flife) option" where
  "run_flife [] x = Some (Inr x)"
| "run_flife (e # es) x = (case flife_next e x of Some (Inr y) \<Rightarrow> run_flife es y | z \<Rightarrow> z)"

lemma run_flife_steps: "run_flife es x = Some (Inr y) \<Longrightarrow> steps flstep x es y"
  by (induction es arbitrary: x) (auto simp: flstep_def split: option.splits sum.splits)

section \<open>What the thread and the calls see\<close>

fun fcall_of :: "fcaller \<Rightarrow> fcall" where
  "fcall_of (FInside q) = q"
| "fcall_of _ = Call Ready"

definition fseen :: "flife \<Rightarrow> kstate" where
  "fseen x = (if fstage x = Published then readied (fkmod x) else kst (fkmod x))"

definition fview :: "flife \<Rightarrow> fsys" where
  "fview x = (fpc x, \<lambda>k. fcall_of (fcallers x k), fseen x)"

definition fcallers_ok :: "flife \<Rightarrow> bool" where
  "fcallers_ok x \<longleftrightarrow> fcallers x 0 = FOutside \<and> (\<forall>k. fcallers x k \<noteq> FInside (Call Ready))
     \<and> (\<not> mapped (fkmod x) \<longrightarrow> (\<forall>k q. fcallers x k \<noteq> FInside q))
     \<and> (fstage x = Published \<longrightarrow> (\<forall>k q. fcallers x k = FInside q \<longrightarrow> (\<exists>p. q = Call p)))"

text \<open>The stage and the module alone, as \<open>ModuleLife\<close> has them.\<close>

definition frame :: "flife \<Rightarrow> life" where
  "frame x = \<lparr>kmod = fkmod x, stage = fstage x, thread_pc = AtTop, callers = \<lambda>_. Outside\<rparr>"

text \<open>Until the removal has got the mutex, the state is one of the interleaved machine.\<close>

definition interleaves :: "flife \<Rightarrow> bool" where
  "interleaves x \<longleftrightarrow> fstage x \<in> {Published, Live, ClearRequest, ClearStop, StopThread}
     \<or> fstage x = Remove \<and> removing x = RemoveWait"

definition flife_ok :: "flife \<Rightarrow> bool" where
  "flife_ok x \<longleftrightarrow> fcallers_ok x \<and> stage_ok (frame x)
     \<and> (interleaves x \<longrightarrow> (\<exists>es. steps fstep fine_booted es (fview x)))
     \<and> (fstage x = Remove \<longrightarrow> fpc x = At AtTop)"

lemma fput_fields [simp]:
  "fkmod (fput me c x) = fkmod x" "fstage (fput me c x) = fstage x" "fpc (fput me c x) = fpc x"
  "fcallers (fput me c x) = (fcallers x)(me := c)" "removing (fput me c x) = removing x"
  by (simp_all add: fput_def)

lemma set_fkst_fields [simp]:
  "fkmod (set_fkst k x) = (fkmod x)\<lparr>kst := k\<rparr>" "fstage (set_fkst k x) = fstage x"
  "fpc (set_fkst k x) = fpc x" "fcallers (set_fkst k x) = fcallers x" "removing (set_fkst k x) = removing x"
  by (simp_all add: set_fkst_def)

lemma frame_fields [simp]: "kmod (frame x) = fkmod x" "stage (frame x) = fstage x"
  by (simp_all add: frame_def)

lemma frame_ready: "stage_ok (frame x) \<Longrightarrow> fstage x \<noteq> Absent \<Longrightarrow>
    mutex_ready (thread1 (kst (fkmod x))) = (fstage x \<noteq> Published)"
  using stage_ready [of "frame x"] by simp

lemma published_raw: "stage_ok (frame x) \<Longrightarrow> fstage x = Published \<Longrightarrow> \<not> mutex_ready (thread1 (kst (fkmod x)))"
  by (simp add: frame_ready)

section \<open>The record of the thread\<close>

lemma lock_step_keeps: "lock_step me lk b r s = Some (Inr (p, s')) \<Longrightarrow> parameters s' = parameters s"
  by (auto simp: lock_step_def split: if_splits)

lemma unlock_step_keeps: "unlock_step me b s = Some (Inr (p, s')) \<Longrightarrow> parameters s' = parameters s"
  by (auto simp: unlock_step_def rbind_eq_Inr)

lemma free_step_keeps: "free_step a b s = Some (Inr (p, s')) \<Longrightarrow> parameters s' = parameters s"
  by (auto simp: free_step_def rbind_eq_Inr intro: parameters_cong)

lemmas step_keeps = lock_step_keeps unlock_step_keeps free_step_keeps

lemma fine_sched_keeps:
  assumes "fine_sched lk p s = Some (Inr (p', s'))"
  shows "parameters s' = parameters s"
proof (cases "(lk, p, s)" rule: fine_sched.cases)
  case (1 lk pc s)
  then show ?thesis
    using assms by (cases pc) (auto simp: rbind_eq_Inr dest: step_keeps sched_segment_keeps
        simp del: sched_segment.simps split: if_splits)
next
  case (2 lk s)
  then show ?thesis
    using assms by (auto simp: rbind_eq_Inr dest!: unload_loop_keeps intro: parameters_cong)
next
  case (8 lk u floor s)
  then show ?thesis
    using assms by (auto simp: rbind_eq_Inr dest!: load_loop_keeps intro: parameters_cong)
qed (use assms in \<open>auto dest: step_keeps intro: parameters_cong split: if_splits\<close>)

lemma fine_call_keeps:
  assumes "fine_call me lk km q s = Some (Inr (q', s'))"
  shows "parameters s' = parameters s"
proof (cases "(me, lk, km, q, s)" rule: fine_call.cases)
  case (1 me lk km p s)
  then show ?thesis
    using assms by (cases p) (auto simp: rbind_eq_Inr dest: step_keeps call_segment_keeps
        simp del: call_segment.simps)
next
  case (2 me lk km start dest type s)
  then show ?thesis
    using assms by (auto simp: rbind_eq_Inr dest!: enqueue_keeps intro: parameters_cong split: if_splits)
next
  case (4 me lk km s)
  then show ?thesis
    using assms by (auto simp: rbind_eq_Inr dest!: unlink_onboard_keeps intro: parameters_cong)
qed (use assms in \<open>auto dest: step_keeps\<close>)

lemma removal_step_keeps:
  assumes "removal_step lk r s = Some (Inr (r', s'))"
  shows "parameters s' = parameters s"
proof (cases "(lk, r, s)" rule: removal_step.cases)
  case (2 lk s)
  then show ?thesis
    using assms by (auto simp: rbind_eq_Inr dest!: unlink_onboard_keeps unlink_floors_keeps intro!: parameters_cong)
qed (use assms in \<open>auto dest: step_keeps\<close>)

section \<open>The invariant\<close>

lemma fine_call_result:
  "fine_call me lk km q s = Some (Inr ((q', r), s')) \<Longrightarrow> q \<noteq> Call Ready \<Longrightarrow> q' = Call Ready \<longleftrightarrow> r \<noteq> None"
  by (cases "(me, lk, km, q, s)" rule: fine_call.cases)
    (auto simp: rbind_eq_Inr lock_step_def unlock_step_def free_step_def dest: call_segment_result
      split: call_pc.splits if_splits)

lemma fcall_of_fentered: "q = Call Ready \<longleftrightarrow> r \<noteq> None \<Longrightarrow> fcall_of (fentered (q, r)) = q"
  by (auto simp: fentered_def split: option.split)

lemma fentered_inside: "q = Call Ready \<longleftrightarrow> r \<noteq> None \<Longrightarrow> fentered (q, r) = FInside q' \<Longrightarrow> q' = q \<and> q \<noteq> Call Ready"
  by (auto simp: fentered_def split: option.splits)

definition fpart_of_call :: "flife_event \<Rightarrow> bool" where
  "fpart_of_call e \<longleftrightarrow> (case e of FLoad \<Rightarrow> False | FInit _ _ \<Rightarrow> False | FExit _ \<Rightarrow> False | _ \<Rightarrow> True)"

text \<open>What an event that belongs neither to the init nor to the exit does.\<close>

lemma flstep_cases:
  assumes "flstep x e y" and "fcallers_ok x" and "fpart_of_call e"
  obtains (run) lk p k where "e = FRun lk" and "thread_running (fkmod x)"
      and "fine_sched lk (fpc x) (kst (fkmod x)) = Some (Inr (p, k))" and "y = (set_fkst k x)\<lparr>fpc := p\<rparr>"
  | (refused) me call where "e = FTest me call" and "y = x"
  | (tested) me call where "e = FTest me call" and "0 < me" and "fcallers x me = FOutside"
      and "stub_of call (fkmod x) = StubModule" and "y = fput me (FAtStub (cut_args call)) x"
  | (jump) me call p r where "e = FJump me" and "fcallers x me = FAtStub call"
      and "stub_of call (fkmod x) = StubModule" and "mapped (fkmod x)"
      and "enter_call call (kst (fkmod x)) = (p, r)" and "y = fput me (fentered (Call p, r)) x"
      and "p = Ready \<longleftrightarrow> r \<noteq> None" and "0 < me"
  | (resume) me lk km q q' r k where "e = FResume me lk km" and "fcallers x me = FInside q"
      and "fresh_fine km q (kst (fkmod x))" and "fine_call me lk km q (kst (fkmod x)) = Some (Inr ((q', r), k))"
      and "y = fput me (fentered (q', r)) (set_fkst k x)" and "q' = Call Ready \<longleftrightarrow> r \<noteq> None" and "q \<noteq> Call Ready"
      and "0 < me" and "mapped (fkmod x)" and "flocks q \<Longrightarrow> mutex_ready (thread1 (kst (fkmod x)))"
proof (cases e)
  case (FRun lk)
  then show thesis
    using assms(1) that(1) by (auto simp: flstep_def rbind_eq_Inr split: if_splits option.splits)
next
  case (FTest me call)
  then show thesis
    using assms(1) that(2,3)
    by (cases "stub_of call (fkmod x)") (auto simp: flstep_def split: if_splits)
next
  case (FJump me)
  then obtain call where c: "fcallers x me = FAtStub call"
    using assms(1) by (auto simp: flstep_def split: fcaller.splits)
  moreover obtain p r where pr: "enter_call call (kst (fkmod x)) = (p, r)" by (cases "enter_call call (kst (fkmod x))")
  moreover have "0 < me" using assms(2) c by (cases me) (auto simp: fcallers_ok_def)
  ultimately show thesis
    using assms(1) that(4) [OF FJump c _ _ pr _ enter_call_result [OF pr]] FJump
    by (auto simp: flstep_def split: stub.splits if_splits)
next
  case (FResume me lk km)
  then obtain q where q: "fcallers x me = FInside q"
    using assms(1) by (auto simp: flstep_def split: fcaller.splits)
  then have n: "q \<noteq> Call Ready" "0 < me" "mapped (fkmod x)"
    using assms(2) by (auto simp: fcallers_ok_def intro: Suc_leI)
  obtain q' r k where "fresh_fine km q (kst (fkmod x))" "fine_call me lk km q (kst (fkmod x)) = Some (Inr ((q', r), k))"
      "y = fput me (fentered (q', r)) (set_fkst k x)" "flocks q \<Longrightarrow> mutex_ready (thread1 (kst (fkmod x)))"
    using assms(1) FResume q by (auto simp: flstep_def rbind_eq_Inr split: if_splits option.splits)
  then show thesis using that(5) [OF FResume q] n fine_call_result by blast
qed (use assms(3) in \<open>simp_all add: fpart_of_call_def\<close>)

lemma fseen_fput [simp]: "fseen (fput me c x) = fseen x"
  by (simp add: fseen_def)

lemma fview_fput: "fview (fput me c x) = (fpc x, (\<lambda>k. fcall_of (fcallers x k))(me := fcall_of c), fseen x)"
  by (auto simp: fview_def fun_eq_iff)

lemma fresh_fine_readied: "fresh_fine km q (readied m) = fresh_fine km q (kst m)"
  by (simp add: fresh_fine_def readied_def thread_init_parameter_def split: option.split)

lemma fine_call_plain:
  "\<not> locks p \<Longrightarrow> fine_call me lk km (Call p) s =
     Some (rbind (call_segment me lk km p s) (\<lambda>((p, r), s). Inr ((Call p, r), s)))"
  by (cases p) simp_all

lemma fine_call_readied:
  assumes "fine_call me lk km (Call p) (kst m) = Some (Inr (q, k))" and "\<not> locks p"
  shows "fine_call me lk km (Call p) (readied m) = Some (Inr (q, readied (m\<lparr>kst := k\<rparr>)))"
proof -
  note f = fine_call_plain [OF assms(2)]
  obtain p' r where c: "call_segment me lk km p (kst m) = Inr ((p', r), k)" and q: "q = (Call p', r)"
    using assms(1) unfolding f by (auto simp: rbind_eq_Inr)
  show ?thesis unfolding f call_segment_readied [OF c assms(2)] q by (simp add: res_simps)
qed

lemma fview_step:
  assumes "flstep x e y" and "fcallers_ok x" and "stage_ok (frame x)" and "fpart_of_call e"
  shows "fview y = fview x \<or> (\<exists>fe. fstep (fview x) fe (fview y))"
  using assms(1,2,4)
proof (cases rule: flstep_cases)
  case (run lk p k)
  then have "fstage x \<noteq> Published" using stage_running [OF assms(3)] by auto
  then have "fstep (fview x) (FSched lk) (fview y)"
    using run unfolding fview_def by (auto simp: fseen_def intro: fstep_sched)
  then show ?thesis by blast
next
  case (tested me call)
  then have "fview y = fview x" by (auto simp: fview_fput fview_def fun_eq_iff)
  then show ?thesis by blast
next
  case (jump me call p r)
  have q: "fcall_of (fentered (Call p, r)) = Call p" by (rule fcall_of_fentered) (use jump(7) in simp)
  have "fstep (fview x) (FEnter me call r) (fview y)"
    unfolding jump(6) fview_fput q unfolding fview_def
    by (rule fstep_enter) (use jump in \<open>simp_all add: fseen_def enter_call_readied\<close>)
  then show ?thesis by blast
next
  case (resume me lk km q q' r k)
  let ?c = "(\<lambda>k. fcall_of (fcallers x k))(me := q')"
  have "fview y = (fpc x, ?c, fseen (set_fkst k x))"
    unfolding resume(5) fview_fput fcall_of_fentered [OF resume(6)] by simp
  moreover have "fine_call me lk km q (fseen x) = Some (Inr ((q', r), fseen (set_fkst k x)))"
  proof (cases "fstage x = Published")
    case True
    then obtain p where "q = Call p" using assms(2) resume(2) unfolding fcallers_ok_def by blast
    moreover from this have "\<not> locks p" using resume(10) True published_raw [OF assms(3)] by auto
    ultimately show ?thesis using resume(4) fine_call_readied True by (simp add: fseen_def)
  qed (use resume(4) in \<open>simp add: fseen_def\<close>)
  then have "fstep (fview x) (FCall me lk km r) (fpc x, ?c, fseen (set_fkst k x))"
    unfolding fview_def
    by (intro fstep_call) (use resume in \<open>simp_all add: fseen_def fresh_fine_readied\<close>)
  ultimately show ?thesis by metis
qed (use assms in \<open>simp_all add: fpart_of_call_def\<close>)

lemma flstep_stage:
  assumes "flstep x e y" and "fcallers_ok x" and "fpart_of_call e"
  shows "fstage y = fstage x \<and> removing y = removing x
    \<and> (\<exists>k. fkmod y = (fkmod x)\<lparr>kst := k\<rparr> \<and> parameters k = parameters (kst (fkmod x)))"
proof -
  have same: "\<exists>k. fkmod x = (fkmod x)\<lparr>kst := k\<rparr> \<and> parameters k = parameters (kst (fkmod x))"
    by (rule exI [of _ "kst (fkmod x)"]) simp
  from assms show ?thesis
  proof (cases rule: flstep_cases)
    case (run lk p k)
    then show ?thesis using fine_sched_keeps by auto
  next
    case (resume me lk km q q' r k)
    then show ?thesis using fine_call_keeps by auto
  qed (use same in simp_all)
qed

lemma fgone_ok: "fcallers_ok x \<Longrightarrow> fcallers y = fgone (fcallers x) \<Longrightarrow> fcallers_ok y"
  by (auto simp: fcallers_ok_def fgone_def split: fcaller.splits)

lemma fload_step:
  assumes "flstep x FLoad y" and "fcallers_ok x" and "stage_ok (frame x)"
  shows "fstage y = Published \<and> fview y = fine_booted \<and> fcallers_ok y \<and> stage_ok (frame y)"
proof -
  have y: "fstage x = Absent" "y = x\<lparr>fkmod := publish (fkmod x), fstage := Published, fpc := At AtTop\<rparr>"
    using assms(1) by (auto simp: flstep_def split: if_splits)
  have out: "fcallers x k \<noteq> FInside q" for k q
    using assms(2,3) y(1) by (auto simp: fcallers_ok_def stage_ok_def)
  then have "fcall_of (fcallers x k) = Call Ready" for k by (cases "fcallers x k") simp_all
  then have "fview y = fine_booted"
    unfolding y(2) by (simp add: fview_def fseen_def readied_def fine_booted_def boot_state_def publish_def)
  then show ?thesis
    using assms(2,3) out y by (auto simp: fcallers_ok_def stage_ok_def publish_def stubs_set_def setup_explicit)
qed

lemma finit_step:
  assumes "flstep x (FInit created err) y" and "fcallers_ok x" and "stage_ok (frame x)"
  shows "fstage x = Published \<and> fcallers_ok y \<and> stage_ok (frame y)
    \<and> (fstage y = Live \<and> fview y = fview x \<or> fstage y = Absent)"
proof -
  let ?t = "case err of None \<Rightarrow> Task 0 | Some e \<Rightarrow> ErrPtr e"
  obtain r m where m: "finish_init created ?t (fkmod x) = (r, m)" by fastforce
  have y: "fstage x = Published" "\<forall>e \<in> set_option err. e < 0"
      "y = (if 0 \<le> r then x\<lparr>fkmod := m, fstage := Live\<rparr>
        else x\<lparr>fkmod := m\<lparr>mapped := False\<rparr>, fstage := Absent, fcallers := fgone (fcallers x)\<rparr>)"
    using assms(1) by (auto simp: flstep_def m split: if_splits)
  show ?thesis
  proof (cases "0 \<le> r")
    case True
    then have mm: "\<exists>i. m = (fkmod x)\<lparr>proc_entry := True, next_id := i, kst := readied (fkmod x), thread_running := True\<rparr>"
      using m y(2) by (cases created; cases err)
        (auto simp: finish_init_def readied_def thread_init_parameter_def Let_def)
    have y': "y = x\<lparr>fkmod := m, fstage := Live\<rparr>" using y(3) True by simp
    have "fview y = fview x" using mm y(1) unfolding y' by (auto simp: fview_def fseen_def)
    moreover have "fcallers_ok y" using mm assms(2) y(1) unfolding y' by (auto simp: fcallers_ok_def)
    moreover have "stage_ok (frame y)" using mm assms(3) y(1) unfolding y'
      by (auto simp: stage_ok_def stubs_set_def readied_def thread_init_parameter_def)
    ultimately show ?thesis using y(1) unfolding y' by simp
  next
    case False
    then have y': "y = x\<lparr>fkmod := m\<lparr>mapped := False\<rparr>, fstage := Absent, fcallers := fgone (fcallers x)\<rparr>"
      using y(3) by simp
    have "thread_running m = thread_running (fkmod x)"
      using m y(2) False by (cases created; cases err)
        (auto simp: finish_init_def thread_init_parameter_def Let_def)
    then have "stage_ok (frame y)" using assms(3) y(1) unfolding y' by (simp add: stage_ok_def)
    moreover have "fcallers_ok y" by (rule fgone_ok [OF assms(2)]) (simp add: y')
    ultimately show ?thesis using y(1) unfolding y' by simp
  qed
qed

lemma fexit_remove:
  assumes "fexit_step lk x = Some (Inr y)" and "fstage x = Remove"
  obtains r k where "removal_step lk (removing x) (kst (fkmod x)) = Some (Inr (r, k))"
    and "y = (case r of None \<Rightarrow> (set_fkst k x)\<lparr>fstage := Unmap\<rparr> | Some r \<Rightarrow> (set_fkst k x)\<lparr>removing := r\<rparr>)"
  using assms by (auto simp: fexit_step_def Let_def rbind_eq_Inr split: option.splits)

lemma fexit_step_ok:
  assumes "fexit_step lk x = Some (Inr y)" and "fcallers_ok x" and "stage_ok (frame x)"
  shows "fcallers_ok y \<and> stage_ok (frame y)"
proof (cases "fstage x = Unmap")
  case True
  then have y: "y = x\<lparr>fkmod := (fkmod x)\<lparr>proc_entry := False, mapped := False\<rparr>, fstage := Absent,
      fcallers := fgone (fcallers x)\<rparr>" using assms(1) by (simp add: fexit_step_def)
  have "fcallers_ok y" by (rule fgone_ok [OF assms(2)]) (simp add: y)
  moreover have "stage_ok (frame y)" using assms(3) True unfolding y by (simp add: stage_ok_def)
  ultimately show ?thesis by blast
next
  case False
  have "fcallers y = fcallers x \<and> mapped (fkmod y) = mapped (fkmod x) \<and> fstage y \<noteq> Published \<and> stage_ok (frame y)"
  proof (cases "fstage x = Remove")
    case True
    obtain r k where k: "removal_step lk (removing x) (kst (fkmod x)) = Some (Inr (r, k))"
      and y: "y = (case r of None \<Rightarrow> (set_fkst k x)\<lparr>fstage := Unmap\<rparr> | Some r \<Rightarrow> (set_fkst k x)\<lparr>removing := r\<rparr>)"
      by (rule fexit_remove [OF assms(1) True])
    have "mutex_ready (thread1 k)"
      using parameters_ready [OF removal_step_keeps [OF k]] frame_ready [OF assms(3)] True by simp
    then show ?thesis using True assms(3) y by (cases r) (simp_all add: stage_ok_def stubs_cleared_def)
  next
    case r: False
    show ?thesis
      using assms(1,3) False r
      by (cases "fstage x")
        (auto simp: fexit_step_def Let_def stage_ok_def stubs_cleared_def split: if_splits)
  qed
  then show ?thesis using assms(2) by (simp add: fcallers_ok_def)
qed

text \<open>Until the removal has got the mutex, the exit changes nothing that the others see.\<close>

lemma fexit_view:
  assumes "fexit_step lk x = Some (Inr y)" and "fstage y \<notin> {Absent, Unmap}"
  shows "fstage x \<noteq> Published \<and> (fstage y = Remove \<longrightarrow> fpc x = At AtTop \<or> fstage x = Remove)
    \<and> fpc y = fpc x \<and> (interleaves y \<longrightarrow> interleaves x \<and> fview y = fview x)"
proof (cases "fstage x = Remove")
  case True
  obtain r k where r: "removal_step lk (removing x) (kst (fkmod x)) = Some (Inr (r, k))"
      "y = (case r of None \<Rightarrow> (set_fkst k x)\<lparr>fstage := Unmap\<rparr> | Some r \<Rightarrow> (set_fkst k x)\<lparr>removing := r\<rparr>)"
    by (rule fexit_remove [OF assms(1) True])
  then obtain r' where r': "r = Some r'" using assms(2) by (cases r) auto
  have "r' \<noteq> RemoveWait"
    using r(1) unfolding r'
    by (cases "(lk, removing x, kst (fkmod x))" rule: removal_step.cases)
      (auto simp: lock_step_def unlock_step_def free_step_def rbind_eq_Inr split: if_splits)
  then show ?thesis using True unfolding r(2) r' by (simp add: interleaves_def)
next
  case False
  then show ?thesis
    using assms
    by (cases "fstage x") (auto simp: fexit_step_def Let_def interleaves_def fview_def fseen_def split: if_splits)
qed

lemma fcallers_ok_call:
  assumes "flstep x e y" and "fcallers_ok x" and "fpart_of_call e" and "stage_ok (frame x)"
  shows "fcallers_ok y"
  using assms(1-3)
proof (cases rule: flstep_cases)
  case (jump me call p r)
  then have "fentered (Call p, r) \<noteq> FInside (Call Ready)" "fentered (Call p, r) = FInside q \<Longrightarrow> \<exists>p. q = Call p" for q
    by (auto simp: fentered_def split: option.splits)
  then show ?thesis using jump assms(2) by (auto simp: fcallers_ok_def)
next
  case (resume me lk km q q' r k)
  have "fentered (q', r) = FInside q'' \<Longrightarrow> \<exists>p. q'' = Call p" if pub: "fstage x = Published" for q''
  proof -
    assume e: "fentered (q', r) = FInside q''"
    obtain p where p: "q = Call p" using assms(2) resume(2) pub unfolding fcallers_ok_def by blast
    have "\<not> locks p" using resume(10) published_raw [OF assms(4) pub] p by auto
    from resume(4) [unfolded p fine_call_plain [OF this]] have "\<exists>p. q' = Call p" by (auto simp: rbind_eq_Inr)
    then show ?thesis using fentered_inside [OF resume(6) e] by blast
  qed
  moreover have "fentered (q', r) \<noteq> FInside (Call Ready)" using resume(6) fentered_inside by blast
  ultimately show ?thesis using resume assms(2) by (auto simp: fcallers_ok_def)
qed (use assms(2) in \<open>auto simp: fcallers_ok_def\<close>)

lemma flife_ok_step:
  assumes "flstep x e y" and "flife_ok x"
  shows "flife_ok y"
proof -
  have c: "fcallers_ok x" "stage_ok (frame x)" using assms(2) by (auto simp: flife_ok_def)
  have old: "interleaves x \<Longrightarrow> \<exists>es. steps fstep fine_booted es (fview x)" "fstage x = Remove \<Longrightarrow> fpc x = At AtTop"
    using assms(2) by (auto simp: flife_ok_def)
  consider "e = FLoad" | created err where "e = FInit created err" | lk where "e = FExit lk" | "fpart_of_call e"
    by (cases e) (auto simp: fpart_of_call_def)
  then show ?thesis
  proof cases
    case 1
    then show ?thesis using fload_step [of x y] assms(1) c by (auto simp: flife_ok_def)
  next
    case (2 created err)
    then have y: "fstage x = Published" "fcallers_ok y" "stage_ok (frame y)"
        "fstage y = Live \<and> fview y = fview x \<or> fstage y = Absent"
      using finit_step [of x created err y] assms(1) c by auto
    then show ?thesis using old(1) unfolding flife_ok_def interleaves_def by auto
  next
    case (3 lk)
    then have ex: "fexit_step lk x = Some (Inr y)" using assms(1) by (simp add: flstep_def)
    have "(interleaves y \<longrightarrow> (\<exists>es. steps fstep fine_booted es (fview y))) \<and> (fstage y = Remove \<longrightarrow> fpc y = At AtTop)"
    proof (cases "fstage y \<in> {Absent, Unmap}")
      case True
      then show ?thesis by (auto simp: interleaves_def)
    next
      case False
      then show ?thesis using fexit_view [OF ex] old by auto
    qed
    then show ?thesis using fexit_step_ok [OF ex c] by (simp add: flife_ok_def)
  next
    case 4
    note st = flstep_stage [OF assms(1) c(1) 4]
    obtain k where k: "fkmod y = (fkmod x)\<lparr>kst := k\<rparr>" "parameters k = parameters (kst (fkmod x))"
      using st by blast
    then have "stage_ok (frame y)"
      using st c(2) parameters_ready [OF k(2)] by (simp add: stage_ok_def stubs_cleared_def stubs_set_def)
    moreover have "\<exists>es. steps fstep fine_booted es (fview y)" if "interleaves y"
    proof -
      have "interleaves x" using that st by (simp add: interleaves_def)
      then obtain es where es: "steps fstep fine_booted es (fview x)" using old(1) by blast
      from fview_step [OF assms(1) c 4] show ?thesis
      proof
        assume "\<exists>fe. fstep (fview x) fe (fview y)"
        then obtain fe where "steps fstep (fview x) [fe] (fview y)" by blast
        then show ?thesis using steps_append [OF es] by blast
      qed (use es in auto)
    qed
    moreover have "fpc y = At AtTop" if "fstage y = Remove"
    proof -
      have "fstage x = Remove" using that st by simp
      then have t: "\<not> thread_running (fkmod x)" "fpc x = At AtTop" using stage_running [OF c(2)] old(2) by auto
      from assms(1) c(1) 4 show ?thesis by (cases rule: flstep_cases) (use t in auto)
    qed
    ultimately show ?thesis using fcallers_ok_call [OF assms(1) c(1) 4 c(2)] by (simp add: flife_ok_def)
  qed
qed

interpretation fine_life: machine flstep flife_ok
  by unfold_locales (rule flife_ok_step)

lemma flife_ok_before: "flife_ok fine_before"
  by (simp add: flife_ok_def fcallers_ok_def stage_ok_def fine_before_def no_module_def interleaves_def)

lemma reachable_flife: "steps flstep fine_before es x \<Longrightarrow> flife_ok x"
  using fine_life.run_inv flife_ok_before by blast

section \<open>The opened removal and the whole\<close>

fun run_removal :: "nat \<Rightarrow> int \<Rightarrow> removal \<Rightarrow> kstate \<Rightarrow> (fault + (removal option \<times> kstate)) option" where
  "run_removal 0 lk r s = Some (Inr (Some r, s))"
| "run_removal (Suc n) lk r s =
     (case removal_step lk r s of
        Some (Inr (Some r, s)) \<Rightarrow> run_removal n lk r s
      | y \<Rightarrow> y)"

lemma removal_frees:
  "distinct dl \<Longrightarrow> set dl \<subseteq> dom (heap s) \<Longrightarrow>
    run_removal (Suc (length dl)) lk (RemoveFree dl) s = Some (Inr (None, s\<lparr>heap := heap s |` (- set dl)\<rparr>))"
proof (induction dl arbitrary: s)
  case Nil
  have "s\<lparr>heap := heap s |` (- {})\<rparr> = s" by (rule kstate.equality) (simp_all add: restrict_map_def fun_eq_iff)
  then show ?case by simp
next
  case (Cons a dl)
  let ?t = "s\<lparr>heap := (heap s)(a := None)\<rparr>"
  have t: "?t\<lparr>heap := heap ?t |` (- set dl)\<rparr> = s\<lparr>heap := heap s |` (- set (a # dl))\<rparr>"
    by (rule kstate.equality) (auto simp: restrict_map_def fun_eq_iff)
  have "removal_step lk (RemoveFree (a # dl)) s = Some (Inr (Some (RemoveFree dl), ?t))"
    using Cons.prems(2) by (auto simp: free_step_def kfree_def res_simps)
  moreover have "run_removal (Suc (length dl)) lk (RemoveFree dl) ?t =
      Some (Inr (None, ?t\<lparr>heap := heap ?t |` (- set dl)\<rparr>))"
    by (rule Cons.IH) (use Cons.prems in auto)
  ultimately show ?case unfolding t length_Cons run_removal.simps(2) [of "Suc (length dl)"] by simp
qed

text \<open>Everybody linked is gone; what only a \<open>delete_list\<close> of some thread still names is left.\<close>

definition cleared_state :: "kstate \<Rightarrow> kstate" where
  "cleared_state s = s\<lparr>elevator := (elevator s)\<lparr>onboard := []\<rparr>,
     waiting_list := replicate (nat FLOORS) [], heap := heap s |` (- set (linked s))\<rparr>"

lemma removal_undisturbed:
  assumes "mutex (thread1 s) = None" and "length (waiting_list s) = 10" and "distinct (linked s)"
    and "set (linked s) \<subseteq> dom (heap s)"
  shows "run_removal (length (linked s) + 4) 0 RemoveWait s = Some (Inr (None, cleared_state s))"
proof -
  let ?m = "set_mutex (Some 0) s" and ?on = "onboard (elevator s)"
  let ?u = "?m\<lparr>elevator := (elevator s)\<lparr>onboard := []\<rparr>\<rparr>"
  let ?e = "?u\<lparr>waiting_list := replicate 10 []\<rparr>" and ?d = "set_mutex None (?u\<lparr>waiting_list := replicate 10 []\<rparr>)"
  have body: "rbind (unlink_onboard (?m, [])) (for_upto (nat FLOORS) unlink_floor) = Inr (?e, linked s)"
    using unlink_floors [of 10 ?u ?on] assms(2) by (simp add: unlink_onboard_eq res_simps linked_def)
  have "run_removal (Suc (Suc (Suc (Suc (length (linked s)))))) 0 RemoveWait s =
      run_removal (Suc (length (linked s))) 0 (RemoveFree (linked s)) ?d"
    using assms(1) body
    by (simp add: lock_step_def mutex_lock_interruptible_def unlock_step_def mutex_unlock_def res_simps
        del: run_removal.simps(2) add: run_removal.simps(2) [of "Suc (Suc (Suc (length (linked s))))"]
          run_removal.simps(2) [of "Suc (Suc (length (linked s)))"] run_removal.simps(2) [of "Suc (length (linked s))"])
  also have "\<dots> = Some (Inr (None, ?d\<lparr>heap := heap ?d |` (- set (linked s))\<rparr>))"
    by (rule removal_frees) (use assms(3,4) in simp_all)
  also have "?d\<lparr>heap := heap ?d |` (- set (linked s))\<rparr> = cleared_state s"
    by (rule kstate.equality) (simp_all add: cleared_state_def set_mutex_def thread_mutex_None [OF assms(1)])
  finally show ?thesis by (simp add: numeral_eq_Suc)
qed

text \<open>Undisturbed, the opened removal is \<open>removeAllPassengers\<close>.\<close>

lemma removal_is_whole:
  assumes "well_formed s"
  shows "run_removal (length (linked s) + 4) 0 RemoveWait s =
    Some (rbind (removeAllPassengers me 0 s) (\<lambda>k. Inr (None, k)))"
proof -
  have lk: "distinct (linked s)" "set (linked s) = dom (heap s)"
    using wfD(1) [OF assms] by (auto simp: links_ok_def)
  have "heap s |` (- dom (heap s)) = Map.empty" by (rule ext) (auto simp: restrict_map_def)
  then have "cleared_state s = emptied_state s" by (simp add: cleared_state_def emptied_state_def lk(2))
  then show ?thesis
    using removal_undisturbed [OF wfD(9) [OF assms] wf_position(4) [OF assms]] lk
    by (simp add: removeAllPassengers_eq [OF assms] res_simps)
qed

section \<open>Properties\<close>

text \<open>
  C16. The loaded module over opened sections: whatever loads, failed loads, unloads and calls came
  before, from a successful load until \<open>removeAllPassengers\<close> has got the mutex, the thread, the calls
  inside the module and the globals are in a state that the machine of single locks, statements, unlocks and
  frees reaches; neither the thread nor a call inside the module faults there, except for the
  unlock after an interrupted lock and a request without memory.
\<close>

theorem loaded_module_in_single_steps:
  assumes "steps flstep fine_before es x" and "fstage x \<notin> {Absent, Published, Unmap}"
    and "fstage x = Remove \<Longrightarrow> removing x = RemoveWait"
  shows "(\<exists>fs. steps fstep fine_booted fs (fpc x, \<lambda>k. fcall_of (fcallers x k), kst (fkmod x)))
    \<and> (flife_next (FRun lk) x = Some (Inl f) \<longrightarrow> f = UnlockNotOwner \<and> sched_interrupted (fpc x))
    \<and> (fcallers x me = FInside q \<longrightarrow> flife_next (FResume me lk km) x = Some (Inl f) \<longrightarrow>
        f = UnlockNotOwner \<and> call_interrupted q
        \<or> f = NullDeref \<and> km = None \<and> (\<exists>start dest type. q = RequestBody start dest type))"
proof -
  have ok: "flife_ok x" by (rule reachable_flife [OF assms(1)])
  have i: "interleaves x" using assms(2,3) by (cases "fstage x") (auto simp: interleaves_def)
  have v: "fview x = (fpc x, \<lambda>k. fcall_of (fcallers x k), kst (fkmod x))"
    using assms(2) by (simp add: fview_def fseen_def)
  obtain fs where fs: "steps fstep fine_booted fs (fpc x, \<lambda>k. fcall_of (fcallers x k), kst (fkmod x))"
    using ok i unfolding flife_ok_def v by blast
  have fine: "fine_ok (fpc x, \<lambda>k. fcall_of (fcallers x k), kst (fkmod x))" by (rule reachable_fine [OF fs])
  have "f = UnlockNotOwner \<and> sched_interrupted (fpc x)" if "flife_next (FRun lk) x = Some (Inl f)"
    using that sched_faults [OF fine, of lk f] by (auto simp: rbind_eq_Inl split: if_splits option.splits)
  moreover have "f = UnlockNotOwner \<and> call_interrupted q
        \<or> f = NullDeref \<and> km = None \<and> (\<exists>start dest type. q = RequestBody start dest type)"
    if q: "fcallers x me = FInside q" "flife_next (FResume me lk km) x = Some (Inl f)"
  proof -
    have "fcallers x 0 = FOutside" using ok by (simp add: flife_ok_def fcallers_ok_def)
    then have "0 < me" using q(1) by (cases me) auto
    moreover have "stage_ok (frame x)" using ok by (simp add: flife_ok_def)
    then have "mutex_ready (thread1 (kst (fkmod x)))" using assms(2) by (simp add: frame_ready)
    then have "fine_call me lk km q (kst (fkmod x)) = Some (Inl f)"
      using q by (auto simp: rbind_eq_Inl split: if_splits option.splits)
    ultimately show ?thesis using call_faults [OF fine, of me lk km f] q(1) by simp
  qed
  ultimately show ?thesis using fs by blast
qed

text \<open>
  A loaded module: thread 2 has started it and asked, the passenger has boarded, and a stop by
  thread 2 has taken the passenger off and unlocked, but not freed the entry yet.
\<close>

definition demo_loaded :: flife where
  "demo_loaded = \<lparr>fkmod = kmod demo_live, fstage = Live, fpc = At AtTop, fcallers = (\<lambda>_. FOutside), removing = RemoveWait\<rparr>"

lemma demo_fine_load: "run_flife [FLoad, FInit True None] fine_before = Some (Inr demo_loaded)"
  by (simp add: fine_before_def demo_loaded_def split_def demo_live_def)
    (simp add: publish_def finish_init_def thread_init_parameter_def Let_def boot_state_def no_module_def
      inc32_def wrap32_def)

definition demo_asked :: flife where
  "demo_asked = demo_loaded\<lparr>fkmod := (kmod demo_live)\<lparr>kst := demo_waiting\<rparr>\<rparr>"

definition demo_ask :: "flife_event list" where
  "demo_ask = [FTest 2 StartCall, FJump 2, FResume 2 0 None, FResume 2 0 None,
     FTest 2 (RequestCall 1 5 1), FJump 2, FResume 2 0 None, FResume 2 0 (Some 7), FResume 2 0 None]"

lemmas demo_fine = demo_loaded_def demo_live_def fput_def set_fkst_def fentered_def
  fresh_fine_def lock_step_def unlock_step_def mutex_lock_interruptible_def mutex_unlock_def
  res_simps set_mutex_def Let_def inc32_def dec32_def wrap32_def

lemma demo_asks: "run_flife demo_ask demo_loaded = Some (Inr demo_asked)"
  by (simp add: demo_ask_def demo_asked_def demo_fine demo_waiting_eq enqueue_passenger_def boot_explicit
      store_obj_def list_add_tail_def fun_eq_iff)

definition demo_boarded :: kstate where
  "demo_boarded = demo_waiting\<lparr>elevator := (elevator demo_waiting)\<lparr>loads := 1, status := 1, onboard := [7]\<rparr>,
     waiting_list := replicate 10 [], num_waiting := 0, waiting_on_floor := replicate 10 0\<rparr>"

definition demo_at_rest :: flife where
  "demo_at_rest = demo_asked\<lparr>fkmod := (kmod demo_live)\<lparr>kst := demo_boarded\<rparr>, fpc := At (AtRest 0 1)\<rparr>"

lemma demo_boards: "run_flife (replicate 10 (FRun 0)) demo_asked = Some (Inr demo_at_rest)"
  by (simp add: numeral_eq_Suc demo_asked_def demo_at_rest_def demo_boarded_def demo_fine demo_waiting_eq
      has_work_def list_empty_def load_visit_def take_aboard_def deref_def list_del_def list_add_tail_def)

definition demo_freeing :: flife where
  "demo_freeing = demo_at_rest\<lparr>fkmod := (kmod demo_live)\<lparr>kst := demo_boarded\<lparr>elevator := (elevator demo_boarded)
     \<lparr>onboard := [], started := 0, deactiving := 1\<rparr>\<rparr>\<rparr>, fcallers := (\<lambda>_. FOutside)(2 := FInside (StopFree [7]))\<rparr>"

definition demo_stop :: "flife_event list" where
  "demo_stop = FTest 2 StopCall # FJump 2 # replicate 6 (FResume 2 0 None)"

lemma demo_stops: "run_flife demo_stop demo_at_rest = Some (Inr demo_freeing)"
  by (simp add: demo_stop_def numeral_eq_Suc demo_freeing_def demo_at_rest_def demo_asked_def demo_boarded_def demo_fine
      demo_waiting_eq unlink_onboard_eq)

lemma run_flife_append:
  "run_flife (es @ fs) x = (case run_flife es x of Some (Inr y) \<Rightarrow> run_flife fs y | z \<Rightarrow> z)"
  by (induction es arbitrary: x) (auto split: option.splits sum.splits)

lemma demo_freeing_run:
  "steps flstep fine_before ([FLoad, FInit True None] @ demo_ask @ replicate 10 (FRun 0) @ demo_stop) demo_freeing"
  by (rule run_flife_steps)
    (simp only: run_flife_append demo_fine_load demo_asks demo_boards demo_stops option.case sum.case)

theorem loaded_module_in_single_steps_witness:
  "(\<exists>fs. steps fstep fine_booted fs (At (AtRest 0 1), \<lambda>k. fcall_of (fcallers demo_freeing k), kst (fkmod demo_freeing)))
    \<and> flife_next (FRun 0) demo_freeing \<noteq> Some (Inl UseAfterFree)"
proof -
  have "fstage demo_freeing = Live" "fpc demo_freeing = At (AtRest 0 1)"
    by (simp_all add: demo_freeing_def demo_at_rest_def demo_asked_def demo_loaded_def)
  then show ?thesis using loaded_module_in_single_steps [OF demo_freeing_run, of 0 UseAfterFree] by force
qed

end
