(* ===== verification/LifeEnd.thy ===== *)
theory LifeEnd
  imports LifeSteps
begin

text \<open>
  The end of an unload over opened sections: what \<open>elevator_exit\<close> waits for comes about by steps
  of the threads it waits for alone, and what is left allocated is what threads in the module had
  on their \<open>delete_list\<close>s.
\<close>

section \<open>The steps the exit waits for\<close>

text \<open>\<open>rank\<close> of \<open>Interleaving\<close>, with the positions within the sections in between.\<close>

fun frank :: "fsched \<Rightarrow> nat" where
  "frank (At pc) = 10 * rank pc"
| "frank UnloadBody = 59"
| "frank (UnloadUnlock r dl u) = 58"
| "frank (UnloadFree dl u) = 57"
| "frank (UnloadEnd u) = 56"
| "frank (LoadWait u floor) = 49"
| "frank (LoadBody u floor) = 48"
| "frank (LoadUnlock r u l) = 47"

definition nearer :: "(fsched \<times> fsched) set" where
  "nearer = measures [frank, \<lambda>p. length (sched_list p)]"

lemma wf_nearer: "wf nearer"
  by (simp add: nearer_def)

lemma fine_sched_nearer:
  assumes "fine_sched 0 p s = Some (Inr (p', s'))" and "p \<noteq> At AtTop" and "\<not> sched_interrupted p"
  shows "(p', p) \<in> nearer \<and> \<not> sched_interrupted p'"
  using assms
proof (cases "(0 :: int, p, s)" rule: fine_sched.cases)
  case (1 lk pc s)
  then show ?thesis
    using assms by (cases pc) (auto simp: nearer_def lock_step_def rbind_eq_Inr split: if_splits)
qed (use assms in \<open>auto simp: nearer_def lock_step_def unlock_step_def free_step_def rbind_eq_Inr split: if_splits\<close>)

lemma sched_advances:
  assumes ok: "fine_ok (p, c, s)" and p: "\<not> sched_interrupted p" and free: "\<forall>t. \<not> call_holds (c t)"
  obtains p' s' where "fine_sched 0 p s = Some (Inr (p', s'))"
proof -
  have no: "mutex (thread1 s) = None" if "\<not> sched_holds p"
  proof -
    have "\<not> inside (p, c, s) t" for t using that free by (simp add: inside_def)
    then show ?thesis using fine_okD(2) [OF ok] by (metis not_None_eq)
  qed
  have "fine_sched 0 p s \<noteq> None"
    using no by (cases "(0 :: int, p, s)" rule: fine_sched.cases)
      (auto simp: lock_step_def unlock_step_def free_step_def split: sched_pc.splits)
  moreover have "fine_sched 0 p s \<noteq> Some (Inl f)" for f using sched_faults [OF ok] p by blast
  ultimately show thesis using that by (metis not_Some_eq old.prod.exhaust sum.exhaust_sel)
qed

text \<open>A caller who holds the mutex releases it within two steps.\<close>

lemma holder_advances:
  assumes ok: "fine_ok (p, c, s)" and me: "0 < me" "call_holds (c me)" "\<not> call_interrupted (c me)"
    and free: "(\<exists>start dest type. c me = RequestBody start dest type) \<Longrightarrow> heap s a = None"
  obtains km q r s' where "fresh_fine km (c me) s" and "fine_call me 0 km (c me) s = Some (Inr ((q, r), s'))"
    and "\<not> call_interrupted q" and "call_holds q \<longrightarrow> \<not> (\<exists>start dest type. q = RequestBody start dest type) \<and> q \<noteq> StopBody"
    and "call_holds q \<longrightarrow> (\<exists>start dest type. c me = RequestBody start dest type) \<or> c me = StopBody"
proof -
  define km where "km = (if (\<exists>start dest type. c me = RequestBody start dest type) \<and> deactiving (elevator s) = 0
    then Some a else None)"
  have fr: "fresh_fine km (c me) s" using free by (auto simp: km_def fresh_fine_def)
  have "fine_call me 0 km (c me) s \<noteq> Some (Inl f)" for f
  proof
    assume f: "fine_call me 0 km (c me) s = Some (Inl f)"
    obtain start dest type where q: "c me = RequestBody start dest type" "km = None"
      using call_faults [OF ok me(1) f] me(3) by blast
    then show False using f by (simp add: km_def res_simps split: if_splits)
  qed
  moreover have "fine_call me 0 km (c me) s \<noteq> None"
    using me(2) by (cases "c me") (auto simp: unlock_step_def)
  ultimately obtain q r s' where st: "fine_call me 0 km (c me) s = Some (Inr ((q, r), s'))"
    by (metis not_Some_eq old.prod.exhaust sum.exhaust_sel)
  have "\<not> call_interrupted q"
    and "call_holds q \<longrightarrow> \<not> (\<exists>start dest type. q = RequestBody start dest type) \<and> q \<noteq> StopBody"
    and "call_holds q \<longrightarrow> (\<exists>start dest type. c me = RequestBody start dest type) \<or> c me = StopBody"
    using st me(2) by (cases "c me"; auto simp: unlock_step_def rbind_eq_Inr split: if_splits)+
  then show thesis using that fr st by blast
qed

section \<open>In the life of the module\<close>

text \<open>Events of an unload that nobody else disturbs and no signal interrupts.\<close>

fun for_the_exit :: "flife_event \<Rightarrow> bool" where
  "for_the_exit (FExit lk) \<longleftrightarrow> lk = 0"
| "for_the_exit (FRun lk) \<longleftrightarrow> lk = 0"
| "for_the_exit (FResume me lk km) \<longleftrightarrow> lk = 0"
| "for_the_exit e \<longleftrightarrow> False"

definition mutex_with_calls :: "flife \<Rightarrow> bool" where
  "mutex_with_calls x \<longleftrightarrow> (\<exists>k. call_holds (fcall_of (fcallers x k)))"

definition while_loaded :: "stage set" where
  "while_loaded = {Live, ClearRequest, ClearStop, StopThread}"

lemma flife_fine:
  assumes "flife_ok x" and "fstage x \<in> while_loaded \<or> fstage x = Remove \<and> removing x = RemoveWait"
  shows "fine_ok (fpc x, \<lambda>k. fcall_of (fcallers x k), kst (fkmod x))"
proof -
  have "interleaves x" "fstage x \<noteq> Published" using assms(2) by (auto simp: interleaves_def while_loaded_def)
  then show ?thesis using assms(1) reachable_fine by (auto simp: flife_ok_def fview_def fseen_def)
qed

lemma resume_step:
  assumes "fcallers x h = FInside q" and "mutex_ready (thread1 (kst (fkmod x)))" and "fresh_fine km q (kst (fkmod x))"
    and "fine_call h 0 km q (kst (fkmod x)) = Some (Inr ((q', r), k))"
  shows "flstep x (FResume h 0 km) (fput h (fentered (q', r)) (set_fkst k x))"
  using assms by (simp add: flstep_def res_simps)

lemma holder_step:
  assumes ok: "flife_ok x" and st: "fstage x \<in> while_loaded" and h: "fcallers x h = FInside q" "call_holds q"
    and i: "\<not> call_interrupted q" and f: "(\<exists>start dest type. q = RequestBody start dest type) \<Longrightarrow> heap (kst (fkmod x)) a = None"
  obtains km y q' where "flstep x (FResume h 0 km) y" and "fstage y = fstage x" and "fpc y = fpc x"
    and "\<And>k. k \<noteq> h \<Longrightarrow> fcallers y k = fcallers x k" and "fcall_of (fcallers y h) = q'"
    and "\<not> call_interrupted q'" and "call_holds q' \<longrightarrow> fcallers y h = FInside q'
        \<and> \<not> (\<exists>start dest type. q' = RequestBody start dest type) \<and> q' \<noteq> StopBody"
    and "call_holds q' \<longrightarrow> (\<exists>start dest type. q = RequestBody start dest type) \<or> q = StopBody"
proof -
  have "fcallers x 0 = FOutside" "q \<noteq> Call Ready" using ok h(1) by (auto simp: flife_ok_def fcallers_ok_def)
  then have me: "0 < h" using h(1) by (cases h) auto
  let ?c = "\<lambda>k. fcall_of (fcallers x k)"
  have c: "?c h = q" using h(1) by simp
  obtain km q' r k where s: "fresh_fine km q (kst (fkmod x))" "fine_call h 0 km q (kst (fkmod x)) = Some (Inr ((q', r), k))"
      and q': "\<not> call_interrupted q'"
        "call_holds q' \<longrightarrow> \<not> (\<exists>start dest type. q' = RequestBody start dest type) \<and> q' \<noteq> StopBody"
        "call_holds q' \<longrightarrow> (\<exists>start dest type. q = RequestBody start dest type) \<or> q = StopBody"
    using holder_advances [OF flife_fine [OF ok disjI1 [OF st]] me, of a] h(2) i f unfolding c by metis
  have r: "q' = Call Ready \<longleftrightarrow> r \<noteq> None" by (rule fine_call_result [OF s(2)]) fact
  have "fstage x \<noteq> Published" "fstage x \<noteq> Absent" "stage_ok (frame x)"
    using st ok by (auto simp: while_loaded_def flife_ok_def)
  then have "mutex_ready (thread1 (kst (fkmod x)))" by (simp add: frame_ready)
  from resume_step [OF h(1) this s] show thesis
    by (rule that [of _ _ q']) (use q' r fcall_of_fentered [OF r] in \<open>auto simp: fentered_def split: option.splits\<close>)
qed

lemma release_mutex:
  assumes ok: "flife_ok x" and st: "fstage x \<in> while_loaded"
    and i: "\<forall>k q. fcallers x k = FInside q \<longrightarrow> \<not> call_interrupted q" and f: "heap (kst (fkmod x)) a = None"
  obtains es y where "steps flstep x es y" and "list_all for_the_exit es" and "fstage y = fstage x"
    and "fpc y = fpc x" and "\<not> mutex_with_calls y"
    and "\<And>k. \<not> call_holds (fcall_of (fcallers x k)) \<Longrightarrow> fcallers y k = fcallers x k"
proof (cases "mutex_with_calls x")
  case False
  then show thesis using that [of "[]" x] by auto
next
  case True
  then obtain h where hold: "call_holds (fcall_of (fcallers x h))" by (auto simp: mutex_with_calls_def)
  then obtain q where h: "fcallers x h = FInside q" "call_holds q" by (cases "fcallers x h") auto
  have out0: "fcallers x 0 = FOutside" using ok by (simp add: flife_ok_def fcallers_ok_def)
  have h0: "h \<noteq> 0" using out0 h(1) by (cases "h = 0") auto
  note own = fine_okD(2) [OF flife_fine [OF ok disjI1 [OF st]]]
  have others: "\<not> call_holds (fcall_of (fcallers x k))" if "k \<noteq> h" for k
  proof
    assume k: "call_holds (fcall_of (fcallers x k))"
    then have "k \<noteq> 0" using out0 by (cases "k = 0") auto
    then show False using own [of k] own [of h] k hold that h0 by (simp add: inside_def)
  qed
  obtain km x1 q1 where s1: "flstep x (FResume h 0 km) x1" "fstage x1 = fstage x" "fpc x1 = fpc x"
      "\<And>k. k \<noteq> h \<Longrightarrow> fcallers x1 k = fcallers x k" "fcall_of (fcallers x1 h) = q1" "\<not> call_interrupted q1"
      "call_holds q1 \<longrightarrow> fcallers x1 h = FInside q1 \<and> \<not> (\<exists>start dest type. q1 = RequestBody start dest type) \<and> q1 \<noteq> StopBody"
    using holder_step [OF ok st h, of a] i h(1) f by metis
  show thesis
  proof (cases "call_holds q1")
    case False
    then have "\<not> mutex_with_calls x1" using others s1(4,5) unfolding mutex_with_calls_def by metis
    moreover have "fcallers x1 k = fcallers x k" if "\<not> call_holds (fcall_of (fcallers x k))" for k
      using that hold s1(4) by (cases "k = h") auto
    ultimately show thesis using that [OF steps_one [of flstep, OF s1(1)]] s1(2,3) by simp
  next
    case True
    have ok1: "flife_ok x1" by (rule flife_ok_step [OF s1(1) ok])
    obtain km' x2 q2 where s2: "flstep x1 (FResume h 0 km') x2" "fstage x2 = fstage x1" "fpc x2 = fpc x1"
        "\<And>k. k \<noteq> h \<Longrightarrow> fcallers x2 k = fcallers x1 k" "fcall_of (fcallers x2 h) = q2"
        "call_holds q2 \<longrightarrow> (\<exists>start dest type. q1 = RequestBody start dest type) \<or> q1 = StopBody"
      using holder_step [OF ok1 _ _ True] s1(2,6,7) st True by metis
    have "\<not> mutex_with_calls x2" using others s1(4,7) s2(4-6) True unfolding mutex_with_calls_def by metis
    moreover have "steps flstep x [FResume h 0 km, FResume h 0 km'] x2" using s1(1) s2(1) by auto
    moreover have "fcallers x2 k = fcallers x k" if "\<not> call_holds (fcall_of (fcallers x k))" for k
      using that hold s1(4) s2(4) by (cases "k = h") auto
    ultimately show thesis using that [of "[FResume h 0 km, FResume h 0 km']" x2] s1(2,3) s2(2,3) by simp
  qed
qed

lemma thread_to_top:
  "flife_ok x \<Longrightarrow> fstage x \<in> while_loaded \<Longrightarrow> \<not> mutex_with_calls x \<Longrightarrow> \<not> sched_interrupted (fpc x) \<Longrightarrow>
    \<exists>n y. steps flstep x (replicate n (FRun 0)) y \<and> fpc y = At AtTop \<and> fstage y = fstage x \<and> fcallers y = fcallers x"
proof (induction "fpc x" arbitrary: x rule: wf_induct_rule [OF wf_nearer])
  case 1
  show ?case
  proof (cases "fpc x = At AtTop")
    case True
    then show ?thesis by (intro exI [of _ 0] exI [of _ x]) auto
  next
    case False
    have "\<forall>t. \<not> call_holds (fcall_of (fcallers x t))" using "1.prems"(3) by (simp add: mutex_with_calls_def)
    then obtain p s where s: "fine_sched 0 (fpc x) (kst (fkmod x)) = Some (Inr (p, s))"
      using sched_advances [OF flife_fine [OF "1.prems"(1) disjI1 [OF "1.prems"(2)]] "1.prems"(4)] by blast
    let ?y = "(set_fkst s x)\<lparr>fpc := p\<rparr>"
    have near: "(p, fpc x) \<in> nearer" "\<not> sched_interrupted p"
      using fine_sched_nearer [OF s False "1.prems"(4)] by blast+
    have "thread_running (fkmod x)"
      using "1.prems"(1,2) by (auto simp: flife_ok_def stage_ok_def while_loaded_def)
    then have step: "flstep x (FRun 0) ?y" using s by (simp add: flstep_def res_simps)
    have "\<exists>n y. steps flstep ?y (replicate n (FRun 0)) y \<and> fpc y = At AtTop \<and> fstage y = fstage ?y \<and> fcallers y = fcallers ?y"
      by (rule "1.hyps") (use near "1.prems" flife_ok_step [OF step] in \<open>simp_all add: mutex_with_calls_def\<close>)
    then obtain n y where "steps flstep ?y (replicate n (FRun 0)) y" "fpc y = At AtTop" "fstage y = fstage x"
        "fcallers y = fcallers x" by auto
    then show ?thesis using step by (intro exI [of _ "Suc n"] exI [of _ y]) auto
  qed
qed

lemma removal_run:
  "run_removal n 0 (removing x) (kst (fkmod x)) = Some (Inr (None, k)) \<Longrightarrow> fstage x = Remove \<Longrightarrow>
    \<exists>m y. steps flstep x (replicate m (FExit 0)) y \<and> fstage y = Unmap \<and> kst (fkmod y) = k \<and> fcallers y = fcallers x"
proof (induction n arbitrary: x)
  case (Suc n)
  obtain r s where s: "removal_step 0 (removing x) (kst (fkmod x)) = Some (Inr (r, s))"
    using Suc.prems(1) by (auto split: option.splits sum.splits)
  show ?case
  proof (cases r)
    case None
    then have "flstep x (FExit 0) ((set_fkst s x)\<lparr>fstage := Unmap\<rparr>)"
      using s Suc.prems(2) by (simp add: flstep_def fexit_step_def res_simps)
    moreover have "s = k" using Suc.prems(1) s None by simp
    ultimately show ?thesis
      by (intro exI [of _ 1] exI [of _ "(set_fkst s x)\<lparr>fstage := Unmap\<rparr>"]) auto
  next
    case (Some r')
    let ?y = "(set_fkst s x)\<lparr>removing := r'\<rparr>"
    have st: "flstep x (FExit 0) ?y"
      using s Some Suc.prems(2) by (simp add: flstep_def fexit_step_def res_simps)
    have "\<exists>m y. steps flstep ?y (replicate m (FExit 0)) y \<and> fstage y = Unmap \<and> kst (fkmod y) = k \<and> fcallers y = fcallers ?y"
      by (rule Suc.IH) (use Suc.prems s Some in simp_all)
    then obtain m y where "steps flstep ?y (replicate m (FExit 0)) y" "fstage y = Unmap" "kst (fkmod y) = k"
        "fcallers y = fcallers x" by auto
    then show ?thesis using st by (intro exI [of _ "Suc m"] exI [of _ y]) auto
  qed
qed simp

lemma exit_clears_stubs:
  assumes "fstage x \<in> while_loaded"
  obtains i y where "steps flstep x (replicate i (FExit 0)) y" and "fstage y = StopThread"
    and "kst (fkmod y) = kst (fkmod x)" and "fpc y = fpc x" and "fcallers y = fcallers x"
proof -
  have "\<exists>y. run_flife (replicate (steps_left (fstage x) - 3) (FExit 0)) x = Some (Inr y)
      \<and> fstage y = StopThread \<and> kst (fkmod y) = kst (fkmod x) \<and> fpc y = fpc x \<and> fcallers y = fcallers x"
    using assms by (auto simp: while_loaded_def fexit_step_def Let_def numeral_eq_Suc)
  then show thesis using that run_flife_steps by metis
qed

text \<open>What the calls inside the module still have to free.\<close>

definition on_delete_lists :: "flife \<Rightarrow> addr set" where
  "on_delete_lists x = (\<Union>k. set (call_list (fcall_of (fcallers x k))))"

lemma removal_from_top:
  assumes ok: "flife_ok x" and st: "fstage x = StopThread" and top: "fpc x = At AtTop" and free: "\<not> mutex_with_calls x"
  obtains m y where "steps flstep x (replicate m (FExit 0)) y" and "fstage y = Unmap"
    and "fcallers y = fcallers x" and "dom (heap (kst (fkmod y))) = on_delete_lists y"
proof -
  let ?c = "\<lambda>k. fcall_of (fcallers x k)" and ?s = "kst (fkmod x)"
  let ?d = "delete_list (At AtTop) ?c"
  let ?r = "x\<lparr>fkmod := (fkmod x)\<lparr>thread_running := False\<rparr>, fstage := Remove, removing := RemoveWait\<rparr>"
  have "fstage x \<in> while_loaded" using st by (simp add: while_loaded_def)
  from flife_fine [OF ok disjI1 [OF this]] have fine: "fine_ok (At AtTop, ?c, ?s)" by (simp add: top)
  note okD = fine_okD [OF fine]
  have "\<not> inside (At AtTop, ?c, ?s) t" for t using free by (simp add: inside_def mutex_with_calls_def)
  then have mutex: "mutex (thread1 ?s) = None" using okD(2) by (metis not_None_eq)
  have w: "well_formed (clean (pending ?d) False ?s)" using okD(1) by simp
  have "linked (clean (pending ?d) False ?s) = linked ?s" by (simp add: linked_def)
  then have lk: "distinct (linked ?s)" "set (linked ?s) = dom (heap ?s) - pending ?d"
    using wfD(1) [OF w] by (auto simp: links_ok_def)
  have pend: "pending ?d \<subseteq> dom (heap ?s)" using pending_dom [OF okD(3)] by auto
  have len: "length (waiting_list ?s) = 10" using wf_position(4) [OF w] by simp
  have rr: "run_removal (length (linked ?s) + 4) 0 (removing ?r) (kst (fkmod ?r)) = Some (Inr (None, cleared_state ?s))"
    using removal_undisturbed [OF mutex len lk(1)] lk(2) by simp
  obtain m y where y: "steps flstep ?r (replicate m (FExit 0)) y" "fstage y = Unmap"
      "kst (fkmod y) = cleared_state ?s" "fcallers y = fcallers x"
    using removal_run [OF rr] by auto
  have "flstep x (FExit 0) ?r" using st top by (simp add: flstep_def fexit_step_def)
  then have run: "steps flstep x (replicate (Suc m) (FExit 0)) y" using y(1) by auto
  have "dom (heap (cleared_state ?s)) = dom (heap ?s) - set (linked ?s)" by (auto simp: cleared_state_def)
  also have "\<dots> = pending ?d" using lk(2) pend by blast
  also have "\<dots> = on_delete_lists y"
  proof -
    have "?c 0 = Call Ready" using okD(5) .
    then have "?d t = call_list (?c t)" for t by (simp add: delete_list_def)
    then show ?thesis by (simp add: pending_def on_delete_lists_def y(4))
  qed
  finally show thesis using that [OF run y(2,4)] y(3) by simp
qed

section \<open>Nobody in a call\<close>

text \<open>What holds at the positions of the removal when it is alone.\<close>

fun removal_ok :: "removal \<Rightarrow> kstate \<Rightarrow> bool" where
  "removal_ok RemoveWait s \<longleftrightarrow> mutex (thread1 s) = None \<and> well_formed s"
| "removal_ok RemoveBody s \<longleftrightarrow> mutex (thread1 s) = Some 0 \<and> well_formed (set_mutex None s)"
| "removal_ok (RemoveUnlock r dl) s \<longleftrightarrow>
     (if r = 0 then mutex (thread1 s) = Some 0 \<and> distinct dl \<and> set dl = dom (heap s) else mutex (thread1 s) = None)"
| "removal_ok (RemoveFree dl) s \<longleftrightarrow> distinct dl \<and> set dl = dom (heap s)"

lemma removal_body:
  assumes "well_formed (set_mutex None s)"
  shows "rbind (unlink_onboard (s, [])) (for_upto (nat FLOORS) unlink_floor) =
    Inr (s\<lparr>elevator := (elevator s)\<lparr>onboard := []\<rparr>, waiting_list := replicate 10 []\<rparr>, linked s)"
proof -
  have "length (waiting_list s) = 10" using wf_position(4) [OF assms] by simp
  then show ?thesis
    using unlink_floors [of 10 "s\<lparr>elevator := (elevator s)\<lparr>onboard := []\<rparr>\<rparr>" "onboard (elevator s)"]
    by (simp add: unlink_onboard_eq res_simps linked_def)
qed

lemma removal_ok_step:
  assumes "removal_ok r s" and "removal_step lk r s = Some (Inr (r', s'))"
  shows "case r' of None \<Rightarrow> heap s' = Map.empty | Some r' \<Rightarrow> removal_ok r' s'"
proof (cases r)
  case RemoveWait
  have "set_mutex None (set_mutex (Some 0) s) = s" if "mutex (thread1 s) = None"
    using that by (rule set_mutex_set_mutex)
  then show ?thesis
    using assms RemoveWait by (auto elim!: lock_step_result simp: mutex_lock_interruptible_def)
next
  case RemoveBody
  have "linked (set_mutex None s) = linked s" by (simp add: linked_def)
  then have "distinct (linked s)" "set (linked s) = dom (heap s)"
    using assms(1) RemoveBody wfD(1) [of "set_mutex None s"] by (auto simp: links_ok_def)
  then show ?thesis using assms RemoveBody removal_body [of s] by (auto simp: res_simps)
next
  case (RemoveUnlock n dl)
  then have u: "unlock_step 0 (Some (RemoveFree dl)) s = Some (Inr (r', s'))" using assms(2) by simp
  show ?thesis using unlock_step_result [OF u] assms(1) RemoveUnlock by (auto split: if_splits)
next
  case (RemoveFree dl)
  show ?thesis
  proof (cases dl)
    case Nil
    then show ?thesis using assms RemoveFree by auto
  next
    case (Cons a dl')
    then have "r' = Some (RemoveFree dl')" "s' = s\<lparr>heap := (heap s)(a := None)\<rparr>"
      using assms(2) RemoveFree free_step_result [of a "Some (RemoveFree dl')" s r' s'] by auto
    then show ?thesis using assms(1) RemoveFree Cons by auto
  qed
qed

lemma removal_faults:
  assumes "removal_ok r s" and "removal_step lk r s = Some (Inl f)"
  shows "f = UnlockNotOwner"
proof (cases r)
  case RemoveBody
  then show ?thesis using assms removal_body [of s] by (simp add: res_simps)
next
  case (RemoveFree dl)
  then show ?thesis using assms by (cases dl) (auto simp: free_step_def kfree_def split: option.splits)
qed (use assms in \<open>auto simp: lock_step_def unlock_step_def mutex_unlock_def split: if_splits\<close>)

definition fleaving :: "flife \<Rightarrow> bool" where
  "fleaving x \<longleftrightarrow> flife_ok x \<and> (\<forall>k. fcallers x k = FOutside)
     \<and> fstage x \<in> {StopThread, Remove, Unmap, Absent} \<and> stubs_cleared (fkmod x)
     \<and> (fstage x = Remove \<longrightarrow> removal_ok (removing x) (kst (fkmod x)))
     \<and> (fstage x \<in> {Unmap, Absent} \<longrightarrow> heap (kst (fkmod x)) = Map.empty)"

lemma alone_at_top:
  assumes "flife_ok x" and "\<forall>k. fcallers x k = FOutside" and "fstage x = StopThread" and "fpc x = At AtTop"
  shows "removal_ok RemoveWait (kst (fkmod x))"
proof -
  have v: "fview x = (At AtTop, \<lambda>k. Call ((\<lambda>_. Ready) k), kst (fkmod x))"
    using assms(2-4) by (simp add: fview_def fseen_def)
  obtain es where es: "steps fstep fine_booted es (At AtTop, \<lambda>k. Call ((\<lambda>_. Ready) k), kst (fkmod x))"
    using assms(1,3) unfolding flife_ok_def interleaves_def v by auto
  have "sys_ok (AtTop, \<lambda>_. Ready, kst (fkmod x))"
    using reachable_fine [OF es] quiet_seen [OF es] by (simp add: fine_ok_def)
  then have "well_formed (kst (fkmod x))" by (simp add: sys_ok_def)
  then show ?thesis using wfD(9) by simp
qed

lemma fleaving_exit:
  assumes ex: "fexit_step lk x = Some (Inr y)" and x: "fleaving x" and y: "flife_ok y"
  shows "fleaving y"
proof -
  have out: "fcallers x k = FOutside" for k using x by (simp add: fleaving_def)
  show ?thesis
  proof (cases "fstage x = Remove")
    case True
    obtain r k where r: "removal_step lk (removing x) (kst (fkmod x)) = Some (Inr (r, k))"
        "y = (case r of None \<Rightarrow> (set_fkst k x)\<lparr>fstage := Unmap\<rparr> | Some r \<Rightarrow> (set_fkst k x)\<lparr>removing := r\<rparr>)"
      by (rule fexit_remove [OF ex True])
    have "case r of None \<Rightarrow> heap k = Map.empty | Some r \<Rightarrow> removal_ok r k"
      by (rule removal_ok_step [OF _ r(1)]) (use x True in \<open>simp add: fleaving_def\<close>)
    then show ?thesis
      using r(2) x y True by (cases r) (simp_all add: fleaving_def stubs_cleared_def)
  next
    case False
    then have "fstage x \<in> {StopThread, Unmap}" using ex x by (auto simp: fleaving_def fexit_step_def)
    then show ?thesis
    proof (elim insertE emptyE)
      assume st: "fstage x = StopThread"
      then have y': "fpc x = At AtTop"
          "y = x\<lparr>fkmod := (fkmod x)\<lparr>thread_running := False\<rparr>, fstage := Remove, removing := RemoveWait\<rparr>"
        using ex by (auto simp: fexit_step_def split: if_splits)
      have "removal_ok RemoveWait (kst (fkmod x))"
        by (rule alone_at_top [OF _ _ st y'(1)]) (use x in \<open>simp_all add: fleaving_def\<close>)
      then show ?thesis using x y unfolding y'(2) by (simp add: fleaving_def stubs_cleared_def)
    next
      assume st: "fstage x = Unmap"
      then have "y = x\<lparr>fkmod := (fkmod x)\<lparr>proc_entry := False, mapped := False\<rparr>, fstage := Absent,
          fcallers := fgone (fcallers x)\<rparr>" using ex by (simp add: fexit_step_def)
      then show ?thesis using x y st out by (simp add: fleaving_def stubs_cleared_def fgone_def)
    qed
  qed
qed

fun keeps_unloading :: "flife_event \<Rightarrow> bool" where
  "keeps_unloading FLoad = False"
| "keeps_unloading e = True"

lemma fleaving_step:
  assumes "flstep x e y \<and> keeps_unloading e" and "fleaving x"
  shows "fleaving y"
proof -
  have ok: "flife_ok x" "fcallers_ok x" and out: "fcallers x k = FOutside" and cl: "stub_of call (fkmod x) = StubNull" for k call
    using assms(2) stub_of_cleared by (auto simp: fleaving_def flife_ok_def)
  have y: "flife_ok y" by (rule flife_ok_step) (use assms ok in auto)
  consider created err where "e = FInit created err" | lk where "e = FExit lk" | "fpart_of_call e"
    using assms(1) by (cases e) (auto simp: fpart_of_call_def)
  then show ?thesis
  proof cases
    case (1 created err)
    then have "fstage x = Published" using assms(1) by (auto simp: flstep_def split: if_splits)
    then show ?thesis using assms(2) by (simp add: fleaving_def)
  next
    case (2 lk)
    then show ?thesis using fleaving_exit assms y by (auto simp: flstep_def)
  next
    case 3
    from conjunct1 [OF assms(1)] ok(2) 3 show ?thesis
    proof (cases rule: flstep_cases)
      case (run lk p k)
      have "stage_ok (frame x)" "fstage x \<in> {StopThread, Remove, Unmap, Absent}"
        using assms(2) by (simp_all add: fleaving_def flife_ok_def)
      then have "fstage x = StopThread" using stage_running [of "frame x"] run(2) by auto
      then show ?thesis using run(4) y assms(2) by (simp add: fleaving_def stubs_cleared_def)
    qed (use assms(2) out cl in simp_all)
  qed
qed

interpretation fine_leave: machine "\<lambda>x e y. flstep x e y \<and> keeps_unloading e" fleaving
  by unfold_locales (rule fleaving_step)

section \<open>Properties\<close>

text \<open>
  C17. What an unload leaves behind: from every reachable state of the loaded module in which no lock
  has been interrupted and memory is not exhausted, whoever is in a call and wherever, steps of the exit, of
  the thread and of the one call that holds the mutex, if any, lead to the unmapping. Then every
  passenger has been freed but those on the \<open>delete_list\<close>s of calls that are still in their loop;
  these are lost, and whoever was inside runs on in unmapped code. With no call inside nothing
  is left.
\<close>

theorem unload_leaves_delete_lists:
  assumes "steps flstep fine_before es x" and "fstage x \<in> {Live, ClearRequest, ClearStop, StopThread}"
    and "\<not> sched_interrupted (fpc x)" and "\<forall>k q. fcallers x k = FInside q \<longrightarrow> \<not> call_interrupted q"
    and "heap (kst (fkmod x)) a = None"
  shows "\<exists>fs z y. steps flstep x fs z \<and> list_all for_the_exit fs \<and> flstep z (FExit 0) y
    \<and> fstage y = Absent \<and> \<not> mapped (fkmod y)
    \<and> (\<forall>k. \<not> call_holds (fcall_of (fcallers x k)) \<longrightarrow> fcallers z k = fcallers x k)
    \<and> dom (heap (kst (fkmod y))) = (\<Union>k. set (call_list (fcall_of (fcallers z k))))
    \<and> (\<forall>k q. fcallers z k = FInside q \<longrightarrow> flife_next (FResume k lk km) y = Some (Inl DanglingCall))
    \<and> ((\<forall>k q. fcallers z k \<noteq> FInside q) \<longrightarrow> heap (kst (fkmod y)) = Map.empty)"
proof -
  have st: "fstage x \<in> while_loaded" using assms(2) by (simp add: while_loaded_def)
  have ok: "flife_ok x" by (rule reachable_flife [OF assms(1)])
  note run = fine_life.run_inv
  obtain i x1 where x1: "steps flstep x (replicate i (FExit 0)) x1" "fstage x1 = StopThread"
      "kst (fkmod x1) = kst (fkmod x)" "fpc x1 = fpc x" "fcallers x1 = fcallers x"
    by (rule exit_clears_stubs [OF st])
  have ok1: "flife_ok x1" by (rule run [OF x1(1) ok])
  have st1: "fstage x1 \<in> while_loaded" by (simp add: x1(2) while_loaded_def)
  obtain gs x2 where x2: "steps flstep x1 gs x2" "list_all for_the_exit gs" "fstage x2 = fstage x1"
      "fpc x2 = fpc x1" "\<not> mutex_with_calls x2"
      "\<And>k. \<not> call_holds (fcall_of (fcallers x1 k)) \<Longrightarrow> fcallers x2 k = fcallers x1 k"
    by (rule release_mutex [OF ok1 st1, of a]) (use assms(4,5) x1 in simp_all)
  have ok2: "flife_ok x2" by (rule run [OF x2(1) ok1])
  obtain n x3 where x3: "steps flstep x2 (replicate n (FRun 0)) x3" "fpc x3 = At AtTop" "fstage x3 = StopThread"
      "fcallers x3 = fcallers x2"
    using thread_to_top [OF ok2] x2(3-5) x1(2,4) assms(3) by (auto simp: while_loaded_def)
  have ok3: "flife_ok x3" by (rule run [OF x3(1) ok2])
  have "\<not> mutex_with_calls x3" using x2(5) x3(4) by (simp add: mutex_with_calls_def)
  then obtain m z where z: "steps flstep x3 (replicate m (FExit 0)) z" "fstage z = Unmap"
      "fcallers z = fcallers x3" "dom (heap (kst (fkmod z))) = on_delete_lists z"
    using removal_from_top [OF ok3 x3(3,2)] by blast
  let ?y = "z\<lparr>fkmod := (fkmod z)\<lparr>proc_entry := False, mapped := False\<rparr>, fstage := Absent, fcallers := fgone (fcallers z)\<rparr>"
  have y: "flstep z (FExit 0) ?y" using z(2) by (simp add: flstep_def fexit_step_def)
  let ?fs = "replicate i (FExit 0) @ gs @ replicate n (FRun 0) @ replicate m (FExit 0)"
  have "steps flstep x ?fs z" 
    by (rule steps_append [OF x1(1) steps_append [OF x2(1) steps_append [OF x3(1) z(1)]]])
  moreover have "list_all for_the_exit ?fs" using x2(2) by (auto simp: list_all_iff)
  moreover have "flife_next (FResume k lk km) ?y = Some (Inl DanglingCall)" if "fcallers z k = FInside q" for k q
    using that by (simp add: fgone_def)
  moreover have "heap (kst (fkmod ?y)) = Map.empty" if none: "\<forall>k q. fcallers z k \<noteq> FInside q"
  proof -
    have "fcall_of (fcallers z k) = Call Ready" for k using none by (cases "fcallers z k") auto
    then have "dom (heap (kst (fkmod z))) = {}" using z(4) by (simp add: on_delete_lists_def)
    then show ?thesis by simp
  qed
  moreover have "fcallers z k = fcallers x k" if "\<not> call_holds (fcall_of (fcallers x k))" for k
    using that x2(6) x1(5) x3(4) z(3) by simp
  ultimately show ?thesis
    using y z(4) by (intro exI [of _ ?fs] exI [of _ z] exI [of _ ?y]) (simp add: on_delete_lists_def)
qed

text \<open>Thread 2, which has yet to free passenger 7.\<close>

theorem unload_leaves_delete_lists_witness:
  "\<exists>fs z y. steps flstep demo_freeing fs z \<and> flstep z (FExit 0) y \<and> fstage y = Absent
    \<and> 7 \<in> dom (heap (kst (fkmod y))) \<and> flife_next (FResume 2 0 None) y = Some (Inl DanglingCall)"
proof -
  have d: "fstage demo_freeing = Live" "\<not> sched_interrupted (fpc demo_freeing)" "heap (kst (fkmod demo_freeing)) 8 = None"
    "\<forall>k q. fcallers demo_freeing k = FInside q \<longrightarrow> \<not> call_interrupted q"
    and two: "fcallers demo_freeing 2 = FInside (StopFree [7])"
    by (auto simp: demo_freeing_def demo_at_rest_def demo_asked_def demo_loaded_def demo_boarded_def demo_waiting_eq)
  from d(1) have "fstage demo_freeing \<in> {Live, ClearRequest, ClearStop, StopThread}" by simp
  from unload_leaves_delete_lists [OF demo_freeing_run this d(2,4,3), of 0 None]
  obtain fs z y where y: "steps flstep demo_freeing fs z" "flstep z (FExit 0) y" "fstage y = Absent"
    and keep: "\<forall>k. \<not> call_holds (fcall_of (fcallers demo_freeing k)) \<longrightarrow> fcallers z k = fcallers demo_freeing k"
    and h: "dom (heap (kst (fkmod y))) = (\<Union>k. set (call_list (fcall_of (fcallers z k))))"
    and g: "\<forall>k q. fcallers z k = FInside q \<longrightarrow> flife_next (FResume k 0 None) y = Some (Inl DanglingCall)"
    by blast
  have z: "fcallers z 2 = FInside (StopFree [7])" using keep [rule_format, of 2] two by simp
  then have "7 \<in> (\<Union>k. set (call_list (fcall_of (fcallers z k))))" by (intro UN_I [of 2]) simp_all
  then show ?thesis using y h g [rule_format, OF z] by blast
qed

text \<open>
  C18. A clean unload: if no thread is in a call, nor in the loop that ends a call of
  \<open>stop_elevator\<close>, when the last stub has been cleared, then until the next load nobody gets in
  again, whatever the order of the exit's and the thread's steps; the only fault possible is the
  unlock after an interrupted lock, and when the module is gone every passenger has been freed.
\<close>

theorem unload_alone_is_clean:
  assumes "steps flstep fine_before es x" and "fstage x = StopThread" and "\<forall>k. fcallers x k = FOutside"
    and "steps (\<lambda>x e y. flstep x e y \<and> keeps_unloading e) x fs y"
  shows "(\<forall>k. fcallers y k = FOutside) \<and> (\<forall>call. stub_of call (fkmod y) = StubNull)
    \<and> (fstage y = Absent \<longrightarrow> heap (kst (fkmod y)) = Map.empty)
    \<and> (\<forall>e f. flife_next e y = Some (Inl f) \<longrightarrow> f = UnlockNotOwner)"
proof -
  have "fleaving x"
    using reachable_flife [OF assms(1)] assms(2,3) by (auto simp: fleaving_def flife_ok_def stage_ok_def)
  then have y: "fleaving y" by (rule fine_leave.run_inv [OF assms(4)])
  have out: "fcallers y k = FOutside" for k using y by (simp add: fleaving_def)
  have "f = UnlockNotOwner" if e: "flife_next e y = Some (Inl f)" for e f
  proof (cases e)
    case (FExit lk)
    then have "fexit_step lk y = Some (Inl f)" using e by simp
    then have st: "fstage y = Remove" "removal_step lk (removing y) (kst (fkmod y)) = Some (Inl f)"
      by (auto simp: fexit_step_def Let_def rbind_eq_Inl split: stage.splits if_splits option.splits)
    show ?thesis by (rule removal_faults [OF _ st(2)]) (use y st(1) in \<open>simp add: fleaving_def\<close>)
  next
    case (FRun lk)
    then have r: "thread_running (fkmod y)" "fine_sched lk (fpc y) (kst (fkmod y)) = Some (Inl f)"
      using e by (auto simp: rbind_eq_Inl split: if_splits option.splits)
    have ok: "flife_ok y" using y by (simp add: fleaving_def)
    then have "fstage y \<in> while_loaded" using r(1) by (auto simp: flife_ok_def stage_ok_def while_loaded_def)
    then show ?thesis using sched_faults [OF flife_fine [OF ok] r(2)] by blast
  next
    case (FInit created err)
    then show ?thesis using e by (auto simp: split_def Let_def split: if_splits)
  qed (use e out in \<open>auto split: if_splits\<close>)
  then show ?thesis using y stub_of_cleared by (auto simp: fleaving_def)
qed

definition demo_last_stub :: flife where
  "demo_last_stub = demo_at_rest\<lparr>fkmod := (fkmod demo_at_rest)\<lparr>stub_start := StubNull, stub_request := StubNull,
     stub_stop := StubNull\<rparr>, fstage := StopThread\<rparr>"

lemma demo_last_stub_run:
  "steps flstep fine_before ([FLoad, FInit True None] @ demo_ask @ replicate 10 (FRun 0) @ replicate 3 (FExit 0)) demo_last_stub"
proof -
  have "run_flife (replicate 3 (FExit 0)) demo_at_rest = Some (Inr demo_last_stub)"
    by (simp add: numeral_eq_Suc fexit_step_def demo_last_stub_def demo_at_rest_def demo_asked_def demo_loaded_def)
  then show ?thesis
    by (intro run_flife_steps)
      (simp only: run_flife_append demo_fine_load demo_asks demo_boards option.case sum.case)
qed

theorem unload_alone_is_clean_witness:
  "fcallers demo_last_stub 3 = FOutside \<and> stub_of StopCall (fkmod demo_last_stub) = StubNull
    \<and> flife_next (FRun 0) demo_last_stub \<noteq> Some (Inl UseAfterFree)"
proof -
  have "fstage demo_last_stub = StopThread" "\<forall>k. fcallers demo_last_stub k = FOutside"
    by (simp_all add: demo_last_stub_def demo_at_rest_def demo_asked_def demo_loaded_def)
  from unload_alone_is_clean [OF demo_last_stub_run this steps_nil] show ?thesis by blast
qed

end
