(* ===== verification/Sessions.thy ===== *)
theory Sessions
  imports SharedReport ReaderRuns
begin

text \<open>
  Sessions of readers of \<open>/proc/elevator\<close> while the elevator runs: any number of readers, each with a
  file that is closed, being opened or open. An \<open>open\<close> takes as many steps as \<open>SharedReport\<close> cuts it
  into, and the scheduler, the system calls and the other readers run between any two of them;
  \<open>read\<close> and \<open>release\<close>, which touch only the two globals of the file, are one step each.
\<close>

section \<open>The machine\<close>

datatype file_state = Closed | Opening opener | Opened

text \<open>The elevator, the globals of the file, and the file of each reader.\<close>

type_synonym psys = "sys \<times> proc_state \<times> (nat \<Rightarrow> file_state)"

datatype pevent =
    Elevator kevent
  | Open nat "addr option" "addr option"
  | Segment nat
  | Read nat nat "int \<times> string option"
  | Release nat

text \<open>An \<open>open\<close> that has come to its end returns 0, and the file is open, or \<open>-ENOMEM\<close>.\<close>

fun settled :: "opener \<Rightarrow> file_state" where
  "settled ODone = Opened"
| "settled OFailed = Closed"
| "settled pc = Opening pc"

inductive pstep :: "psys \<Rightarrow> pevent \<Rightarrow> psys \<Rightarrow> bool" where
  pstep_elevator: "kstep x e y \<Longrightarrow> pstep (x, p, fs) (Elevator e) (y, p, fs)"
| pstep_open: "fs i = Closed \<Longrightarrow> fresh_bufs tm mm p \<Longrightarrow> begin_open tm mm p = (pc, p') \<Longrightarrow>
     pstep (x, p, fs) (Open i tm mm) (x, p', fs(i := settled pc))"
| pstep_segment: "fs i = Opening pc \<Longrightarrow> open_segment (globals x) pc p = Inr (pc', p') \<Longrightarrow>
     pstep (x, p, fs) (Segment i) (x, p', fs(i := settled pc'))"
| pstep_read: "fs i = Opened \<Longrightarrow> elevator_proc_read sz p = Inr (r, p') \<Longrightarrow>
     pstep (x, p, fs) (Read i sz r) (x, p', fs)"
| pstep_release: "fs i = Opened \<Longrightarrow> elevator_proc_release p = Inr (r, p') \<Longrightarrow>
     pstep (x, p, fs) (Release i) (x, p', fs(i := Closed))"

inductive_cases pstep_elevatorE: "pstep x (Elevator e) y"
inductive_cases pstep_openE: "pstep x (Open i tm mm) y"
inductive_cases pstep_segmentE: "pstep x (Segment i) y"
inductive_cases pstep_readE: "pstep x (Read i sz r) y"
inductive_cases pstep_releaseE: "pstep x (Release i) y"

definition file_start :: psys where
  "file_start = (booted, proc_start, \<lambda>_. Closed)"

lemma sessions_ok: "steps pstep z es w \<Longrightarrow> sys_ok (fst z) \<Longrightarrow> sys_ok (fst w)"
  by (induction rule: steps.induct) (auto elim!: pstep.cases dest: ksys.step_inv)

lemma sessions_well_formed:
  assumes "steps pstep file_start es (x, p, fs)"
  shows "sys_ok x" and "well_formed (globals x)"
  using sessions_ok [OF assms] sys_ok_booted by (auto simp: file_start_def sys_ok_def)

section \<open>One reader opens the file\<close>

text \<open>While the reader \<open>i\<close> opens the file, the elevator may run, but no other reader does anything.\<close>

fun of_opening :: "nat \<Rightarrow> pevent \<Rightarrow> bool" where
  "of_opening i (Elevator e) \<longleftrightarrow> True"
| "of_opening i (Segment j) \<longleftrightarrow> j = i"
| "of_opening i e \<longleftrightarrow> False"

definition opens_alone :: "nat \<Rightarrow> psys \<Rightarrow> pevent \<Rightarrow> psys \<Rightarrow> bool" where
  "opens_alone i z e w \<longleftrightarrow> pstep z e w \<and> of_opening i e"

text \<open>The reader stands at a passenger who is on board.\<close>

definition derailed :: "nat \<Rightarrow> psys \<Rightarrow> bool" where
  "derailed i = (\<lambda>(x, p, fs). \<exists>t k a temp. fs i = Opening (OWalk t k (AtEntry a) temp)
     \<and> a \<in> set (onboard (elevator (globals x))))"

definition undisturbed :: "nat \<Rightarrow> psys \<Rightarrow> pevent \<Rightarrow> psys \<Rightarrow> bool" where
  "undisturbed i z e w \<longleftrightarrow> opens_alone i z e w \<and> \<not> derailed i w"

text \<open>The reader is the one of \<open>ReaderRuns\<close>, its text in the buffer \<open>m\<close>.\<close>

fun to_reader :: "pevent \<Rightarrow> revent" where
  "to_reader (Elevator e) = RElevator e"
| "to_reader _ = RSegment"

lemma to_reader_segment: "to_reader e = RSegment \<longleftrightarrow> (\<forall>k. e \<noteq> Elevator k)"
  by (cases e) simp_all

lemma settled_placed:
  "settled (fst (placed t m p r)) = Opening pc \<Longrightarrow> pc = fst (placed t m p r) \<and> (\<forall>new. r \<noteq> AtEnd new)"
  "settled (fst (placed t m p r)) = Opened \<longleftrightarrow> (\<exists>new. r = AtEnd new)"
  by (cases r; auto)+

lemma derailed_placed:
  "fs i = settled (fst (placed t m p r)) \<Longrightarrow> derailed i (x, q, fs) \<longleftrightarrow> boarded_under (x, r)"
  by (cases "(x, r)" rule: boarded_under.cases) (auto simp: derailed_def)

definition begun :: "addr \<Rightarrow> addr \<Rightarrow> proc_state \<Rightarrow> bool" where
  "begun t m p \<longleftrightarrow> message p = Some m \<and> bufs p m \<noteq> None \<and> bufs p t \<noteq> None \<and> t \<noteq> m"

lemma opening_step:
  assumes p0: "begun t m p0" and st: "opens_alone i (x, snd (placed t m p0 r), fs) e (y, q, gs)"
    and fs: "fs i = settled (fst (placed t m p0 r))"
  obtains r' where "rstep (x, r) (to_reader e) (y, r')" and "q = snd (placed t m p0 r')"
    and "gs = fs(i := settled (fst (placed t m p0 r')))"
proof (cases e)
  case (Elevator k)
  then have "kstep x k y" "q = snd (placed t m p0 r)" "gs = fs"
    using st by (auto simp: opens_alone_def elim: pstep_elevatorE)
  moreover have "fs = fs(i := settled (fst (placed t m p0 r)))" using fs by (simp add: fun_upd_idem)
  ultimately show thesis using that [of r] Elevator by (simp add: rstep_elevator)
next
  case (Segment j)
  then obtain pc pc' where pc: "fs i = Opening pc" "open_segment (globals x) pc (snd (placed t m p0 r)) = Inr (pc', q)"
      and y: "y = x" "gs = fs(i := settled pc')"
    using st by (auto simp: opens_alone_def elim!: pstep_segmentE)
  have r: "pc = fst (placed t m p0 r)" "\<And>new. r \<noteq> AtEnd new" using settled_placed(1) fs pc(1) by metis+
  have seg: "open_segment (globals x) (fst (placed t m p0 r)) (snd (placed t m p0 r)) =
      rbind (reader_segment (globals x) r) (\<lambda>pc. Inr (placed t m p0 pc))"
    by (rule placed_segment) (use p0 in \<open>auto simp: begun_def\<close>)
  then obtain r' where r': "reader_segment (globals x) r = Inr r'" "(pc', q) = placed t m p0 r'"
    using pc(2) unfolding r(1) by (cases "reader_segment (globals x) r") auto
  have "rstep (x, r) RSegment (x, r')" by (rule rstep_reader [OF r(2) r'(1)])
  then show thesis using that [of r'] Segment y r'(2) by (metis fst_conv snd_conv to_reader.simps(3))
qed (use st in \<open>simp_all add: opens_alone_def\<close>)

text \<open>A run of \<open>open\<close> with the elevator is a run of \<open>ReaderRuns\<close>; \<open>b\<close>: nobody boards under the reader.\<close>

lemma opening_run:
  assumes p0: "begun t m p0"
  shows "steps (\<lambda>z e w. opens_alone i z e w \<and> (b \<longrightarrow> \<not> derailed i w)) z ds w \<Longrightarrow>
    z = (x, snd (placed t m p0 r), fs) \<Longrightarrow> fs i = settled (fst (placed t m p0 r)) \<Longrightarrow>
    \<exists>y r'. w = (y, snd (placed t m p0 r'), fs(i := settled (fst (placed t m p0 r'))))
      \<and> steps (\<lambda>z e w. rstep z e w \<and> (b \<longrightarrow> \<not> boarded_under w)) (x, r) (map to_reader ds) (y, r')"
proof (induction arbitrary: x r fs rule: steps.induct)
  case (steps_nil z)
  then have "fs = fs(i := settled (fst (placed t m p0 r)))" by (simp add: fun_upd_idem)
  then show ?case using steps_nil by (intro exI [of _ x] exI [of _ r]) auto
next
  case (steps_cons z e w ds v)
  obtain y q gs where w: "w = (y, q, gs)" by (cases w)
  with steps_cons have st: "opens_alone i (x, snd (placed t m p0 r), fs) e (y, q, gs)"
      "b \<longrightarrow> \<not> derailed i (y, q, gs)" by auto
  obtain r' where r': "rstep (x, r) (to_reader e) (y, r')" "q = snd (placed t m p0 r')"
      "gs = fs(i := settled (fst (placed t m p0 r')))"
    by (rule opening_step [OF p0 st(1) steps_cons.prems(2)])
  have gi: "gs i = settled (fst (placed t m p0 r'))" using r'(3) by simp
  from steps_cons.IH [OF w [unfolded r'(2)] gi] obtain y' r'' where
    v: "v = (y', snd (placed t m p0 r''), gs(i := settled (fst (placed t m p0 r''))))"
    and run: "steps (\<lambda>z e w. rstep z e w \<and> (b \<longrightarrow> \<not> boarded_under w)) (y, r') (map to_reader ds) (y', r'')"
    by blast
  have "\<not> boarded_under (y, r')" if b using st(2) that derailed_placed [where fs = gs and i = i, OF gi] by blast
  with r'(1) have "rstep (x, r) (to_reader e) (y, r') \<and> (b \<longrightarrow> \<not> boarded_under (y, r'))" by blast
  from steps.steps_cons [where step = "\<lambda>z e w. rstep z e w \<and> (b \<longrightarrow> \<not> boarded_under w)", OF this run]
  have "steps (\<lambda>z e w. rstep z e w \<and> (b \<longrightarrow> \<not> boarded_under w)) (x, r) (map to_reader (e # ds)) (y', r'')"
    by (simp only: list.map)
  moreover have "gs(i := settled (fst (placed t m p0 r''))) = fs(i := settled (fst (placed t m p0 r'')))"
    unfolding r'(3) by (rule fun_upd_upd)
  ultimately show ?case unfolding v by (intro exI conjI) (rule refl | simp only:)+
qed

text \<open>After its allocations the reader is at the header; without memory the call has failed.\<close>

lemma open_begins:
  assumes "pstep (x, p, fs) (Open i tm mm) (y, q, gs)"
  shows "y = x \<and> fs i = Closed \<and> fresh_bufs tm mm p
    \<and> (case (tm, mm) of
         (Some t, Some m) \<Rightarrow> begun t m q \<and> q = snd (placed t m q AtHeader) \<and> bufs q = (bufs p)(t \<mapsto> None, m \<mapsto> None)
           \<and> gs = fs(i := settled (fst (placed t m q AtHeader))) \<and> read_p q = 1
       | (None, Some m) \<Rightarrow> gs = fs(i := Opening (OHeader None)) \<and> message q = Some m \<and> bufs q = (bufs p)(m \<mapsto> None)
       | (Some t, None) \<Rightarrow> gs = fs(i := Closed) \<and> bufs q = (bufs p)(t \<mapsto> None)
       | (None, None) \<Rightarrow> gs = fs(i := Closed) \<and> bufs q = bufs p)"
  using assms
  by (cases tm; cases mm)
    (auto elim!: pstep_openE simp: begin_open_def begun_def fresh_bufs_def store_obj_def Let_def)

lemma no_segment_without_temp:
  assumes "steps (opens_alone i) z ds w" and "snd (snd z) i = Opening (OHeader None)"
  shows "snd (snd w) i = Opening (OHeader None)"
  using assms
proof (induction rule: steps.induct)
  case (steps_cons z e w ds v)
  then have "snd (snd w) i = Opening (OHeader None)"
    by (cases e) (auto simp: opens_alone_def elim!: pstep_elevatorE pstep_segmentE)
  then show ?case using steps_cons.IH by simp
qed simp

lemma no_segment_when_closed:
  assumes "steps (opens_alone i) z ds w" and "snd (snd z) i = Closed"
  shows "snd (snd w) i = Closed"
  using assms
proof (induction rule: steps.induct)
  case (steps_cons z e w ds v)
  then have "snd (snd w) i = Closed"
    by (cases e) (auto simp: opens_alone_def elim!: pstep_elevatorE pstep_segmentE)
  then show ?case using steps_cons.IH by simp
qed simp

text \<open>An \<open>open\<close> that has succeeded had both buffers, and the reader has come to its end.\<close>

lemma open_ends:
  assumes "pstep (x, p, fs) (Open i tm mm) z" and "steps (opens_alone i) z ds (y, q, gs)" and "gs i = Opened"
  obtains t m p0 msg where "tm = Some t" and "mm = Some m" and "begun t m p0" and "bufs p t = None" and "bufs p m = None"
    and "bufs p0 = (bufs p)(t \<mapsto> None, m \<mapsto> None)" and "read_p p0 = 1"
    and "q = snd (placed t m p0 (AtEnd msg))" and "gs = fs(i := Opened)"
    and "steps rstep (x, AtHeader) (map to_reader ds) (y, AtEnd msg)"
proof -
  obtain x' p0 fs0 where z: "z = (x', p0, fs0)" by (cases z)
  note b = open_begins [OF assms(1) [unfolded z]]
  show thesis
  proof (cases tm; cases mm)
    fix t m assume tm: "tm = Some t" and mm: "mm = Some m"
    with b have p0: "x' = x" "begun t m p0" "p0 = snd (placed t m p0 AtHeader)"
        "fs0 = fs(i := settled (fst (placed t m p0 AtHeader)))" "bufs p0 = (bufs p)(t \<mapsto> None, m \<mapsto> None)" "read_p p0 = 1"
        "bufs p t = None" "bufs p m = None"
      by (auto simp: fresh_bufs_def)
    have "steps (\<lambda>z e w. opens_alone i z e w \<and> (False \<longrightarrow> \<not> derailed i w)) (x, p0, fs0) ds (y, q, gs)"
      using assms(2) by (simp add: z p0(1))
    from opening_run [OF p0(2) this, of x AtHeader fs0] p0(4) obtain r'
      where r': "q = snd (placed t m p0 r')" "gs = fs0(i := settled (fst (placed t m p0 r')))"
        "steps rstep (x, AtHeader) (map to_reader ds) (y, r')"
      by (auto simp: p0(3) [symmetric] simp del: placed.simps)
    then obtain msg where "r' = AtEnd msg" using assms(3) settled_placed(2) by (metis fun_upd_same)
    then show thesis using that [OF tm mm p0(2,7,8,5,6), of msg] r' p0(4) by simp
  next
    fix m assume "tm = None" "mm = Some m"
    then show thesis using b no_segment_without_temp [OF assms(2)] assms(3) by (simp add: z)
  qed (use b no_segment_when_closed [OF assms(2)] assms(3) in \<open>auto simp: z\<close>)
qed

section \<open>The text that is built\<close>

fun built :: "reader_pc \<Rightarrow> string" where
  "built AtHeader = []"
| "built (AtFloor i msg) = msg"
| "built (AtWalk i cur temp msg) = msg"
| "built (AtEnd msg) = msg"

lemma built_grows:
  assumes "reader_segment s r = Inr r'" and "r \<noteq> AtHeader"
  shows "\<exists>more. built r' = built r @ more \<and> r' \<noteq> AtHeader"
  using assms
  by (cases "(s, r)" rule: reader_segment.cases) (auto simp: rbind_eq_Inr strcat_def split: if_splits)

text \<open>The text begins with the header of a state that the elevator was in during the run.\<close>

definition headed_text :: "sys \<Rightarrow> rsys \<Rightarrow> bool" where
  "headed_text x = (\<lambda>(y, r). sys_ok y \<and> (if r = AtHeader then \<exists>ks. steps kstep x ks y
     else \<exists>u ks more. steps kstep x ks u \<and> built r = header_text (globals u) @ more))"

lemma headed_text_step:
  assumes "rstep z e w" and "headed_text x z"
  shows "headed_text x w"
  using assms(1)
proof cases
  case (rstep_elevator u k v r)
  have ok: "sys_ok v" using rstep_elevator assms(2) ksys.step_inv by (auto simp: headed_text_def)
  show ?thesis
  proof (cases "r = AtHeader")
    case True
    then obtain ks where "steps kstep x ks u" using assms(2) rstep_elevator(1) by (auto simp: headed_text_def)
    from steps_append [OF this steps_one [of kstep, OF rstep_elevator(4)]] show ?thesis
      using ok True rstep_elevator(3) by (auto simp: headed_text_def)
  next
    case False
    then show ?thesis using ok assms(2) rstep_elevator(1,3) by (simp add: headed_text_def)
  qed
next
  case (rstep_reader r u r')
  have w: "sys_ok u" "well_formed (globals u)" using assms(2) rstep_reader(1) by (auto simp: headed_text_def sys_ok_def)
  show ?thesis
  proof (cases "r = AtHeader")
    case True
    then obtain ks where ks: "steps kstep x ks u" using assms(2) rstep_reader(1) by (auto simp: headed_text_def)
    have "r' = AtFloor 10 (header_text (globals u))"
      using rstep_reader(5) True print_header_eq(1) [OF w(2)] by simp
    moreover have "\<exists>v ks more. steps kstep x ks v \<and> header_text (globals u) = header_text (globals v) @ more"
      using ks by (intro exI [of _ u] exI [of _ ks] exI [of _ "[]"]) simp
    ultimately show ?thesis using rstep_reader(3) w(1) by (simp add: headed_text_def)
  next
    case False
    then obtain v ks more where "steps kstep x ks v" "built r = header_text (globals v) @ more"
      using assms(2) rstep_reader(1) by (auto simp: headed_text_def)
    moreover obtain m2 where "built r' = built r @ m2" "r' \<noteq> AtHeader"
      using built_grows [OF rstep_reader(5) False] by blast
    moreover from calculation have "\<exists>v ks more. steps kstep x ks v \<and> built r' = header_text (globals v) @ more"
      by (intro exI [of _ v] exI [of _ ks] exI [of _ "more @ m2"]) simp
    ultimately show ?thesis using rstep_reader(3) w(1) by (simp add: headed_text_def)
  qed
qed

interpretation text_run: machine rstep "headed_text x" for x
  by unfold_locales (rule headed_text_step)

text \<open>Without the elevator in between it is the report.\<close>

lemma reader_alone:
  "steps rstep (x, r) es (y, r') \<Longrightarrow> \<forall>e \<in> set es. e = RSegment \<Longrightarrow> y = x \<and> run_reader (length es) (globals x) r = Inr r'"
proof (induction es arbitrary: r)
  case (Cons e es)
  then obtain z where z: "rstep (x, r) RSegment z" "steps rstep z es (y, r')" by auto
  then obtain r1 where "z = (x, r1)" "reader_segment (globals x) r = Inr r1" by (cases rule: rstep.cases) auto
  then show ?case using Cons z(2) by simp
qed auto

lemma reader_ends_with_report:
  assumes "well_formed s" and "run_reader k s AtHeader = Inr (AtEnd msg)"
  shows "print_report s = Inr msg"
proof -
  let ?n = "length (concat (waiting_list s)) + 22"
  have "run_reader (k + ?n) s AtHeader = Inr (AtEnd msg)" by (simp only: run_reader_add assms(2) rbind.simps run_reader_end)
  moreover have "run_reader (?n + k) s AtHeader = rbind (rbind (print_report s) (\<lambda>new. Inr (AtEnd new))) (run_reader k s)"
    unfolding run_reader_add [of ?n k] reader_makes_report [OF assms(1)] ..
  ultimately show ?thesis by (cases "print_report s") (simp_all add: add.commute)
qed

lemma report_printed: "well_formed s \<Longrightarrow> print_report s = Inr msg \<Longrightarrow> msg = report s \<and> report_fits s"
  using print_report_eq by (auto split: if_splits)

section \<open>What a reader sees\<close>

text \<open>What the buffer named by \<open>message\<close> holds.\<close>

definition message_text :: "proc_state \<Rightarrow> string option" where
  "message_text p = (case message p of None \<Rightarrow> None
     | Some m \<Rightarrow> (case bufs p m of Some (Some msg) \<Rightarrow> Some msg | _ \<Rightarrow> None))"

lemma message_text_Some:
  "message_text p = Some msg \<longleftrightarrow> (\<exists>m. message p = Some m \<and> bufs p m = Some (Some msg))"
  by (auto simp: message_text_def split: option.splits)

text \<open>Nobody opens or releases the file.\<close>

fun between :: "pevent \<Rightarrow> bool" where
  "between (Elevator e) = True"
| "between (Read i sz r) = True"
| "between e = False"

fun read_gain :: "pevent \<Rightarrow> int" where
  "read_gain (Read i sz r) = 1"
| "read_gain e = 0"

lemma message_text_read_p [simp]: "message_text (p\<lparr>read_p := v\<rparr>) = message_text p"
  by (auto simp: message_text_def split: option.split)

definition holds :: "string \<Rightarrow> psys \<Rightarrow> bool" where
  "holds msg = (\<lambda>(x, p, fs). message_text p = Some msg \<and> read_p p \<in> {0, 1})"

lemma opened_read:
  "message_text p = Some msg \<Longrightarrow> elevator_proc_read sz p =
    Inr (if read_p p = 0 then (0, None) else (int (length msg), Some msg), p\<lparr>read_p := if read_p p = 0 then 1 else 0\<rparr>)"
  using read_result by (auto simp: message_text_Some)

lemma between_step:
  assumes "pstep x e y \<and> between e" and "holds msg x"
  shows "holds msg y \<and> read_p (fst (snd y)) mod 2 = (read_p (fst (snd x)) + read_gain e) mod 2"
  using conjunct1 [OF assms(1)]
proof cases
  case (pstep_read fs i sz p r p' x)
  then show ?thesis
    using assms(2) opened_read [of p msg sz] by (auto simp: holds_def)
qed (use assms in \<open>auto simp: holds_def\<close>)

interpretation readers: tally "\<lambda>x e y. pstep x e y \<and> between e" "holds msg"
  "\<lambda>x. read_p (fst (snd x))" read_gain 2 for msg
  by unfold_locales (use between_step in blast)+

lemma reads_gain: "sum_list (map read_gain es) = int (length (filter (\<lambda>e. read_gain e = 1) es))"
proof (induction es)
  case (Cons e es)
  then show ?case by (cases e) simp_all
qed simp

lemma placed_end:
  assumes "begun t m p" and "read_p p = 1"
  shows "message_text (snd (placed t m p (AtEnd msg))) = Some msg \<and> read_p (snd (placed t m p (AtEnd msg))) = 1"
  using assms by (auto simp: message_text_def begun_def)

section \<open>An open run to its end\<close>

lemma segments_run:
  assumes "begun t m p0"
  shows "run_reader n (globals x) r = Inr (AtEnd msg) \<Longrightarrow> fs i = settled (fst (placed t m p0 r)) \<Longrightarrow>
    \<exists>k. steps (opens_alone i) (x, snd (placed t m p0 r), fs) (replicate k (Segment i))
      (x, snd (placed t m p0 (AtEnd msg)), fs(i := Opened))"
proof (induction n arbitrary: r fs)
  case 0
  then have r: "r = AtEnd msg" and "fs i = Opened" by auto
  then have "fs(i := Opened) = fs" by (simp only: fun_upd_idem)
  then show ?case unfolding r by (intro exI [of _ 0]) (simp only: replicate_0 steps.steps_nil)
next
  case (Suc n)
  show ?case
  proof (cases "\<exists>new. r = AtEnd new")
    case True
    then have r: "r = AtEnd msg" using Suc.prems(1) by auto
    then have "fs i = Opened" using Suc.prems(2) by simp
    then have "fs(i := Opened) = fs" by (simp only: fun_upd_idem)
    then show ?thesis unfolding r by (intro exI [of _ 0]) (simp only: replicate_0 steps.steps_nil)
  next
    case False
    obtain r1 where r1: "reader_segment (globals x) r = Inr r1" "run_reader n (globals x) r1 = Inr (AtEnd msg)"
      using Suc.prems(1) by (auto simp: rbind_eq_Inr)
    have "open_segment (globals x) (fst (placed t m p0 r)) (snd (placed t m p0 r)) = Inr (placed t m p0 r1)"
      using placed_segment [of p0 m t "globals x" r] assms r1(1) by (simp add: begun_def res_simps)
    moreover have "fs i = Opening (fst (placed t m p0 r))" using Suc.prems(2) False by (cases r) auto
    ultimately have st: "opens_alone i (x, snd (placed t m p0 r), fs) (Segment i)
        (x, snd (placed t m p0 r1), fs(i := settled (fst (placed t m p0 r1))))"
      by (auto simp: opens_alone_def intro: pstep_segment)
    obtain k where "steps (opens_alone i) (x, snd (placed t m p0 r1), fs(i := settled (fst (placed t m p0 r1))))
        (replicate k (Segment i)) (x, snd (placed t m p0 (AtEnd msg)), fs(i := Opened))"
      using Suc.IH [OF r1(2), of "fs(i := settled (fst (placed t m p0 r1)))"] by (simp only: fun_upd_same fun_upd_upd) blast
    with st have "steps (opens_alone i) (x, snd (placed t m p0 r), fs) (replicate (Suc k) (Segment i))
        (x, snd (placed t m p0 (AtEnd msg)), fs(i := Opened))"
      by (simp only: replicate_Suc) (rule steps_cons)
    then show ?thesis by blast
  qed
qed

text \<open>With memory, an \<open>open\<close> begins at the header.\<close>

lemma open_with_memory:
  assumes "fs i = Closed" and "fresh_bufs (Some t) (Some m) p"
  obtains p0 where "pstep (x, p, fs) (Open i (Some t) (Some m)) (x, p0, fs(i := settled (fst (placed t m p0 AtHeader))))"
    and "begun t m p0" and "p0 = snd (placed t m p0 AtHeader)" and "read_p p0 = 1"
proof -
  obtain pc p0 where b: "begin_open (Some t) (Some m) p = (pc, p0)" by fastforce
  note st = pstep_open [where x = x and i = i and fs = fs, OF assms b]
  from open_begins [OF st] have p0: "begun t m p0" "p0 = snd (placed t m p0 AtHeader)" "read_p p0 = 1"
      "fs(i := settled pc) = fs(i := settled (fst (placed t m p0 AtHeader)))" by auto
  then show thesis using that [of p0] st by (simp only:)
qed

text \<open>An \<open>open\<close> by itself returns 0 if the report fits.\<close>

lemma open_alone:
  assumes "fs i = Closed" and "fresh_bufs (Some t) (Some m) p" and "well_formed (globals x)" and "report_fits (globals x)"
  obtains p0 k q where "pstep (x, p, fs) (Open i (Some t) (Some m)) (x, p0, fs(i := Opening (OHeader (Some t))))"
    and "steps (opens_alone i) (x, p0, fs(i := Opening (OHeader (Some t)))) (replicate k (Segment i)) (x, q, fs(i := Opened))"
    and "message_text q = Some (report (globals x))" and "read_p q = 1"
    and "bufs q = (bufs p)(t := None, m \<mapsto> Some (report (globals x)))"
proof -
  obtain p0 where p0: "pstep (x, p, fs) (Open i (Some t) (Some m)) (x, p0, fs(i := settled (fst (placed t m p0 AtHeader))))"
      "begun t m p0" "p0 = snd (placed t m p0 AtHeader)" "read_p p0 = 1"
    by (rule open_with_memory [where fs = fs and i = i, OF assms(1,2)])
  have "run_reader (length (concat (waiting_list (globals x))) + 22) (globals x) AtHeader = Inr (AtEnd (report (globals x)))"
    unfolding reader_makes_report [OF assms(3)] print_report_eq [OF assms(3)] using assms(4) by simp
  from segments_run [OF p0(2) this, of "fs(i := settled (fst (placed t m p0 AtHeader)))" i]
  obtain k where k: "steps (opens_alone i) (x, snd (placed t m p0 AtHeader), fs(i := settled (fst (placed t m p0 AtHeader))))
      (replicate k (Segment i)) (x, snd (placed t m p0 (AtEnd (report (globals x)))), fs(i := Opened))"
    by (simp only: fun_upd_same fun_upd_upd) blast
  have "bufs p0 = (bufs p)(t \<mapsto> None, m \<mapsto> None)" "t \<noteq> m" using open_begins [OF p0(1)] p0(2) by (simp_all add: begun_def)
  then have "bufs (snd (placed t m p0 (AtEnd (report (globals x))))) = (bufs p)(t := None, m \<mapsto> Some (report (globals x)))"
    by (auto simp: fun_eq_iff)
  with p0(1) k placed_end [OF p0(2,4), of "report (globals x)"] show thesis
    using that [of p0 k "snd (placed t m p0 (AtEnd (report (globals x))))"] p0(3) by simp
qed

section \<open>Properties\<close>


text \<open>A reader opens the file, the scheduler looks for work, the reader reads.\<close>

lemma demo_goes_on: "kstep booted (Sched 0) (AtIdle, \<lambda>_. Ready, boot_state)"
  unfolding booted_def by (rule kstep_sched) (simp add: has_work_def boot_explicit list_empty_def)

lemma demo_opens:
  obtains p0 k q gs where "pstep file_start (Open 1 (Some 1) (Some 2)) (booted, p0, (\<lambda>_. Closed)(1 := Opening (OHeader (Some 1))))"
    and "steps (opens_alone 1) (booted, p0, (\<lambda>_. Closed)(1 := Opening (OHeader (Some 1)))) (replicate k (Segment 1)) (booted, q, gs)"
    and "gs = (\<lambda>_. Closed)(1 := Opened)" and "message_text q = Some (report boot_state)"
    and "read_p q = 1" and "bufs q 3 = None" and "bufs q 4 = None"
proof -
  have f: "fresh_bufs (Some 1) (Some 2) proc_start" by (simp add: fresh_bufs_def proc_start_bufs)
  have "well_formed (globals booted)" "report_fits (globals booted)" using wf_boot fits_boot by (simp_all add: booted_def)
  then obtain p0 k q where "pstep (booted, proc_start, \<lambda>_. Closed) (Open 1 (Some 1) (Some 2))
        (booted, p0, (\<lambda>_. Closed)(1 := Opening (OHeader (Some 1))))"
      "steps (opens_alone 1) (booted, p0, (\<lambda>_. Closed)(1 := Opening (OHeader (Some 1)))) (replicate k (Segment 1))
        (booted, q, (\<lambda>_. Closed)(1 := Opened))"
      "message_text q = Some (report (globals booted))" "read_p q = 1"
      "bufs q = (bufs proc_start)(1 := None, 2 \<mapsto> Some (report (globals booted)))"
    by (rule open_alone [where fs = "\<lambda>_. Closed" and i = 1, OF refl f])
  then show thesis using that by (simp add: file_start_def booted_def proc_start_bufs)
qed




text \<open>
  C27. A report can be of two states at once: after any history, when a reader has written the header
  of its report and the elevator then runs, whatever it does, before the reader goes on, the \<open>open\<close> returns 0 if the
  report fits, and its text is the header of the state before with the floors of the state
  after. It is the report of the one state only if their floors agree, and of the other only if their headers do.
\<close>

theorem report_mixes_two_states:
  assumes "steps pstep file_start es (x, p, fs)" and "fs i = Closed" and "fresh_bufs (Some t) (Some m) p"
    and "steps kstep x ks y" and "\<forall>j \<in> {1..FLOORS}. length (floor_line (globals y) j) < TEMP_SIZE"
    and "length (header_text (globals x) @ concat (map (floor_line (globals y)) (rev [1..FLOORS]))) < ENTRY_SIZE"
  shows "\<exists>n q msg. steps pstep (x, p, fs) ([Open i (Some t) (Some m), Segment i] @ map Elevator ks @ replicate n (Segment i))
      (y, q, fs(i := Opened)) \<and> message_text q = Some msg
    \<and> msg = header_text (globals x) @ concat (map (floor_line (globals y)) (rev [1..FLOORS]))
    \<and> (msg = report (globals x) \<longleftrightarrow> concat (map (floor_line (globals y)) (rev [1..FLOORS]))
          = concat (map (floor_line (globals x)) (rev [1..FLOORS])))
    \<and> (msg = report (globals y) \<longleftrightarrow> header_text (globals x) = header_text (globals y))"
proof -
  let ?h = "header_text (globals x)" and ?f = "\<lambda>s. concat (map (floor_line s) (rev [1..FLOORS]))"
  note w = sessions_well_formed [OF assms(1)]
  have "sys_ok y" by (rule ksys.run_inv [OF assms(4) w(1)])
  then have wy: "well_formed (globals y)" by (auto simp: sys_ok_def)
  obtain p0 where p0: "pstep (x, p, fs) (Open i (Some t) (Some m)) (x, p0, fs(i := settled (fst (placed t m p0 AtHeader))))"
      "begun t m p0" "p0 = snd (placed t m p0 AtHeader)" "read_p p0 = 1"
    by (rule open_with_memory [where fs = fs and i = i, OF assms(2,3)])
  let ?p1 = "snd (placed t m p0 (AtFloor FLOORS ?h))"
  let ?fs = "fs(i := settled (fst (placed t m p0 (AtFloor FLOORS ?h))))"
  have "reader_segment (globals x) AtHeader = Inr (AtFloor FLOORS ?h)" by (simp add: print_header_eq(1) [OF w(2)])
  then have "open_segment (globals x) (fst (placed t m p0 AtHeader)) (snd (placed t m p0 AtHeader))
      = Inr (placed t m p0 (AtFloor FLOORS ?h))"
    using placed_segment [of p0 m t "globals x" AtHeader] p0(2) by (simp add: begun_def)
  then have "pstep (x, p0, fs(i := settled (fst (placed t m p0 AtHeader)))) (Segment i) (x, ?p1, ?fs)"
    using pstep_segment [of "fs(i := settled (fst (placed t m p0 AtHeader)))" i "OHeader (Some t)" x p0] p0(3) by simp
  with p0(1) have first: "steps pstep (x, p, fs) [Open i (Some t) (Some m), Segment i] (x, ?p1, ?fs)" by blast
  have mid: "steps pstep (u, q, hs) (map Elevator ls) (v, q, hs)" if "steps kstep u ls v" for u ls v q hs
    using that by (induction rule: steps.induct) (auto intro: pstep_elevator)
  have "for_each_safe (print_floor (globals y)) (rev [1..10]) ?h = Inr (?h @ ?f (globals y))"
    using print_floors_eq [OF wy, of "rev [1..10]" ?h] assms(5,6) print_header_eq(2) [OF w(2)] by simp
  then have "run_reader (length (concat (waiting_list (globals y))) + 21) (globals y) (AtFloor FLOORS ?h) = Inr (AtEnd (?h @ ?f (globals y)))"
    using reader_makes_floors [OF wy, of ?h] by (simp add: res_simps)
  from segments_run [OF p0(2) this, of ?fs i] obtain n where
    "steps (opens_alone i) (y, ?p1, ?fs) (replicate n (Segment i)) (y, snd (placed t m p0 (AtEnd (?h @ ?f (globals y)))), fs(i := Opened))"
    by (simp only: fun_upd_same fun_upd_upd) blast
  moreover have "steps (opens_alone i) z ds v \<Longrightarrow> steps pstep z ds v" for z ds v
    by (induction rule: steps.induct) (auto simp: opens_alone_def)
  ultimately have last: "steps pstep (y, ?p1, ?fs) (replicate n (Segment i))
      (y, snd (placed t m p0 (AtEnd (?h @ ?f (globals y)))), fs(i := Opened))" by blast
  have "message_text (snd (placed t m p0 (AtEnd (?h @ ?f (globals y))))) = Some (?h @ ?f (globals y))"
    using placed_end [OF p0(2,4)] by blast
  moreover have "report s = header_text s @ ?f s" for s by (simp add: report_def)
  ultimately show ?thesis
    using steps_append [OF first steps_append [OF mid [OF assms(4)] last]]
    by (intro exI [of _ n] exI [of _ "snd (placed t m p0 (AtEnd (?h @ ?f (globals y))))"] exI [of _ "?h @ ?f (globals y)"])
      (simp del: placed.simps)
qed

text \<open>The header shows nobody waiting, the line of floor 1 shows the passenger who asked meanwhile.\<close>

theorem report_mixes_two_states_witness:
  "\<exists>n q msg. steps pstep file_start
      ([Open 1 (Some 1) (Some 2), Segment 1] @ map Elevator demo_events @ replicate n (Segment 1)) ((AtTop, nobody, demo_waiting), q, (\<lambda>_. Closed)(1 := Opened))
    \<and> message_text q = Some msg \<and> msg \<noteq> report boot_state \<and> msg \<noteq> report demo_waiting"
proof -
  let ?f = "\<lambda>s. concat (map (floor_line s) (rev [1..FLOORS]))"
  have start: "steps pstep file_start [] (booted, proc_start, \<lambda>_. Closed)" by (auto simp: file_start_def)
  have f: "fresh_bufs (Some 1) (Some 2) proc_start" by (simp add: fresh_bufs_def proc_start_bufs)
  have q: "\<forall>i < 10. length (waiting_list demo_waiting ! i) \<le> 33" by (simp add: demo_waiting_eq all_below_10)
  note lines = small_queue_floors [OF wf_demo_waiting q]
  have "\<forall>j \<in> {1..FLOORS}. length (floor_line (globals (AtTop, nobody, demo_waiting)) j) < TEMP_SIZE"
    using lines(1) by fastforce
  moreover have "length (header_text (globals booted) @ ?f (globals (AtTop, nobody, demo_waiting))) < ENTRY_SIZE"
    using print_header_eq(2) [OF wf_boot] lines(2) unfolding length_append by (simp add: booted_def)
  ultimately obtain n q msg where m: "steps pstep (booted, proc_start, \<lambda>_. Closed)
        ([Open 1 (Some 1) (Some 2), Segment 1] @ map Elevator demo_events @ replicate n (Segment 1))
        ((AtTop, nobody, demo_waiting), q, (\<lambda>_. Closed)(1 := Opened))" "message_text q = Some msg"
      "msg = report (globals booted) \<longleftrightarrow> ?f (globals (AtTop, nobody, demo_waiting)) = ?f (globals booted)"
      "msg = report (globals (AtTop, nobody, demo_waiting)) \<longleftrightarrow>
         header_text (globals booted) = header_text (globals (AtTop, nobody, demo_waiting))"
    using report_mixes_two_states [OF start refl f demo_request] by blast
  have "length (?f demo_waiting) = 182"
  proof -
    have "length (show_int 0) = 1" "length (show_int 1) = 1" by (simp_all add: show_int_def show_nat.simps)
    moreover have "rev [1..10] = [10, 9, 8, 7, 6, 5, 4, 3, 2, 1 :: int]" by (simp add: upto_rec1)
    ultimately show ?thesis by (simp add: length_floor_line demo_waiting_eq numeral_eq_Suc)
  qed
  then have "?f demo_waiting \<noteq> ?f boot_state" using boot_floors by auto
  moreover have "header_text boot_state \<noteq> header_text demo_waiting"
    by (simp add: header_text_def boot_explicit demo_waiting_eq show_int_def show_nat.simps digit_def)
  ultimately show ?thesis using m by (auto simp: booted_def file_start_def)
qed

section \<open>Readers in turn\<close>

text \<open>A reader who takes the turn: an \<open>open\<close> only comes when nobody has the file open or is opening it.\<close>

definition turn :: "psys \<Rightarrow> pevent \<Rightarrow> psys \<Rightarrow> bool" where
  "turn x e y \<longleftrightarrow> pstep x e y \<and> (\<forall>i tm mm. e = Open i tm mm \<longrightarrow> (\<forall>j. snd (snd x) j = Closed))"

text \<open>The buffers a reader will free, and those of an \<open>open\<close> that got the temporary buffer only.\<close>

fun owned :: "file_state \<Rightarrow> nat" where
  "owned Closed = 0"
| "owned Opened = 1"
| "owned (Opening (OHeader None)) = 1"
| "owned (Opening pc) = 2"

fun leak_gain :: "pevent \<Rightarrow> int" where
  "leak_gain (Open i (Some t) None) = 1"
| "leak_gain e = 0"

fun floor_range :: "reader_pc \<Rightarrow> bool" where
  "floor_range (AtFloor i msg) \<longleftrightarrow> 0 \<le> i \<and> i \<le> 10"
| "floor_range (AtWalk i cur temp msg) \<longleftrightarrow> 1 \<le> i \<and> i \<le> 10"
| "floor_range r \<longleftrightarrow> True"

fun held :: "proc_state \<Rightarrow> file_state \<Rightarrow> bool" where
  "held p Closed \<longleftrightarrow> True"
| "held p Opened \<longleftrightarrow> (\<exists>msg. message_text p = Some msg)"
| "held p (Opening pc) \<longleftrightarrow> pc = OHeader None \<and> (\<exists>m. message p = Some m \<and> bufs p m \<noteq> None)
     \<or> (\<exists>t m p0 r. begun t m p0 \<and> (pc, p) = placed t m p0 r \<and> (\<forall>new. r \<noteq> AtEnd new) \<and> floor_range r)"

definition alone :: "nat \<Rightarrow> (nat \<Rightarrow> file_state) \<Rightarrow> bool" where
  "alone i fs \<longleftrightarrow> (\<forall>j. j \<noteq> i \<longrightarrow> fs j = Closed)"

definition file_ok :: "psys \<Rightarrow> bool" where
  "file_ok = (\<lambda>(x, p, fs). sys_ok x \<and> finite (dom (bufs p)) \<and> (\<exists>i. alone i fs \<and> held p (fs i)))"

definition unowned :: "psys \<Rightarrow> int" where
  "unowned = (\<lambda>(x, p, fs). int (card (dom (bufs p))) - (\<Sum>i | fs i \<noteq> Closed. int (owned (fs i))))"

lemma owned_alone:
  assumes "alone i fs"
  shows "(\<Sum>j | fs j \<noteq> Closed. int (owned (fs j))) = int (owned (fs i))"
proof (cases "fs i = Closed")
  case True
  then have none: "{j. fs j \<noteq> Closed} = {}" using assms unfolding alone_def by (metis (mono_tags) Collect_empty_eq)
  show ?thesis unfolding none True by simp
next
  case False
  then have one: "{j. fs j \<noteq> Closed} = {i}" using assms unfolding alone_def by auto
  show ?thesis unfolding one by simp
qed

lemma alone_update: "alone i fs \<Longrightarrow> alone i (fs(i := v))"
  by (simp add: alone_def)

lemma alone_other: "alone i fs \<Longrightarrow> fs j \<noteq> Closed \<Longrightarrow> j = i"
  by (auto simp: alone_def)

lemma reader_faults:
  assumes w: "well_formed s" and r: "floor_range r" and f: "reader_segment s r = Inl f"
  shows "f = BufferOverflow
    \<or> f = UseAfterFree \<and> (\<exists>k a temp msg. r = AtWalk k (AtEntry a) temp msg \<and> a \<notin> set (waiting_list s ! nat (k - 1)))
    \<or> f = HeadAsEntry \<and> (\<exists>k h temp msg. r = AtWalk k (AtHead h) temp msg \<and> h \<noteq> FloorHead k)"
proof (cases "reader_ok s r")
  case True
  then show ?thesis using segment_fault [OF w _ f] by blast
next
  case False
  show ?thesis
  proof (cases "(s, r)" rule: reader_segment.cases)
    case (3 s k a temp msg)
    then have "a \<notin> set (waiting_list s ! nat (k - 1))" using False r by auto
    moreover have "f \<in> {UseAfterFree, BufferOverflow}"
      using f 3 by (auto simp: rbind_eq_Inl deref_def next_entry_def strcat_def split: option.splits if_splits)
    ultimately show ?thesis using 3 by auto
  next
    case (4 s k h temp msg)
    then show ?thesis using f by (auto simp: rbind_eq_Inl strcat_def split: if_splits)
  qed (use False r f print_header_eq(1) [OF w] in auto)
qed

lemma floor_range_step:
  assumes "reader_segment s r = Inr r'" and "floor_range r"
  shows "floor_range r'"
  using assms by (cases "(s, r)" rule: reader_segment.cases) (auto simp: rbind_eq_Inr split: if_splits)

lemma placed_dom:
  assumes "begun t m p"
  shows "(\<forall>new. r \<noteq> AtEnd new) \<Longrightarrow> dom (bufs (snd (placed t m p r))) = dom (bufs p)"
    and "dom (bufs (snd (placed t m p (AtEnd msg)))) = dom (bufs p) - {t}"
  using assms by (cases r; auto simp: begun_def)+

lemma owned_placed: "(\<forall>new. r \<noteq> AtEnd new) \<Longrightarrow> owned (settled (fst (placed t m p r))) = 2"
  by (cases r) auto

text \<open>A segment of an \<open>open\<close>: it goes on with two buffers, or it has freed one and is at its end.\<close>

lemma held_segment:
  assumes "held p (Opening pc)" and "open_segment s pc p = Inr (pc', p')"
  shows "held p' (settled pc') \<and> (finite (dom (bufs p)) \<longrightarrow> finite (dom (bufs p'))
    \<and> int (card (dom (bufs p'))) - int (owned (settled pc')) = int (card (dom (bufs p))) - int (owned (Opening pc)))"
proof -
  have "pc \<noteq> OHeader None" using assms(2) by auto
  then obtain t m p0 r where b: "begun t m p0" and pl: "(pc, p) = placed t m p0 r"
      and n: "\<forall>new. r \<noteq> AtEnd new" and fr: "floor_range r"
    using assms(1) by auto
  then have "rbind (reader_segment s r) (\<lambda>r. Inr (placed t m p0 r)) = Inr (pc', p')"
    using placed_segment [of p0 m t s r] assms(2) by (simp add: begun_def flip: pl)
  then obtain r' where r': "reader_segment s r = Inr r'" "(pc', p') = placed t m p0 r'"
    by (cases "reader_segment s r") auto
  have d: "dom (bufs p) = dom (bufs p0)" using placed_dom(1) [OF b n] by (simp flip: pl)
  have "pc = fst (placed t m p0 r)" using pl by (metis fst_conv)
  then have o: "owned (Opening pc) = 2" using n by (cases r) auto
  show ?thesis
  proof (cases "\<exists>new. r' = AtEnd new")
    case True
    then obtain new where new: "r' = AtEnd new" by blast
    then have s: "settled pc' = Opened" and p': "p' = snd (placed t m p0 (AtEnd new))" using r'(2) by auto
    have "held p' Opened" using b r'(2) new by (auto simp: begun_def message_text_def)
    moreover have "t \<in> dom (bufs p0)" using b by (auto simp: begun_def)
    moreover have "dom (bufs p') = dom (bufs p0) - {t}" using placed_dom(2) [OF b] p' by simp
    moreover have "int (card (dom (bufs p0) - {t})) = int (card (dom (bufs p0))) - 1" if "finite (dom (bufs p0))"
    proof -
      have "0 < card (dom (bufs p0))" using that \<open>t \<in> dom (bufs p0)\<close> by (auto simp: card_gt_0_iff)
      then show ?thesis using that \<open>t \<in> dom (bufs p0)\<close> by (simp add: card_Diff_singleton of_nat_diff)
    qed
    ultimately show ?thesis unfolding s d o by simp
  next
    case False
    then have s: "settled pc' = Opening pc'" using r'(2) by (cases r') auto
    have "held p' (Opening pc')" using b r'(2) False floor_range_step [OF r'(1) fr] unfolding held.simps by blast
    moreover have "dom (bufs p') = dom (bufs p0)" using placed_dom(1) [OF b, of r'] False by (simp flip: r'(2))
    moreover have "owned (Opening pc') = 2" using owned_placed [of r' t m p0] False s by (simp flip: r'(2))
    ultimately show ?thesis unfolding s d o by simp
  qed
qed

lemma turn_opens:
  assumes "pstep (x, p, fs) (Open i tm mm) (y, q, gs)" and "\<forall>j. fs j = Closed" and "finite (dom (bufs p))"
  shows "alone i gs \<and> held q (gs i) \<and> finite (dom (bufs q))
    \<and> int (card (dom (bufs q))) - int (owned (gs i)) = int (card (dom (bufs p))) + leak_gain (Open i tm mm)"
proof -
  note b = open_begins [OF assms(1)]
  have a: "alone i fs" using assms(2) by (simp add: alone_def)
  show ?thesis
  proof (cases tm; cases mm)
    fix t m assume tm: "tm = Some t" and mm: "mm = Some m"
    with b have q: "begun t m q" "q = snd (placed t m q AtHeader)" "bufs q = (bufs p)(t \<mapsto> None, m \<mapsto> None)"
        "gs = fs(i := settled (fst (placed t m q AtHeader)))" "fresh_bufs tm mm p" by auto
    then have "t \<notin> dom (bufs p)" "m \<notin> dom (bufs p)" "t \<noteq> m" using tm mm by (auto simp: fresh_bufs_def)
    then have "card (dom (bufs q)) = Suc (Suc (card (dom (bufs p))))"
      using assms(3) unfolding q(3) by (simp add: card_insert_disjoint)
    moreover have "held q (Opening (OHeader (Some t)))"
      using q(1) unfolding held.simps by (intro disjI2 exI [of _ t] exI [of _ m] exI [of _ q] exI [of _ AtHeader]) simp
    moreover have "finite (dom (bufs q))" using assms(3) unfolding q(3) by simp
    moreover have "gs i = Opening (OHeader (Some t))" "alone i gs" using q(4) alone_update [OF a] by simp_all
    ultimately show ?thesis using tm mm by simp
  next
    fix m assume tm: "tm = None" and mm: "mm = Some m"
    with b have q: "gs = fs(i := Opening (OHeader None))" "message q = Some m" "bufs q = (bufs p)(m \<mapsto> None)"
        "fresh_bufs tm mm p" by auto
    then have "m \<notin> dom (bufs p)" using tm mm by (auto simp: fresh_bufs_def)
    then show ?thesis using q alone_update [OF a] assms(3) tm by (simp add: card_insert_disjoint)
  next
    fix t assume tm: "tm = Some t" and mm: "mm = None"
    with b have q: "gs = fs(i := Closed)" "bufs q = (bufs p)(t \<mapsto> None)" "fresh_bufs tm mm p" by auto
    then have "t \<notin> dom (bufs p)" using tm mm by (auto simp: fresh_bufs_def)
    then show ?thesis using q alone_update [OF a] assms(3) tm mm by (simp add: card_insert_disjoint)
  next
    assume "tm = None" "mm = None"
    then show ?thesis using b alone_update [OF a] assms(3) by simp
  qed
qed

lemma unowned_alone: "alone i fs \<Longrightarrow> unowned (x, p, fs) = int (card (dom (bufs p))) - int (owned (fs i))"
  by (simp add: unowned_def owned_alone)

lemma turn_step:
  assumes "turn z e w" and "file_ok z"
  shows "file_ok w \<and> unowned w = unowned z + leak_gain e"
proof -
  have st: "pstep z e w" using assms(1) by (simp add: turn_def)
  obtain x p fs y q gs where zw: "z = (x, p, fs)" "w = (y, q, gs)" by (cases z, cases w)
  obtain i where i: "alone i fs" "held p (fs i)" and f: "finite (dom (bufs p))" and ok: "sys_ok x"
    using assms(2) by (auto simp: file_ok_def zw)
  from st show ?thesis
  proof (cases e)
    case (Elevator k)
    then have "kstep x k y" "q = p" "gs = fs" using st by (auto simp: zw elim: pstep_elevatorE)
    then show ?thesis using Elevator i f ok ksys.step_inv by (auto simp: zw file_ok_def unowned_def)
  next
    case (Open j tm mm)
    then have c: "\<forall>k. fs k = Closed" using assms(1) by (auto simp: turn_def zw)
    have o: "pstep (x, p, fs) (Open j tm mm) (y, q, gs)" using st by (simp add: Open zw)
    note t = turn_opens [OF o c f]
    have "y = x" using open_begins [OF o] by blast
    moreover have "unowned z = int (card (dom (bufs p)))" using unowned_alone [OF i(1), of x p] c by (simp add: zw)
    ultimately show ?thesis
      using t ok unowned_alone [of j gs y q] by (auto simp: zw file_ok_def Open)
  next
    case (Segment j)
    then obtain pc pc' where pc: "fs j = Opening pc" "open_segment (globals x) pc p = Inr (pc', q)" "y = x" "gs = fs(j := settled pc')"
      using st by (auto simp: zw elim!: pstep_segmentE)
    have j: "j = i" using alone_other [OF i(1), of j] pc(1) by simp
    have h: "held p (Opening pc)" using i(2) pc(1) j by simp
    have "alone i gs" "gs i = settled pc'" using pc(4) j alone_update [OF i(1)] by simp_all
    then show ?thesis
      using held_segment [OF h pc(2)] f ok pc(1,3) j unowned_alone [OF i(1), of x p] unowned_alone [of i gs y q]
      by (auto simp: zw file_ok_def Segment)
  next
    case (Read j sz r)
    then have r: "fs j = Opened" "elevator_proc_read sz p = Inr (r, q)" "y = x" "gs = fs"
      using st by (auto simp: zw elim: pstep_readE)
    then have j: "j = i" using alone_other [OF i(1), of j] by simp
    then obtain msg where "message_text p = Some msg" using i(2) r(1) by auto
    then have "message_text q = Some msg" "bufs q = bufs p" using r(2) opened_read [of p msg sz] by auto
    then show ?thesis using r i f ok j by (auto simp: zw file_ok_def unowned_def Read)
  next
    case (Release j)
    then obtain r where r: "fs j = Opened" "elevator_proc_release p = Inr (r, q)" "y = x" "gs = fs(j := Closed)"
      using st by (auto simp: zw elim: pstep_releaseE)
    then have j: "j = i" using alone_other [OF i(1), of j] by simp
    then obtain m msg where m: "message p = Some m" "bufs p m = Some (Some msg)"
      using i(2) r(1) by (auto simp: message_text_Some)
    then have q: "q = p\<lparr>bufs := (bufs p)(m := None)\<rparr>"
      using r(2) by (simp add: elevator_proc_release_def kfree_def res_simps)
    have "0 < card (dom (bufs p))" "m \<in> dom (bufs p)" using m f by (auto simp: card_gt_0_iff)
    then have "int (card (dom (bufs q))) = int (card (dom (bufs p))) - 1"
      using f by (simp add: q card_Diff_singleton of_nat_diff)
    moreover have "alone i gs" "gs i = Closed" "finite (dom (bufs q))"
      using r(4) j alone_update [OF i(1)] f by (simp_all add: q)
    ultimately show ?thesis
      using r(1,3) ok j unowned_alone [OF i(1), of x p] unowned_alone [of i gs y q] by (auto simp: zw file_ok_def Release)
  qed
qed

interpretation turns: tally turn file_ok unowned leak_gain 0
  by unfold_locales (use turn_step in auto)

lemma file_ok_start: "file_ok file_start" "unowned file_start = 0"
  using sys_ok_booted by (auto simp: file_ok_def unowned_def file_start_def proc_start_def alone_def)

text \<open>
  C33. Readers who take turns: if nobody opens the file while another has it open or is opening
  it, then over any number of sessions and whatever the elevator does, between the segments of
  an \<open>open\<close> too, no \<open>read\<close> and no \<open>release\<close> faults. What is
  allocated is the message of the reader who has the file open, or the two buffers of the reader who is opening
  it (one, if the temporary one was not allocated), and one temporary buffer for each \<open>open\<close> that answered
  \<open>-ENOMEM\<close>, which nobody ever frees. An \<open>open\<close> faults at most on a temporary buffer that was not
  allocated, by overrunning a buffer, or when it stands at a passenger who is no longer in the
  queue it walks along, or at the head of another list.
\<close>

theorem readers_in_turn_are_safe:
  assumes "steps turn file_start es (x, p, fs)"
  shows "\<exists>i. (\<forall>j. j \<noteq> i \<longrightarrow> fs j = Closed)
    \<and> int (card (dom (bufs p))) = int (owned (fs i)) + sum_list (map leak_gain es)
    \<and> (fs i = Opened \<longrightarrow> (\<forall>sz. \<exists>r p'. elevator_proc_read sz p = Inr (r, p'))
          \<and> (\<exists>p'. elevator_proc_release p = Inr (0, p')))
    \<and> (\<forall>pc f. fs i = Opening pc \<longrightarrow> open_segment (globals x) pc p = Inl f \<longrightarrow>
          f = NullDeref \<and> pc = OHeader None \<or> f = BufferOverflow
        \<or> f = UseAfterFree \<and> (\<exists>t k a temp. pc = OWalk t k (AtEntry a) temp \<and> a \<notin> set (waiting_list (globals x) ! nat (k - 1)))
        \<or> f = HeadAsEntry \<and> (\<exists>t k h temp. pc = OWalk t k (AtHead h) temp \<and> h \<noteq> FloorHead k))"
proof -
  have ok: "file_ok (x, p, fs)" by (rule turns.run_inv [OF assms file_ok_start(1)])
  then obtain i where i: "alone i fs" "held p (fs i)" and w: "well_formed (globals x)"
    by (auto simp: file_ok_def sys_ok_def)
  have "unowned (x, p, fs) = sum_list (map leak_gain es)"
    using turns.run_weight [OF assms file_ok_start(1)] file_ok_start(2) by simp
  then have mem: "int (card (dom (bufs p))) = int (owned (fs i)) + sum_list (map leak_gain es)"
    using unowned_alone [OF i(1), of x p] by simp
  have calls: "(\<forall>sz. \<exists>r p'. elevator_proc_read sz p = Inr (r, p')) \<and> (\<exists>p'. elevator_proc_release p = Inr (0, p'))"
    if o: "fs i = Opened"
  proof -
    obtain msg where msg: "message_text p = Some msg" using i(2) o by auto
    then have "\<exists>p'. elevator_proc_release p = Inr (0, p')"
      by (auto simp: message_text_Some elevator_proc_release_def kfree_def res_simps)
    then show ?thesis using opened_read [OF msg] by simp
  qed
  have faults: "f = NullDeref \<and> pc = OHeader None \<or> f = BufferOverflow
      \<or> f = UseAfterFree \<and> (\<exists>t k a temp. pc = OWalk t k (AtEntry a) temp \<and> a \<notin> set (waiting_list (globals x) ! nat (k - 1)))
      \<or> f = HeadAsEntry \<and> (\<exists>t k h temp. pc = OWalk t k (AtHead h) temp \<and> h \<noteq> FloorHead k)"
    if o: "fs i = Opening pc" and f: "open_segment (globals x) pc p = Inl f" for pc f
  proof (cases "pc = OHeader None")
    case False
    then obtain t m p0 r where r: "begun t m p0" "(pc, p) = placed t m p0 r" "floor_range r"
      using i(2) unfolding o held.simps by blast
    have "rbind (reader_segment (globals x) r) (\<lambda>r. Inr (placed t m p0 r)) = Inl f"
      using placed_segment [of p0 m t "globals x" r] r(1) f by (simp add: begun_def flip: r(2))
    then have "reader_segment (globals x) r = Inl f" by (cases "reader_segment (globals x) r") simp_all
    from reader_faults [OF w r(3) this] show ?thesis using r(2) by auto
  qed (use f in simp)
  show ?thesis using i(1) mem calls faults unfolding alone_def by blast
qed

text \<open>A reader has opened the file, and the elevator has gone on.\<close>

lemma demo_turn:
  obtains es q gs where "steps turn file_start es (booted, q, gs)" and "gs = (\<lambda>_. Closed)(1 := Opened)"
    and "map leak_gain es = map (\<lambda>_. 0) es" and "bufs q 3 = None" and "bufs q 4 = None"
proof -
  obtain p0 k q gs where o: "pstep file_start (Open 1 (Some 1) (Some 2)) (booted, p0, (\<lambda>_. Closed)(1 := Opening (OHeader (Some 1))))"
      "steps (opens_alone 1) (booted, p0, (\<lambda>_. Closed)(1 := Opening (OHeader (Some 1)))) (replicate k (Segment 1)) (booted, q, gs)"
      "gs = (\<lambda>_. Closed)(1 := Opened)" "bufs q 3 = None" "bufs q 4 = None"
    by (rule demo_opens)
  have first: "turn file_start (Open 1 (Some 1) (Some 2)) (booted, p0, (\<lambda>_. Closed)(1 := Opening (OHeader (Some 1))))"
    using o(1) by (simp add: turn_def file_start_def)
  have "steps (opens_alone 1) z ds w \<Longrightarrow> steps turn z ds w" for z ds w
  proof (induction rule: steps.induct)
    case (steps_cons z e w ds v)
    then have "turn z e w" by (cases e) (simp_all add: opens_alone_def turn_def)
    then show ?case using steps_cons by blast
  qed auto
  then have run: "steps turn file_start (Open 1 (Some 1) (Some 2) # replicate k (Segment 1)) (booted, q, gs)"
    using first o(2) by blast
  show thesis by (rule that [OF run o(3) _ o(4,5)]) simp
qed

theorem readers_in_turn_are_safe_witness:
  "\<exists>es q gs. steps turn file_start es (booted, q, gs) \<and> gs 1 = Opened \<and> card (dom (bufs q)) = 1
    \<and> (\<exists>p'. elevator_proc_release q = Inr (0, p'))"
proof -
  obtain es q gs where run: "steps turn file_start es (booted, q, gs)" and gs: "gs = (\<lambda>_. Closed)(1 := Opened)"
    and leak: "map leak_gain es = map (\<lambda>_. 0) es"
    by (rule demo_turn)
  obtain i where i: "\<forall>j. j \<noteq> i \<longrightarrow> gs j = Closed"
      "int (card (dom (bufs q))) = int (owned (gs i)) + sum_list (map leak_gain es)"
      "gs i = Opened \<longrightarrow> (\<exists>p'. elevator_proc_release q = Inr (0, p'))"
    using readers_in_turn_are_safe [OF run] by blast
  have "gs 1 = Opened" by (simp add: gs)
  moreover from this i(1) have "i = 1" by (metis file_state.distinct(3))
  moreover have "sum_list (map leak_gain es) = 0" unfolding leak by simp
  ultimately have "card (dom (bufs q)) = 1" "\<exists>p'. elevator_proc_release q = Inr (0, p')" using i(2,3) by auto
  with run \<open>gs 1 = Opened\<close> show ?thesis by blast
qed

end
