(* ===== verification/ReadersAtExit.thy ===== *)
theory ReadersAtExit
  imports Sessions ModuleInit
begin

text \<open>
  \<open>elevator_exit\<close> under readers: the file operations name no owner, so an open
  \<open>/proc/elevator\<close> does not keep the module from being unloaded. \<open>remove_proc_entry\<close>, the last call
  of the exit, is the kernel's: for every file still open it calls the module's \<open>release\<close>. How often
  it does so for a number of open files is the parameter \<open>closes\<close>.
\<close>

section \<open>The exit with the proc file\<close>

fun release_files :: "nat \<Rightarrow> proc_state \<Rightarrow> fault + proc_state" where
  "release_files 0 p = Inr p"
| "release_files (Suc n) p = rbind (elevator_proc_release p) (\<lambda>(r, p). release_files n p)"

definition unload_with_readers ::
  "(nat \<Rightarrow> nat) \<Rightarrow> nat \<Rightarrow> nat \<Rightarrow> int \<Rightarrow> module_state \<times> proc_state \<Rightarrow> fault + (module_state \<times> proc_state)" where
  "unload_with_readers closes n me lk = (\<lambda>(m, p).
     rbind (elevator_exit me lk m) (\<lambda>m.
     rbind (release_files (closes n) p) (\<lambda>p. Inr (m\<lparr>mapped := False\<rparr>, p))))"

lemma exit_of_well_formed:
  assumes "well_formed (kst m)"
  obtains m' where "elevator_exit me 0 m = Inr m'" and "heap (kst m') = Map.empty"
  using removeAllPassengers_eq [OF assms, of me] by (auto simp: elevator_exit_def Let_def res_simps emptied_state_def)

lemma release_opened:
  assumes "message p = Some m" and "bufs p m = Some t"
  shows "elevator_proc_release p = Inr (0, p\<lparr>bufs := (bufs p)(m := None)\<rparr>)"
  using assms by (simp add: elevator_proc_release_def kfree_def res_simps)

lemma files_released_twice:
  assumes "message p = Some m" and "bufs p m = Some t"
  shows "release_files (Suc (Suc k)) p = Inl DoubleFree"
  by (simp add: release_opened [OF assms] res_simps) (simp add: elevator_proc_release_def kfree_def res_simps assms(1))

text \<open>The files that are open.\<close>

definition open_files :: "(nat \<Rightarrow> file_state) \<Rightarrow> nat" where
  "open_files fs = card {i. fs i = Opened}"

lemma open_files_alone: "alone i fs \<Longrightarrow> open_files fs = (if fs i = Opened then 1 else 0)"
proof -
  assume "alone i fs"
  then have "{j. fs j = Opened} = (if fs i = Opened then {i} else {})" by (auto simp: alone_def)
  then show ?thesis by (simp add: open_files_def)
qed

lemma open_files_second:
  assumes "alone i fs" and "fs i = Opened" and "j \<noteq> i"
  shows "open_files (fs(j := Opened)) = 2"
proof -
  have "{k. (fs(j := Opened)) k = Opened} = {i, j}" using assms by (auto simp: alone_def)
  then show ?thesis using assms(3) by (simp add: open_files_def)
qed

section \<open>Properties\<close>

text \<open>
  C34. Readers at an unload, when the kernel closes each open file once and no \<open>open\<close> is in progress, for
  which it waits: after any history of readers
  who take turns the exit ends, with nobody reading or with one reader who has the file open; all
  passengers and the message are freed, and only the temporary buffers of opens without memory
  are left. If a second reader has opened the file meanwhile, with any steps of the elevator in between, the exit
  frees the message twice.
\<close>

theorem readers_at_unload:
  assumes "\<And>k. closes k = k" and "steps turn file_start es (x, p, fs)" and "\<forall>i pc. fs i \<noteq> Opening pc"
    and "kst m = globals x"
  shows "(\<exists>m' p'. unload_with_readers closes (open_files fs) me 0 (m, p) = Inr (m', p') \<and> \<not> mapped m'
        \<and> heap (kst m') = Map.empty \<and> int (card (dom (bufs p'))) = sum_list (map leak_gain es))
    \<and> (fs i = Opened \<longrightarrow> pstep (x, p, fs) (Open j tm mm) z \<longrightarrow> steps (opens_alone j) z ds (y, q, gs) \<longrightarrow>
        gs j = Opened \<longrightarrow> kst m2 = globals y \<longrightarrow>
        unload_with_readers closes (open_files gs) me 0 (m2, q) = Inl DoubleFree)"
proof -
  have ok: "file_ok (x, p, fs)" by (rule turns.run_inv [OF assms(2) file_ok_start(1)])
  then obtain k where k: "alone k fs" "held p (fs k)" and fin: "finite (dom (bufs p))" and sys: "sys_ok x"
    by (auto simp: file_ok_def)
  have un: "unowned (x, p, fs) = sum_list (map leak_gain es)"
    using turns.run_weight [OF assms(2) file_ok_start(1)] file_ok_start(2) by simp
  then have un: "int (card (dom (bufs p))) - int (owned (fs k)) = sum_list (map leak_gain es)"
    using unowned_alone [OF k(1), of x p] by simp
  have "well_formed (kst m)" using sys assms(4) by (auto simp: sys_ok_def)
  then obtain m' where m': "elevator_exit me 0 m = Inr m'" "heap (kst m') = Map.empty" by (rule exit_of_well_formed)
  have "\<exists>p'. release_files (open_files fs) p = Inr p' \<and> int (card (dom (bufs p'))) = sum_list (map leak_gain es)"
  proof (cases "fs k")
    case Closed
    then show ?thesis using un open_files_alone [OF k(1)] by simp
  next
    case Opened
    then obtain b msg where b: "message p = Some b" "bufs p b = Some (Some msg)"
      using k(2) by (auto simp: message_text_Some)
    have "b \<in> dom (bufs p)" "0 < card (dom (bufs p))" using b fin by (auto simp: card_gt_0_iff)
    then have "int (card (dom (bufs p) - {b})) = sum_list (map leak_gain es)"
      using un Opened fin by (simp add: card_Diff_singleton of_nat_diff)
    then show ?thesis
      using Opened open_files_alone [OF k(1)] by (simp add: release_opened [OF b] res_simps)
  qed (use assms(3) in simp)
  moreover have "unload_with_readers closes (open_files gs) me 0 (m2, q) = Inl DoubleFree"
    if first: "fs i = Opened" and second: "pstep (x, p, fs) (Open j tm mm) z" "steps (opens_alone j) z ds (y, q, gs)"
      and opened: "gs j = Opened" and m2: "kst m2 = globals y"
  proof -
    obtain t b p0 msg where o: "begun t b p0" "q = snd (placed t b p0 (AtEnd msg))" "gs = fs(j := Opened)"
      by (rule open_ends [OF second opened])
    have "message q = Some b" "bufs q b = Some (Some msg)" using o(1) unfolding o(2) by (auto simp: begun_def)
    note twice = files_released_twice [OF this, of 0]
    have "i = k" "fs j = Closed" using alone_other [OF k(1)] first second(1) by (auto elim!: pstep_openE)
    then have "open_files gs = Suc (Suc 0)"
      using open_files_second [OF k(1), of j] first by (cases "j = k") (simp_all add: o(3))
    moreover have "steps (opens_alone j) u es v \<Longrightarrow> steps pstep u es v" for u es v
      by (induction rule: steps.induct) (auto simp: opens_alone_def)
    then have "sys_ok (fst (y, q, gs))"
      using sessions_ok [of z ds "(y, q, gs)"] second sessions_ok [OF steps_one [of pstep, OF second(1)]] sys by simp
    then have "well_formed (kst m2)" by (auto simp: sys_ok_def m2)
    then obtain m3 where "elevator_exit me 0 m2 = Inr m3" by (rule exit_of_well_formed)
    ultimately show ?thesis using twice by (simp add: unload_with_readers_def assms(1))
  qed
  ultimately show ?thesis using m' by (auto simp: unload_with_readers_def assms(1) res_simps)
qed

text \<open>One reader, and then a second one; the kernel closes each.\<close>

theorem readers_at_unload_witness:
  "\<exists>es p fs. steps turn file_start es (booted, p, fs) \<and> fs 1 = Opened
    \<and> (\<exists>m' p'. unload_with_readers (\<lambda>k. k) (open_files fs) 5 0 (no_module\<lparr>kst := boot_state\<rparr>, p) = Inr (m', p')
          \<and> card (dom (bufs p')) = 0)
    \<and> (\<exists>z ds q gs. pstep (booted, p, fs) (Open 2 (Some 3) (Some 4)) z \<and> steps (opens_alone 2) z ds (booted, q, gs)
          \<and> unload_with_readers (\<lambda>k. k) (open_files gs) 5 0 (no_module\<lparr>kst := boot_state\<rparr>, q) = Inl DoubleFree)"
proof -
  let ?m = "no_module\<lparr>kst := boot_state\<rparr>"
  obtain es p fs where run: "steps turn file_start es (booted, p, fs)" and fs: "fs = (\<lambda>_. Closed)(1 := Opened)"
    and leak: "map leak_gain es = map (\<lambda>_. 0) es" and free: "bufs p 3 = None" "bufs p 4 = None"
    by (rule demo_turn)
  have none: "\<forall>i pc. fs i \<noteq> Opening pc" and one: "fs 1 = Opened" by (simp_all add: fs)
  have k: "kst ?m = globals booted" by (simp add: booted_def)
  have wf: "well_formed (globals booted)" "report_fits (globals booted)" using wf_boot fits_boot by (simp_all add: booted_def)
  have f: "fs 2 = Closed" "fresh_bufs (Some 3) (Some 4) p" using free by (simp_all add: fs fresh_bufs_def)
  obtain p0 n q where o: "pstep (booted, p, fs) (Open 2 (Some 3) (Some 4)) (booted, p0, fs(2 := Opening (OHeader (Some 3))))"
      "steps (opens_alone 2) (booted, p0, fs(2 := Opening (OHeader (Some 3)))) (replicate n (Segment 2)) (booted, q, fs(2 := Opened))"
    by (rule open_alone [where fs = fs and i = 2, OF f wf])
  note at_unload = readers_at_unload [of "\<lambda>k. k", OF refl run none k, where me = 5]
  have "sum_list (map leak_gain es) = 0" unfolding leak by simp
  then have "\<exists>m' p'. unload_with_readers (\<lambda>k. k) (open_files fs) 5 0 (?m, p) = Inr (m', p') \<and> card (dom (bufs p')) = 0"
    using conjunct1 [OF at_unload] by fastforce
  moreover have "unload_with_readers (\<lambda>k. k) (open_files (fs(2 := Opened))) 5 0 (?m, q) = Inl DoubleFree"
    using conjunct2 [OF at_unload] one o k by fastforce
  ultimately show ?thesis using run one o by blast
qed

end
