(* ===== verification/UserPrograms.thy ===== *)
theory UserPrograms
  imports ModuleInit CString "HOL-Library.Sublist"
begin

text \<open>
  The user programs: the wrappers around \<open>syscall\<close>, \<open>consumer\<close> (starts or stops the elevator)
  and \<open>producer\<close> (issues one random request). A program's result is its exit status, what it
  printed, and the state of the module after it. The results of \<open>rand\<close> are a parameter.
\<close>

section \<open>Wrappers\<close>

datatype entry = StartEntry | RequestEntry | StopEntry

text \<open>The three rows that were added to the system call table.\<close>

definition syscall_table :: "int \<Rightarrow> entry option" where
  "syscall_table n =
     (if n = 335 then Some StartEntry
      else if n = 336 then Some RequestEntry
      else if n = 337 then Some StopEntry
      else None)"

definition NR_START_ELEVATOR :: int where [simp]: "NR_START_ELEVATOR = 335"
definition NR_ISSUE_REQUEST :: int where [simp]: "NR_ISSUE_REQUEST = 336"
definition NR_STOP_ELEVATOR :: int where [simp]: "NR_STOP_ELEVATOR = 337"

text \<open>What the environment decides for a call: the thread, its lock and its allocation.\<close>

record call_env =
  who :: nat
  lock_result :: int
  memory :: "addr option"

definition kernel_call ::
  "call_env \<Rightarrow> entry \<Rightarrow> int \<times> int \<times> int \<Rightarrow> module_state \<Rightarrow> fault + (int \<times> module_state)" where
  "kernel_call env en = (\<lambda>(a, b, c) m.
     case en of
       StartEntry \<Rightarrow> sys_start_elevator m
     | RequestEntry \<Rightarrow> sys_issue_request (who env) (lock_result env) (memory env) a b c m
     | StopEntry \<Rightarrow> sys_stop_elevator (who env) (lock_result env) m)"

text \<open>
  The library's \<open>syscall\<close>: an error number comes back as -1. A number outside the three rows is
  no call of this program; it answers -1 like every unknown number.
\<close>

definition syscall ::
  "call_env \<Rightarrow> int \<Rightarrow> int \<times> int \<times> int \<Rightarrow> module_state \<Rightarrow> fault + (int \<times> module_state)" where
  "syscall env n args m =
     (case syscall_table n of
        None \<Rightarrow> Inr (- 1, m)
      | Some en \<Rightarrow> rbind (kernel_call env en args m) (\<lambda>(r, m).
          Inr (if - 4096 < r \<and> r < 0 then - 1 else r, m)))"

definition user_start :: "call_env \<Rightarrow> module_state \<Rightarrow> fault + (int \<times> module_state)" where
  "user_start env m =
     rbind (syscall env NR_START_ELEVATOR (0, 0, 0) m) (\<lambda>(r, m). Inr (wrap32 r, m))"

definition user_request ::
  "call_env \<Rightarrow> int \<Rightarrow> int \<Rightarrow> int \<Rightarrow> module_state \<Rightarrow> fault + (int \<times> module_state)" where
  "user_request env start dest type m =
     rbind (syscall env NR_ISSUE_REQUEST (start, dest, type) m) (\<lambda>(r, m). Inr (wrap32 r, m))"

definition user_stop :: "call_env \<Rightarrow> module_state \<Rightarrow> fault + (int \<times> module_state)" where
  "user_stop env m =
     rbind (syscall env NR_STOP_ELEVATOR (0, 0, 0) m) (\<lambda>(r, m). Inr (wrap32 r, m))"

section \<open>consumer\<close>

definition consumer_main ::
  "call_env \<Rightarrow> string list \<Rightarrow> module_state \<Rightarrow> fault + (int \<times> string \<times> module_state)" where
  "consumer_main env argv m =
     (if length argv \<noteq> 2 then Inr (- 1, ''wrong number of args'' @ newline, m)
      else if argv ! 1 = ''--start'' then
        rbind (user_start env m) (\<lambda>(ret, m).
          Inr (0, ''Start elevator returned '' @ show_int ret @ newline, m))
      else if argv ! 1 = ''--stop'' then
        rbind (user_stop env m) (\<lambda>(ret, m).
          Inr (0, ''Stop elevator returned '' @ show_int ret @ newline, m))
      else Inr (- 1, [], m))"

section \<open>producer\<close>

text \<open>\<open>rand\<close> returns a non-negative number.\<close>

definition rnd :: "int \<Rightarrow> int \<Rightarrow> nat \<Rightarrow> int" where
  "rnd lo hi rand = int rand mod (hi - lo + 1) + lo"

text \<open>The \<open>do\<close> loop: \<open>k\<close> is the number of \<open>rand\<close> results used so far.\<close>

partial_function (option) pick_dest :: "(nat \<Rightarrow> nat) \<Rightarrow> int \<Rightarrow> nat \<Rightarrow> (int \<times> nat) option" where
  "pick_dest rands start k =
     (let dest = rnd 1 10 (rands k)
      in if dest = start then pick_dest rands start (Suc k) else Some (dest, Suc k))"

definition producer_main ::
  "call_env \<Rightarrow> (nat \<Rightarrow> nat) \<Rightarrow> string list \<Rightarrow> module_state
     \<Rightarrow> (fault + (int \<times> string \<times> module_state)) option" where
  "producer_main env rands argv m =
     (if length argv \<noteq> 1 then Some (Inr (- 1, ''wrong number of args'' @ newline, m))
      else
        let type = rnd 0 1 (rands 0); start = rnd 1 10 (rands 1)
        in (case pick_dest rands start 2 of
              None \<Rightarrow> None
            | Some (dest, _) \<Rightarrow> Some (
                rbind (user_request env start dest type m) (\<lambda>(ret, m).
                  Inr (0, ''Issue ('' @ show_int start @ '', '' @ show_int dest @ '', ''
                            @ show_int type @ '') returned '' @ show_int ret @ newline, m)))))"

section \<open>The loop of producer\<close>

lemma rnd_range: "lo \<le> hi \<Longrightarrow> lo \<le> rnd lo hi r \<and> rnd lo hi r \<le> hi"
  using pos_mod_bound [of "hi - lo + 1" "int r"] by (simp add: rnd_def)

lemma pick_dest_returns:
  "k \<le> i \<Longrightarrow> rnd 1 10 (rands i) \<noteq> start \<Longrightarrow> \<exists>dest j. pick_dest rands start k = Some (dest, j)"
proof (induction "i - k" arbitrary: k)
  case 0
  then show ?case by (subst pick_dest.simps) simp
next
  case (Suc n)
  then show ?case using Suc.hyps(1) [of "Suc k"] by (subst pick_dest.simps) (simp add: Let_def)
qed

lemma pick_dest_result:
  assumes "pick_dest rands start k = Some r"
  shows "fst r \<noteq> start \<and> k < snd r \<and> fst r = rnd 1 10 (rands (snd r - 1))
    \<and> (\<forall>i. k \<le> i \<and> i < snd r - 1 \<longrightarrow> rnd 1 10 (rands i) = start)"
  (is "?P rands start k r")
proof (rule pick_dest.raw_induct [where P = ?P, OF _ assms])
  fix pick :: "(nat \<Rightarrow> nat) \<Rightarrow> int \<Rightarrow> nat \<Rightarrow> (int \<times> nat) option" and rands start k r
  assume ih: "\<And>rands start k r. pick rands start k = Some r \<Longrightarrow> ?P rands start k r"
    and r: "(let dest = rnd 1 10 (rands k)
       in if dest = start then pick rands start (Suc k) else Some (dest, Suc k)) = Some r"
  show "?P rands start k r"
  proof (cases "rnd 1 10 (rands k) = start")
    case True
    then have "pick rands start (Suc k) = Some r" using r by (simp add: Let_def)
    then have p: "?P rands start (Suc k) r" by (rule ih)
    have "rnd 1 10 (rands i) = start" if "k \<le> i" "i < snd r - 1" for i
      using p True that by (cases "i = k") auto
    then show ?thesis using p by auto
  qed (use r in \<open>auto simp: Let_def\<close>)
qed

lemma show_small: "show_int 0 = ''0''" "show_int 1 = ''1''" "show_int (- 1) = ''-1''"
  by (simp_all add: show_int_def show_nat.simps digit_def)

section \<open>Properties\<close>

text \<open>
  Termination of \<open>producer\<close>: it comes to an end exactly when some later result of \<open>rand\<close>
  gives a floor other than the start floor.
\<close>

lemma producer_ends_iff:
  assumes "length argv = 1"
  shows "producer_main env rands argv m \<noteq> None
    \<longleftrightarrow> (\<exists>k \<ge> 2. rnd 1 10 (rands k) \<noteq> rnd 1 10 (rands 1))"
proof -
  have "pick_dest rands start 2 \<noteq> None \<longleftrightarrow> (\<exists>k \<ge> 2. rnd 1 10 (rands k) \<noteq> start)" for start
  proof
    assume "pick_dest rands start 2 \<noteq> None"
    then obtain r where r: "pick_dest rands start 2 = Some r" by blast
    show "\<exists>k \<ge> 2. rnd 1 10 (rands k) \<noteq> start"
      using pick_dest_result [OF r] by (intro exI [of _ "snd r - 1"]) auto
  next
    assume "\<exists>k \<ge> 2. rnd 1 10 (rands k) \<noteq> start"
    then obtain k where "2 \<le> k" "rnd 1 10 (rands k) \<noteq> start" by auto
    then show "pick_dest rands start 2 \<noteq> None" using pick_dest_returns [of 2 k rands start] by auto
  qed
  moreover have "producer_main env rands argv m \<noteq> None
      \<longleftrightarrow> pick_dest rands (rnd 1 10 (rands 1)) 2 \<noteq> None"
    using assms by (simp add: producer_main_def Let_def split: option.split)
  ultimately show ?thesis by blast
qed

definition demo_rands :: "nat \<Rightarrow> nat" where
  "demo_rands k = (if k = 0 then 7 else if k = 1 then 13 else if k = 2 then 23 else 18)"

definition demo_env :: call_env where
  "demo_env = \<lparr>who = 5, lock_result = 0, memory = Some 11\<rparr>"

lemma demo_rands_differ: "\<exists>k \<ge> 2. rnd 1 10 (demo_rands k) \<noteq> rnd 1 10 (demo_rands 1)"
  by (intro exI [of _ 3]) (simp add: demo_rands_def rnd_def)

lemma producer_ends_iff_witness:
  "producer_main demo_env demo_rands [''producer''] demo_module \<noteq> None"
  using producer_ends_iff [of "[''producer'']" demo_env demo_rands demo_module] demo_rands_differ by simp

lemma producer_accepted:
  assumes "length argv = 1" and "\<exists>k \<ge> 2. rnd 1 10 (rands k) \<noteq> rnd 1 10 (rands 1)"
    and "mapped m" and "stub_request m = StubModule" and "well_formed (kst m)"
    and "started (elevator (kst m)) \<noteq> 0" and "deactiving (elevator (kst m)) = 0"
    and "lock_result env = 0" and "memory env = Some a"
  shows "\<exists>start dest type. request_valid start dest type \<and> dest \<noteq> start
    \<and> producer_main env rands argv m = Some (Inr (0,
        ''Issue ('' @ show_int start @ '', '' @ show_int dest @ '', '' @ show_int type @ '') returned 0''
          @ newline, m\<lparr>kst := requested_state a start dest type (kst m)\<rparr>))"
proof -
  define type start where "type = rnd 0 1 (rands 0)" and "start = rnd 1 10 (rands 1)"
  obtain k where "2 \<le> k" "rnd 1 10 (rands k) \<noteq> start" using assms(2) by (auto simp: start_def)
  then obtain dest j where d: "pick_dest rands start 2 = Some (dest, j)"
    using pick_dest_returns by blast
  have dest: "dest \<noteq> start" "1 \<le> dest" "dest \<le> 10"
    using pick_dest_result [OF d] rnd_range [of 1 10] by auto
  have v: "request_valid start dest type"
    using dest rnd_range [of 0 1 "rands 0"] rnd_range [of 1 10 "rands 1"]
    by (simp add: request_valid_def type_def start_def)
  then have w: "wrap32 start = start" "wrap32 dest = dest" "wrap32 type = type"
    by (auto simp: request_valid_def intro!: wrap32_id)
  have "user_request env start dest type m =
      Inr (0, m\<lparr>kst := requested_state a start dest type (kst m)\<rparr>)"
    using assms(3,4,8,9) issue_request_accepted [OF assms(5,6,7) v, of "who env" a]
    by (simp add: user_request_def syscall_def syscall_table_def kernel_call_def sys_issue_request_def
        call_stub_def w res_simps wrap32_id)
  then have "producer_main env rands argv m = Some (Inr (0,
        ''Issue ('' @ show_int start @ '', '' @ show_int dest @ '', '' @ show_int type @ '') returned 0''
          @ newline, m\<lparr>kst := requested_state a start dest type (kst m)\<rparr>))"
    using assms(1) d
    by (simp add: producer_main_def res_simps show_small type_def [symmetric] start_def [symmetric, simplified])
  then show ?thesis using v dest(1) by blast
qed

text \<open>
  What \<open>producer\<close> does: whenever its loop ends, and the elevator is loaded, started and not being stopped, it
  has issued exactly one request, which is valid, goes to a floor other than the start floor,
  is accepted, and is reported with the result 0.
\<close>

lemma producer_issues_one_valid_request:
  assumes "length argv = 1" and "\<exists>k \<ge> 2. rnd 1 10 (rands k) \<noteq> rnd 1 10 (rands 1)"
    and "mapped m" and "stub_request m = StubModule" and "well_formed (kst m)"
    and "started (elevator (kst m)) \<noteq> 0" and "deactiving (elevator (kst m)) = 0"
    and "lock_result env = 0" and "memory env = Some a"
  shows "\<exists>start dest type. request_valid start dest type \<and> dest \<noteq> start
    \<and> producer_main env rands argv m = Some (Inr (0,
        ''Issue ('' @ show_int start @ '', '' @ show_int dest @ '', '' @ show_int type @ '') returned 0''
          @ newline, m\<lparr>kst := requested_state a start dest type (kst m)\<rparr>))"
  by (rule producer_accepted [OF assms])

lemma producer_issues_one_valid_request_witness:
  "\<exists>start dest type. request_valid start dest type \<and> dest \<noteq> start
    \<and> producer_main demo_env demo_rands [''producer''] demo_module = Some (Inr (0,
        ''Issue ('' @ show_int start @ '', '' @ show_int dest @ '', '' @ show_int type @ '') returned 0''
          @ newline, demo_module\<lparr>kst := requested_state 11 start dest type demo_full\<rparr>))"
  using producer_issues_one_valid_request [OF _ demo_rands_differ, of "[''producer'']" demo_module demo_env 11]
    wf_demo_full
  by (simp add: demo_module_fields demo_env_def) (simp add: demo_full_def)

lemmas user_defs = user_start_def user_stop_def syscall_def syscall_table_def kernel_call_def
  sys_start_elevator_def sys_stop_elevator_def call_stub_def

lemma consumer_start:
  assumes "mapped m" and "stub_start m = StubModule" and "start_elevator (kst m) = (r, k)"
  shows "consumer_main env [c, ''--start''] m
    = Inr (0, ''Start elevator returned '' @ show_int r @ newline, m\<lparr>kst := k\<rparr>)"
proof -
  have "r = 0 \<or> r = 1" using assms(3) by (auto simp: start_elevator_def split: if_splits)
  then show ?thesis
    using assms by (auto simp: consumer_main_def user_defs res_simps wrap32_id)
qed

lemma consumer_stop:
  assumes "mapped m" and "stub_stop m = StubModule" and "r = 0 \<or> r = 1"
    and "stop_elevator (who env) (lock_result env) (kst m) = Inr (r, k)"
  shows "consumer_main env [c, ''--stop''] m
    = Inr (0, ''Stop elevator returned '' @ show_int r @ newline, m\<lparr>kst := k\<rparr>)"
  using assms by (auto simp: consumer_main_def user_defs res_simps wrap32_id)

text \<open>
  What \<open>consumer\<close> prints: while the module is loaded and the elevator not started, \<open>--start\<close>
  reports 0, a second \<open>--start\<close> reports 1, \<open>--stop\<close> then reports 0 and a second \<open>--stop\<close>
  reports 1; without the module \<open>--start\<close> reports -1; any other use of the program touches
  nothing and exits with -1.
\<close>

lemma consumer_reports:
  assumes "mapped m" and "stub_start m = StubModule" and "stub_stop m = StubModule"
    and "well_formed (kst m)" and "started (elevator (kst m)) = 0" and "lock_result env = 0"
  shows "\<exists>m1 m2. consumer_main env [c, ''--start''] m = Inr (0, ''Start elevator returned 0'' @ newline, m1)
    \<and> consumer_main env [c, ''--start''] m1 = Inr (0, ''Start elevator returned 1'' @ newline, m1)
    \<and> consumer_main env [c, ''--stop''] m1 = Inr (0, ''Stop elevator returned 0'' @ newline, m2)
    \<and> consumer_main env [c, ''--stop''] m2 = Inr (0, ''Stop elevator returned 1'' @ newline, m2)
    \<and> consumer_main env [c, ''--start''] no_module
        = Inr (0, ''Start elevator returned -1'' @ newline, no_module)
    \<and> consumer_main env [c] m = Inr (- 1, ''wrong number of args'' @ newline, m)"
proof -
  let ?k1 = "snd (start_elevator (kst m))"
  let ?m1 = "m\<lparr>kst := ?k1\<rparr>" and ?m2 = "m\<lparr>kst := stopped_state ?k1\<rparr>"
  have s1: "start_elevator (kst m) = (0, ?k1)" and on: "started (elevator ?k1) \<noteq> 0" "deactiving (elevator ?k1) = 0"
    using assms(5) by (simp_all add: start_elevator_def)
  have s2: "start_elevator (kst ?m1) = (1, ?k1)" using on(1) by (simp add: start_elevator_def)
  have st: "stop_elevator (who env) (lock_result env) (kst ?m1) = Inr (0, stopped_state ?k1)"
    using stop_elevator_eq [OF wf_start [OF assms(4)] on] by (simp add: assms(6))
  have st2: "stop_elevator (who env) (lock_result env) (kst ?m2) = Inr (1, stopped_state ?k1)"
    by (simp add: stop_elevator_refused stopped_defs)
  have "consumer_main env [c, ''--start''] no_module
        = Inr (0, ''Start elevator returned -1'' @ newline, no_module)"
    by (simp add: consumer_main_def user_defs no_module_def res_simps wrap32_id show_small)
  moreover have "consumer_main env [c] m = Inr (- 1, ''wrong number of args'' @ newline, m)"
    by (simp add: consumer_main_def)
  ultimately show ?thesis
    using consumer_start [OF assms(1,2) s1, of env c] consumer_start [OF _ _ s2, of env c]
      consumer_stop [OF _ _ _ st, of c] consumer_stop [OF _ _ _ st2, of c] assms(1-3)
    by (intro exI [of _ ?m1] exI [of _ ?m2]) (simp add: show_small)
qed

lemma consumer_reports_witness:
  "\<exists>m1. consumer_main demo_env [''consumer'', ''--start''] (snd (load_module True (Task 0) no_module))
     = Inr (0, ''Start elevator returned 0'' @ newline, m1)"
proof -
  let ?m = "snd (load_module True (Task 0) no_module)"
  have k: "kst ?m = boot_state" by (simp add: module_defs Let_def boot_state_def)
  have "well_formed (kst ?m)" "started (elevator (kst ?m)) = 0"
    unfolding k by (rule wf_boot) (simp add: boot_explicit)
  moreover have "mapped ?m" "stub_start ?m = StubModule" "stub_stop ?m = StubModule"
    by (simp_all add: module_defs Let_def)
  ultimately show ?thesis using consumer_reports [of ?m demo_env "''consumer''"] by (auto simp: demo_env_def)
qed

section \<open>The programs, the module and the scheduler together\<close>

text \<open>Runs of \<open>producer\<close> one after the other; the result is what they printed.\<close>

fun run_producers :: "(call_env \<times> (nat \<Rightarrow> nat)) list \<Rightarrow> module_state
    \<Rightarrow> (fault + (string list \<times> module_state)) option" where
  "run_producers [] m = Some (Inr ([], m))"
| "run_producers ((env, rands) # ps) m =
     (case producer_main env rands [''producer''] m of
        None \<Rightarrow> None
      | Some (Inl f) \<Rightarrow> Some (Inl f)
      | Some (Inr (_, out, m)) \<Rightarrow>
          (case run_producers ps m of
             Some (Inr (outs, m)) \<Rightarrow> Some (Inr (out # outs, m))
           | r \<Rightarrow> r))"

text \<open>No signal, memory at an address not in use, and a \<open>rand\<close> that ends the producer's loop.\<close>

definition undisturbed :: "kstate \<Rightarrow> call_env \<times> (nat \<Rightarrow> nat) \<Rightarrow> bool" where
  "undisturbed s = (\<lambda>(env, rands). lock_result env = 0 \<and> (\<exists>a. memory env = Some a \<and> heap s a = None)
     \<and> (\<exists>k \<ge> 2. rnd 1 10 (rands k) \<noteq> rnd 1 10 (rands 1)))"

definition open_house :: "module_state \<Rightarrow> bool" where
  "open_house m \<longleftrightarrow> mapped m \<and> stub_request m = StubModule \<and> well_formed (kst m)
     \<and> started (elevator (kst m)) \<noteq> 0 \<and> deactiving (elevator (kst m)) = 0"

lemma requested_counts:
  assumes "well_formed s" and "request_valid start dest type"
  shows "length (concat (waiting_list (requested_state a start dest type s))) = Suc (length (concat (waiting_list s)))"
proof -
  let ?i = "nat (start - 1)"
  have "?i < length (waiting_list s)" using assms wf_position(4) [OF assms(1)] by (auto simp: request_valid_def)
  from length_concat_update [OF this, of "waiting_list s ! ?i @ [a]"] show ?thesis
    by (simp add: requested_state_def Let_def del: length_concat)
qed

lemma producers_queue:
  "open_house m \<Longrightarrow> \<forall>p \<in> set ps. undisturbed (kst m) p \<Longrightarrow> distinct (map (\<lambda>p. memory (fst p)) ps) \<Longrightarrow>
   \<exists>outs m'. run_producers ps m = Some (Inr (outs, m')) \<and> length outs = length ps
     \<and> list_all (suffix ('') returned 0'' @ newline)) outs \<and> open_house m'
     \<and> elevator (kst m') = elevator (kst m) \<and> serviced (kst m') = serviced (kst m)
     \<and> length (concat (waiting_list (kst m'))) = length (concat (waiting_list (kst m))) + length ps"
proof (induction ps arbitrary: m)
  case (Cons p ps)
  obtain env rands where p: "p = (env, rands)" by fastforce
  then obtain a where e: "lock_result env = 0" "memory env = Some a" "heap (kst m) a = None"
      "\<exists>k \<ge> 2. rnd 1 10 (rands k) \<noteq> rnd 1 10 (rands 1)"
    using Cons.prems(2) by (auto simp: undisturbed_def)
  have o: "mapped m" "stub_request m = StubModule" "well_formed (kst m)"
      "started (elevator (kst m)) \<noteq> 0" "deactiving (elevator (kst m)) = 0"
    using Cons.prems(1) by (simp_all add: open_house_def)
  from producer_accepted [OF _ e(4) o e(1,2), of "[''producer'']"] obtain start dest type where
    v: "request_valid start dest type" and
    run: "producer_main env rands [''producer''] m = Some (Inr (0,
        ''Issue ('' @ show_int start @ '', '' @ show_int dest @ '', '' @ show_int type @ '') returned 0''
          @ newline, m\<lparr>kst := requested_state a start dest type (kst m)\<rparr>))"
    by auto
  let ?s = "requested_state a start dest type (kst m)"
  have h: "heap ?s b = heap (kst m) b" if "b \<noteq> a" for b using that by (simp add: requested_state_def Let_def)
  have "well_formed ?s" by (rule wf_requested [OF o(3) v]) (use e(3) in auto)
  then have "open_house (m\<lparr>kst := ?s\<rparr>)" using o by (simp add: open_house_def)
  moreover have "\<forall>q \<in> set ps. undisturbed ?s q"
  proof
    fix q assume q: "q \<in> set ps"
    then have "memory (fst q) \<noteq> Some a" using Cons.prems(3) p e(2) by (force simp: image_iff)
    then show "undisturbed ?s q" using Cons.prems(2) q h by (fastforce simp: undisturbed_def)
  qed
  ultimately obtain outs m' where ih: "run_producers ps (m\<lparr>kst := ?s\<rparr>) = Some (Inr (outs, m'))"
      "length outs = length ps" "list_all (suffix ('') returned 0'' @ newline)) outs" "open_house m'"
      "elevator (kst m') = elevator ?s" "serviced (kst m') = serviced ?s"
      "length (concat (waiting_list (kst m'))) = length (concat (waiting_list ?s)) + length ps"
    using Cons.IH [of "m\<lparr>kst := ?s\<rparr>"] Cons.prems(3) by auto
  let ?out = "''Issue ('' @ show_int start @ '', '' @ show_int dest @ '', '' @ show_int type @ '') returned 0'' @ newline"
  have "suffix ('') returned 0'' @ newline) ?out"
    unfolding suffix_def
    by (intro exI [of _ "''Issue ('' @ show_int start @ '', '' @ show_int dest @ '', '' @ show_int type"]) simp
  moreover have "serviced ?s = serviced (kst m)" by (simp add: requested_state_def Let_def)
  ultimately show ?case
    using run ih requested_counts [OF o(3) v, of a] p
    by (intro exI [of _ "?out # outs"] exI [of _ m']) simp
qed simp

text \<open>
  C8. The whole program: after a successful load, \<open>consumer --start\<close> and any number of runs of
  \<open>producer\<close>, each with memory and a \<open>rand\<close> that ends its loop, every program reports success, and
  the scheduler, left alone, fetches and delivers everybody within 36 rounds for each: then
  \<open>serviced\<close> is the number of producers, nobody is left in a list or in memory, and the thread
  has no work.
\<close>

theorem whole_program_serves:
  assumes "lock_result env = 0" and "length ps < 4294967296"
    and "\<forall>p \<in> set ps. undisturbed boot_state p" and "distinct (map (\<lambda>p. memory (fst p)) ps)"
  shows "\<exists>m1 m2 outs m3 n s. load_module True (Task 0) no_module = (0, m1)
    \<and> consumer_main env [''consumer'', ''--start''] m1 = Inr (0, ''Start elevator returned 0'' @ newline, m2)
    \<and> run_producers ps m2 = Some (Inr (outs, m3)) \<and> length outs = length ps
    \<and> list_all (suffix ('') returned 0'' @ newline)) outs
    \<and> n \<le> 36 * length ps \<and> scheduler 0 (replicate n (0, 0)) (kst m3) = Inr s
    \<and> serviced s = wrap32 (int (length ps)) \<and> heap s = Map.empty
    \<and> onboard (elevator s) = [] \<and> concat (waiting_list s) = [] \<and> \<not> has_work s"
proof -
  obtain r m1 where load: "load_module True (Task 0) no_module = (r, m1)" by fastforce
  then have m1: "r = 0" "kst m1 = boot_state" "mapped m1" "stub_start m1 = StubModule" "stub_request m1 = StubModule"
    by (auto simp: module_defs Let_def boot_state_def)
  let ?s = "boot_state\<lparr>elevator := (elevator boot_state)\<lparr>started := 1, deactiving := 0\<rparr>\<rparr>"
  let ?m2 = "m1\<lparr>kst := ?s\<rparr>"
  have st: "start_elevator (kst m1) = (0, ?s)" by (simp add: start_elevator_def m1(2) boot_explicit)
  have start: "consumer_main env [''consumer'', ''--start''] m1 = Inr (0, ''Start elevator returned 0'' @ newline, ?m2)"
    using consumer_start [OF m1(3,4) st] by (simp add: show_small)
  have "well_formed ?s" using wf_start [OF wf_boot] st m1(2) by simp
  then have "open_house ?m2" using m1 by (simp add: open_house_def)
  moreover have "\<forall>p \<in> set ps. undisturbed (kst ?m2) p" using assms(3) by (simp add: undisturbed_def)
  ultimately obtain outs m3 where ps: "run_producers ps ?m2 = Some (Inr (outs, m3))" "length outs = length ps"
      "list_all (suffix ('') returned 0'' @ newline)) outs" "open_house m3" "elevator (kst m3) = elevator ?s"
      "serviced (kst m3) = serviced ?s"
      "length (concat (waiting_list (kst m3))) = length (concat (waiting_list ?s)) + length ps"
    using producers_queue [of ?m2 ps] assms(4) by auto
  have z: "onboard (elevator (kst m3)) = []" "loads (elevator (kst m3)) = 0" "serviced (kst m3) = 0"
      "length (concat (waiting_list (kst m3))) = length ps"
    using ps(5-7) by (simp_all add: boot_explicit)
  have "work_left (kst m3) = 2 * length ps" unfolding work_left_def z by simp
  then obtain n s where "n \<le> 36 * length ps" "scheduler 0 (replicate n (0, 0)) (kst m3) = Inr s"
      "onboard (elevator s) = []" "concat (waiting_list s) = []" "heap s = Map.empty" "\<not> has_work s"
      "serviced s = wrap32 (int (length ps))"
    using everyone_served [of "kst m3" 0] ps(4) assms(2) z by (auto simp: open_house_def)
  then show ?thesis using load m1(1) start ps(1-3) by blast
qed

theorem whole_program_serves_witness:
  "\<exists>m1 m2 outs m3 n s. load_module True (Task 0) no_module = (0, m1)
    \<and> consumer_main demo_env [''consumer'', ''--start''] m1 = Inr (0, ''Start elevator returned 0'' @ newline, m2)
    \<and> run_producers [(demo_env, demo_rands), (demo_env\<lparr>memory := Some 12\<rparr>, demo_rands)] m2 = Some (Inr (outs, m3))
    \<and> n \<le> 72 \<and> scheduler 0 (replicate n (0, 0)) (kst m3) = Inr s \<and> serviced s = 2"
proof -
  let ?ps = "[(demo_env, demo_rands), (demo_env\<lparr>memory := Some 12\<rparr>, demo_rands)]"
  have u: "lock_result demo_env = 0" "\<forall>p \<in> set ?ps. undisturbed boot_state p" "distinct (map (\<lambda>p. memory (fst p)) ?ps)"
    using demo_rands_differ by (simp_all add: undisturbed_def demo_env_def boot_explicit)
  have n: "length ?ps < 4294967296" "36 * length ?ps = 72" "wrap32 (int (length ?ps)) = 2"
    by (simp_all add: wrap32_def)
  show ?thesis using whole_program_serves [OF u(1) n(1) u(2,3)] unfolding n(2,3)
    by (elim exE conjE) (intro exI conjI, assumption+)
qed

end
