(* ===== verification/SyscallEntry.thy ===== *)
theory SyscallEntry
  imports UserPrograms
begin

text \<open>
  The way of a system call through 64-bit registers: the macros of
  \<open>part3/syscall/syscalls.h\<close> with which \<open>part3.c\<close> defines its entries, and the library's
  \<open>syscall\<close> over them. How the arguments of \<open>syscall\<close> get into the registers and from there
  to the three \<open>long\<close> parameters of the entry is the C library's and the architecture's business:
  the parameter \<open>pass\<close>.
\<close>

section \<open>The macros\<close>

datatype ctype = C_int | C_unsigned | C_long | C_unsigned_long | C_long_long | C_unsigned_long_long

text \<open>\<open>__MAP(n, m, t1, a1, ...)\<close>: the macro is only used with at least \<open>n\<close> pairs.\<close>

fun MAP :: "nat \<Rightarrow> (ctype \<Rightarrow> 'a \<Rightarrow> 'b) \<Rightarrow> (ctype \<times> 'a) list \<Rightarrow> 'b list" where
  "MAP 0 m xs = []"
| "MAP (Suc n) m ((t, a) # xs) = m t a # MAP n m xs"
| "MAP (Suc n) m [] = []"

fun TYPE_IS_LL :: "ctype \<Rightarrow> bool" where
  "TYPE_IS_LL C_long_long = True"
| "TYPE_IS_LL C_unsigned_long_long = True"
| "TYPE_IS_LL _ = False"

definition SC_LONG :: "ctype \<Rightarrow> 'a \<Rightarrow> ctype \<times> 'a" where
  "SC_LONG t a = (if TYPE_IS_LL t then C_long_long else C_long, a)"

text \<open>The value of \<open>(t) a\<close> for a 64-bit \<open>a\<close>.\<close>

fun SC_CAST :: "ctype \<Rightarrow> 64 word \<Rightarrow> int" where
  "SC_CAST C_int w = sint (ucast w :: 32 word)"
| "SC_CAST C_unsigned w = uint (ucast w :: 32 word)"
| "SC_CAST C_long w = sint w"
| "SC_CAST C_unsigned_long w = uint w"
| "SC_CAST C_long_long w = sint w"
| "SC_CAST C_unsigned_long_long w = uint w"

fun sizeof :: "ctype \<Rightarrow> nat" where
  "sizeof C_int = 4"
| "sizeof C_unsigned = 4"
| "sizeof _ = 8"

definition SC_TEST :: "ctype \<Rightarrow> 'a \<Rightarrow> bool" where
  "SC_TEST t a \<longleftrightarrow> \<not> (\<not> TYPE_IS_LL t \<and> sizeof C_long < sizeof t)"

text \<open>
  A body is the code between the braces after \<open>SYSCALL_DEFINEx\<close>, with the parameters it
  declares; its result is a \<open>long\<close>. \<open>SYSCALL_DEFINEx\<close> is the function \<open>__se_sys##name\<close> of
  the macro, which takes one \<open>long\<close> for each parameter. It does not build when a type is
  larger than a \<open>long\<close>.
\<close>

type_synonym body = "module_state \<Rightarrow> fault + (64 word \<times> module_state)"

definition SYSCALL_DEFINE0 :: "body \<Rightarrow> body" where
  "SYSCALL_DEFINE0 do_sys = do_sys"

definition SYSCALL_DEFINEx :: "nat \<Rightarrow> ctype list \<Rightarrow> (int list \<Rightarrow> body) \<Rightarrow> (64 word list \<Rightarrow> body) option" where
  "SYSCALL_DEFINEx x ts do_sys =
     (if list_all id (MAP x SC_TEST (zip ts (replicate x ())))
      then Some (\<lambda>regs. do_sys (MAP x SC_CAST (zip ts regs)))
      else None)"

definition SYSCALL_DEFINE3 :: "ctype \<Rightarrow> ctype \<Rightarrow> ctype \<Rightarrow> (int list \<Rightarrow> body) \<Rightarrow> (64 word list \<Rightarrow> body) option" where
  "SYSCALL_DEFINE3 t1 t2 t3 = SYSCALL_DEFINEx 3 [t1, t2, t3]"

section \<open>The three entries\<close>

text \<open>\<open>return\<close> of an \<open>int\<close> from a function that returns \<open>long\<close>: sign extension.\<close>

definition return_long :: "fault + (int \<times> module_state) \<Rightarrow> fault + (64 word \<times> module_state)" where
  "return_long r = rbind r (\<lambda>(r, m). Inr (word_of_int r, m))"

definition entry_start_elevator :: body where
  "entry_start_elevator = SYSCALL_DEFINE0 (\<lambda>m.
     return_long (call_stub (stub_start m) (\<lambda>k. Inr (start_elevator k)) m))"

definition entry_issue_request :: "call_env \<Rightarrow> (64 word list \<Rightarrow> body) option" where
  "entry_issue_request env = SYSCALL_DEFINE3 C_int C_int C_int (\<lambda>args m.
     return_long (call_stub (stub_request m)
       (issue_request (who env) (lock_result env) (memory env) (args ! 0) (args ! 1) (args ! 2)) m))"

definition entry_stop_elevator :: "call_env \<Rightarrow> body" where
  "entry_stop_elevator env = SYSCALL_DEFINE0 (\<lambda>m.
     return_long (call_stub (stub_stop m) (stop_elevator (who env) (lock_result env)) m))"

definition register_call :: "call_env \<Rightarrow> entry \<Rightarrow> 64 word list \<Rightarrow> body" where
  "register_call env en regs =
     (case en of
        StartEntry \<Rightarrow> entry_start_elevator
      | RequestEntry \<Rightarrow> the (entry_issue_request env) regs
      | StopEntry \<Rightarrow> entry_stop_elevator env)"

text \<open>
  \<open>syscall\<close> once more, over registers: the result comes back in one, read as a \<open>long\<close>.
\<close>

definition register_syscall :: "(int \<times> int \<times> int \<Rightarrow> 64 word list) \<Rightarrow>
    call_env \<Rightarrow> int \<Rightarrow> int \<times> int \<times> int \<Rightarrow> module_state \<Rightarrow> fault + (int \<times> module_state)" where
  "register_syscall pass env n args m =
     (case syscall_table n of
        None \<Rightarrow> Inr (- 1, m)
      | Some en \<Rightarrow> rbind (register_call env en (pass args) m) (\<lambda>(w, m).
          Inr (if - 4096 < sint w \<and> sint w < 0 then - 1 else sint w, m)))"

text \<open>
  What is relied on: an \<open>int\<close> passed to \<open>syscall\<close> arrives in the low half of its register.
  Nothing is said of the upper half.
\<close>

definition low_halves :: "64 word list \<Rightarrow> 32 word list" where
  "low_halves = map ucast"

definition passes_ints :: "(int \<times> int \<times> int \<Rightarrow> 64 word list) \<Rightarrow> bool" where
  "passes_ints pass \<longleftrightarrow>
     (\<forall>a b c. low_halves (pass (a, b, c)) = [word_of_int a, word_of_int b, word_of_int c])"

section \<open>What the macros do\<close>

text \<open>On this architecture every parameter of an entry fills one register, and every type fits.\<close>

lemma sizeof_SC_LONG: "sizeof (fst (SC_LONG t a)) = 8"
  by (cases t) (simp_all add: SC_LONG_def)

lemma SC_TEST_holds: "SC_TEST t a"
  by (cases t) (simp_all add: SC_TEST_def)

lemma MAP_zip: "length ts = n \<Longrightarrow> length xs = n \<Longrightarrow> MAP n m (zip ts xs) = map2 m ts xs"
  by (induction n arbitrary: ts xs) (auto simp: length_Suc_conv)

lemma define_builds:
  "length ts = x \<Longrightarrow> SYSCALL_DEFINEx x ts do_sys = Some (\<lambda>regs. do_sys (MAP x SC_CAST (zip ts regs)))"
  by (simp add: SYSCALL_DEFINEx_def MAP_zip list_all_length SC_TEST_holds)

text \<open>The parameters of a request are the low halves of its registers, read as signed numbers.\<close>

definition low_int :: "64 word \<Rightarrow> int" where
  "low_int w = sint (ucast w :: 32 word)"

lemma request_entry:
  "register_call env RequestEntry [a, b, c] m = return_long (call_stub (stub_request m)
     (issue_request (who env) (lock_result env) (memory env) (low_int a) (low_int b) (low_int c)) m)"
  by (simp add: register_call_def entry_issue_request_def SYSCALL_DEFINE3_def define_builds numeral_eq_Suc low_int_def)

lemma low_int_of_int: "ucast w = (word_of_int x :: 32 word) \<Longrightarrow> low_int w = wrap32 x"
  by (simp add: low_int_def wrap32_sint)

lemma wrap32_low_int: "wrap32 (low_int w) = low_int w"
  by (simp add: low_int_def wrap32_sint)

lemma pass_registers:
  assumes "passes_ints pass"
  obtains u v w where "pass (a, b, c) = [u, v, w]" and "low_int u = wrap32 a" and "low_int v = wrap32 b"
    and "low_int w = wrap32 c"
proof -
  have "low_halves (pass (a, b, c)) = [word_of_int a, word_of_int b, word_of_int c]"
    using assms by (simp add: passes_ints_def)
  then show thesis using that low_int_of_int by (auto simp: low_halves_def map_eq_Cons_conv)
qed

lemma long_of_int: "- 2147483648 \<le> r \<Longrightarrow> r < 2147483648 \<Longrightarrow> sint (word_of_int r :: 64 word) = r"
  by (simp add: sint_sbintrunc' signed_take_bit_int_eq_self)

lemma call_stub_result: "call_stub stub f m = Inr (r, m') \<Longrightarrow> - 2147483648 \<le> r \<and> r < 2147483648"
  using wrap32_range by (auto simp: call_stub_def rbind_eq_Inr split: stub.splits if_splits)

lemma return_long_result:
  "rbind (return_long (call_stub stub f m)) (\<lambda>(w, m). Inr (g (sint w), m)) =
   rbind (call_stub stub f m) (\<lambda>(r, m). Inr (g r, m))"
proof (cases "call_stub stub f m")
  case (Inr x)
  then obtain r m' where x: "x = (r, m')" "call_stub stub f m = Inr (r, m')" by (cases x) auto
  then show ?thesis using long_of_int call_stub_result [OF x(2)] by (simp add: return_long_def res_simps)
qed (simp add: return_long_def res_simps)

section \<open>Whatever the registers hold\<close>

lemma issue_request_any:
  assumes "well_formed s" and "heap s x = None"
  shows "\<exists>r s'. issue_request me 0 (Some x) start dest type s = Inr (r, s') \<and> (r = 0 \<or> r = 1) \<and> well_formed s'
    \<and> (r = 1 \<longrightarrow> s' = s)"
proof (cases "started (elevator s) = 0 \<or> \<not> request_valid start dest type")
  case True
  then show ?thesis using issue_request_rejected assms(1) by blast
next
  case False
  then have v: "request_valid start dest type" by simp
  have "well_formed (requested_state x start dest type s)"
    by (rule wf_requested [OF assms(1) v]) (use assms(2) in auto)
  then show ?thesis
    using False assms(1) request_critical_accepted [OF assms(1) _ v, of me x]
      request_critical_ignored [OF assms(1), of me "Some x" start dest type]
    by (cases "deactiving (elevator s) = 0") (auto simp: issue_request_enters)
qed

lemma stop_elevator_any:
  assumes "well_formed s"
  shows "\<exists>r s'. stop_elevator me 0 s = Inr (r, s') \<and> (r = 0 \<or> r = 1) \<and> well_formed s' \<and> (r = 1 \<longrightarrow> s' = s)"
  using stop_elevator_eq [OF assms, of me] stop_elevator_refused [of s me 0] wf_stopped [OF assms] assms
  by (cases "started (elevator s) = 0 \<or> deactiving (elevator s) \<noteq> 0") auto

lemma start_elevator_any:
  assumes "well_formed s"
  shows "\<exists>r s'. start_elevator s = (r, s') \<and> (r = 0 \<or> r = 1) \<and> well_formed s' \<and> (r = 1 \<longrightarrow> s' = s)"
  using wf_start [OF assms] by (cases "start_elevator s") (auto simp: start_elevator_def split: if_splits)

lemma through_the_stub:
  assumes "\<exists>r k. f (kst m) = Inr (r, k) \<and> (r = 0 \<or> r = 1) \<and> well_formed k \<and> (r = 1 \<longrightarrow> k = kst m)" and "mapped m"
  shows "\<exists>r k. return_long (call_stub StubModule f m) = Inr (word_of_int r, m\<lparr>kst := k\<rparr>) \<and> (r = 0 \<or> r = 1)
    \<and> well_formed k \<and> (r = 1 \<longrightarrow> k = kst m)"
proof -
  from assms(1) obtain r k where f: "f (kst m) = Inr (r, k)" "r = 0 \<or> r = 1" "well_formed k" "r = 1 \<longrightarrow> k = kst m"
    by blast
  then have "wrap32 r = r" by (auto intro: wrap32_id)
  then show ?thesis
    using f assms(2) by (intro exI [of _ r] exI [of _ k]) (simp add: return_long_def call_stub_def res_simps)
qed

section \<open>Properties\<close>

text \<open>
  C36. A system call of the 64-bit kernel is the call: if the ints given to \<open>syscall\<close> arrive in the
  low halves of the registers, whatever the upper halves hold, then the way through
  \<open>__se_sys_issue_request\<close>, its casts, the stub and the sign extension of the result gives the
  user the result, the fault or the error, and the module the state, that the calls of the user
  programs are modelled with.
\<close>

theorem register_syscall_is_syscall:
  assumes "passes_ints pass"
  shows "register_syscall pass env n (a, b, c) m = syscall env n (a, b, c) m"
proof (cases "syscall_table n")
  case (Some en)
  let ?g = "\<lambda>r. if - 4096 < r \<and> r < 0 then - 1 else r"
  obtain u v w where p: "pass (a, b, c) = [u, v, w]" "low_int u = wrap32 a" "low_int v = wrap32 b"
      "low_int w = wrap32 c" by (rule pass_registers [OF assms])
  have "rbind (register_call env en (pass (a, b, c)) m) (\<lambda>(w, m). Inr (?g (sint w), m)) =
      rbind (kernel_call env en (a, b, c) m) (\<lambda>(r, m). Inr (?g r, m))"
  proof (cases en)
    case StartEntry
    then show ?thesis using return_long_result [where g = ?g]
      by (simp add: register_call_def entry_start_elevator_def SYSCALL_DEFINE0_def kernel_call_def
          sys_start_elevator_def)
  next
    case RequestEntry
    then show ?thesis using return_long_result [where g = ?g]
      by (simp add: p request_entry kernel_call_def sys_issue_request_def)
  next
    case StopEntry
    then show ?thesis using return_long_result [where g = ?g]
      by (simp add: register_call_def entry_stop_elevator_def SYSCALL_DEFINE0_def kernel_call_def
          sys_stop_elevator_def)
  qed
  then show ?thesis by (simp add: register_syscall_def syscall_def Some)
qed (simp add: register_syscall_def syscall_def)

text \<open>Registers whose upper halves are full of ones.\<close>

definition dirty_pass :: "int \<times> int \<times> int \<Rightarrow> 64 word list" where
  "dirty_pass = (\<lambda>(a, b, c). map (\<lambda>x. word_of_int (x mod 4294967296 - 4294967296)) [a, b, c])"

text \<open>Requests with dirty registers: floor 3 to floor -1, and a valid one.\<close>

theorem register_syscall_is_syscall_witness:
  "dirty_pass (3, - 1, 0) = [18446744069414584323, 18446744073709551615, 18446744069414584320]
   \<and> register_syscall dirty_pass demo_env 336 (3, - 1, 0) demo_module = Inr (1, demo_module)"
proof -
  have "ucast (word_of_int (x mod 4294967296 - 4294967296) :: 64 word) = (word_of_int x :: 32 word)" for x
  proof -
    have "(x mod 4294967296 - 4294967296) mod 4294967296 = x mod 4294967296"
      using minus_mod_self2 [of "x mod 4294967296" 4294967296] by simp
    then have "word_of_int (x mod 4294967296 - 4294967296) = (word_of_int x :: 32 word)"
      unfolding word_of_int_eq_iff take_bit_eq_mod by simp
    moreover have "ucast (word_of_int y :: 64 word) = (word_of_int y :: 32 word)" for y
      by (rule bit_word_eqI) (simp add: bit_simps)
    ultimately show ?thesis by metis
  qed
  then have p: "passes_ints dirty_pass" by (simp add: passes_ints_def dirty_pass_def low_halves_def)
  have "syscall demo_env 336 (3, - 1, 0) demo_module = Inr (1, demo_module)"
  proof -
    have "issue_request 5 0 (Some 11) (wrap32 3) (wrap32 (- 1)) (wrap32 0) demo_full = Inr (1, demo_full)"
      by (rule issue_request_rejected) (simp add: wrap32_def request_valid_def)
    moreover have "demo_module\<lparr>kst := demo_full\<rparr> = demo_module"
      by (rule module_state.equality) (simp_all add: demo_module_fields)
    ultimately show ?thesis
      by (simp add: syscall_def syscall_table_def kernel_call_def demo_env_def sys_issue_request_def call_stub_def
          demo_module_fields res_simps wrap32_id)
  qed
  then show ?thesis using register_syscall_is_syscall [OF p, of demo_env 336 3 "- 1" 0 demo_module]
    by (simp add: dirty_pass_def)
qed

text \<open>
  C37. Whatever the registers hold: with the module loaded, its state well formed, memory for a
  passenger and no signal, each of the three entries ends, for all values of the three 64-bit registers,
  without a fault; it returns 0 or 1, the state stays well formed, and a result of 1 means that
  nothing has changed.
\<close>

theorem entries_accept_any_registers:
  assumes "mapped m" and "stub_start m = StubModule" and "stub_request m = StubModule"
    and "stub_stop m = StubModule" and "well_formed (kst m)"
    and "lock_result env = 0" and "memory env = Some x" and "heap (kst m) x = None"
  shows "\<exists>r k. register_call env en [u, v, w] m = Inr (word_of_int r, m\<lparr>kst := k\<rparr>) \<and> (r = 0 \<or> r = 1)
    \<and> well_formed k \<and> (r = 1 \<longrightarrow> k = kst m)"
proof (cases en)
  case StartEntry
  then show ?thesis
    using through_the_stub [of "\<lambda>k. Inr (start_elevator k)" m] start_elevator_any [OF assms(5)] assms(1,2)
    by (simp add: register_call_def entry_start_elevator_def SYSCALL_DEFINE0_def)
next
  case RequestEntry
  then show ?thesis
    using through_the_stub [of "issue_request (who env) 0 (Some x) (low_int u) (low_int v) (low_int w)" m]
      issue_request_any [OF assms(5,8)] assms(1,3,6,7)
    by (simp add: request_entry)
next
  case StopEntry
  then show ?thesis
    using through_the_stub [of "stop_elevator (who env) 0" m] stop_elevator_any [OF assms(5)] assms(1,4,6)
    by (simp add: register_call_def entry_stop_elevator_def SYSCALL_DEFINE0_def)
qed

theorem entries_accept_any_registers_witness:
  "\<exists>r k. register_call demo_env RequestEntry [18446744069414584323, 4294967297, 1] demo_module =
     Inr (word_of_int r, demo_module\<lparr>kst := k\<rparr>) \<and> well_formed k"
proof -
  have "heap demo_full 11 = None" by (simp add: demo_full_def)
  then show ?thesis
    using entries_accept_any_registers [OF demo_module_fields(1-4), of demo_env 11 RequestEntry] wf_demo_full
    by (simp add: demo_module_fields demo_env_def) blast
qed

end
