(* ===== verification/Timer.thy ===== *)
theory Timer
  imports CString Complex_Main
begin

text \<open>
  The timer module: \<open>/proc/timer\<close> prints the current time and, from the second read on, the
  time elapsed since the read before. \<open>now\<close> is what \<open>current_kernel_time\<close> returned, \<open>left\<close>
  what \<open>copy_to_user\<close> returned (the number of bytes it could not copy).
\<close>

section \<open>The code\<close>

record timespec =
  tv_sec :: int
  tv_nsec :: int

text \<open>\<open>msg\<close> is an array of 100 bytes, \<open>procfs_buf_len\<close> a signed \<open>char\<close>.\<close>

record timer_state =
  t0 :: timespec
  t1 :: timespec
  diff :: timespec
  procfs_buf_len :: int
  msg :: string

definition BUF_LEN :: nat where [simp]: "BUF_LEN = 100"
definition EFAULT :: int where [simp]: "EFAULT = 14"

definition wrap8 :: "int \<Rightarrow> int" where
  "wrap8 x = (x + 128) mod 256 - 128"

definition wrap64 :: "int \<Rightarrow> int" where
  "wrap64 x = (x + 9223372036854775808) mod 18446744073709551616 - 9223372036854775808"

definition time_text :: "timespec \<Rightarrow> string" where
  "time_text t = show_int (tv_sec t) @ ''.'' @ show_int (tv_nsec t)"

definition time_diff :: "timespec \<Rightarrow> timespec \<Rightarrow> timespec" where
  "time_diff a b =
     (if tv_nsec a < tv_nsec b
      then \<lparr>tv_sec = wrap64 (wrap64 (tv_sec a - tv_sec b) - 1),
            tv_nsec = wrap64 (wrap64 (1000000000 + tv_nsec a) - tv_nsec b)\<rparr>
      else \<lparr>tv_sec = wrap64 (tv_sec a - tv_sec b), tv_nsec = wrap64 (tv_nsec a - tv_nsec b)\<rparr>)"

text \<open>A line: \<open>buf[cap] = label; char t[21]; sprintf(t, ...); strcat(buf, t); strcat(buf, "\n")\<close>.\<close>

definition time_line :: "nat \<Rightarrow> string \<Rightarrow> timespec \<Rightarrow> fault + string" where
  "time_line cap label t =
     rbind (sprintf 21 (time_text t)) (\<lambda>txt.
     rbind (strcat cap label txt) (\<lambda>buf. strcat cap buf newline))"

text \<open>
  The tail that both branches share: set \<open>procfs_buf_len\<close>, refuse a reader who is past the
  start or brought too small a buffer, copy, advance \<open>t0\<close> and the position. The result is the
  return value, what was copied, and the new position.
\<close>

definition deliver ::
  "string \<Rightarrow> int \<Rightarrow> int \<Rightarrow> int \<Rightarrow> timer_state \<Rightarrow> (int \<times> string option \<times> int) \<times> timer_state" where
  "deliver text count ppos left st =
     (let n = wrap8 (int (length text)); st = st\<lparr>procfs_buf_len := n\<rparr>
      in if ppos > 0 \<or> count < n mod 18446744073709551616 then ((0, None, ppos), st)
         else if left \<noteq> 0 then ((- EFAULT, None, ppos), st)
         else ((n, Some text, n), st\<lparr>t0 := t1 st\<rparr>))"

definition procfile_read ::
  "timespec \<Rightarrow> int \<Rightarrow> int \<Rightarrow> int \<Rightarrow> timer_state \<Rightarrow> fault + ((int \<times> string option \<times> int) \<times> timer_state)" where
  "procfile_read now count ppos left st =
     (if tv_nsec (t0 st) > 0 then
        let st = st\<lparr>t1 := now\<rparr>
        in rbind (time_line 200 ''current time: '' (t1 st)) (\<lambda>current_t.
           let st = st\<lparr>diff := time_diff (t1 st) (t0 st)\<rparr>
           in rbind (time_line 100 ''elapsed time: '' (diff st)) (\<lambda>elapsed_t.
              rbind (strcat 200 current_t elapsed_t) (\<lambda>current_t.
              Inr (deliver current_t count ppos left st))))
      else
        let st = st\<lparr>t1 := now\<rparr>
        in rbind (time_line 1000 ''current time: '' (t1 st)) (\<lambda>current_t.
           Inr (deliver current_t count ppos left st)))"

text \<open>
  \<open>ubuf\<close> is the writer's memory. After the copy, \<open>printk\<close> prints \<open>msg\<close> as a string, which reads
  on to the first NUL.
\<close>

definition procfile_write :: "string \<Rightarrow> nat \<Rightarrow> timer_state \<Rightarrow> fault + (int \<times> timer_state)" where
  "procfile_write ubuf count st =
     (let n = (if count > BUF_LEN then BUF_LEN else count);
          st = st\<lparr>procfs_buf_len := wrap8 (int n)\<rparr>;
          k = nat (procfs_buf_len st);
          st = st\<lparr>msg := take k ubuf @ drop k (msg st)\<rparr>
      in rbind (c_string (msg st)) (\<lambda>_. Inr (procfs_buf_len st, st)))"

text \<open>
  The module's life: \<open>created\<close> tells whether \<open>proc_create\<close> returned an entry. A load clears the
  static variables, and a module whose init failed is unloaded again.
\<close>

record timer_module =
  timer_entry :: bool
  timer_mapped :: bool
  timer :: timer_state

definition timer_bss :: timer_state where
  "timer_bss = \<lparr>t0 = \<lparr>tv_sec = 0, tv_nsec = 0\<rparr>, t1 = \<lparr>tv_sec = 0, tv_nsec = 0\<rparr>,
     diff = \<lparr>tv_sec = 0, tv_nsec = 0\<rparr>, procfs_buf_len = 0, msg = replicate BUF_LEN (CHR 0x00)\<rparr>"

definition timer_init :: "bool \<Rightarrow> timer_module \<Rightarrow> int \<times> timer_module" where
  "timer_init created m =
     (let m = m\<lparr>timer_entry := created\<rparr> in if \<not> timer_entry m then (- 12, m) else (0, m))"

definition timer_exit :: "timer_module \<Rightarrow> timer_module" where
  "timer_exit m = m\<lparr>timer_entry := False\<rparr>"

definition load_timer :: "bool \<Rightarrow> timer_module \<Rightarrow> int \<times> timer_module" where
  "load_timer created m =
     (let (r, m) = timer_init created (m\<lparr>timer_mapped := True, timer := timer_bss\<rparr>)
      in (r, m\<lparr>timer_mapped := 0 \<le> r\<rparr>))"

definition unload_timer :: "timer_module \<Rightarrow> timer_module" where
  "unload_timer m = (timer_exit m)\<lparr>timer_mapped := False\<rparr>"

text \<open>A program that reads the file to its end: the text, then a read at the new position.\<close>

definition cat :: "timespec \<Rightarrow> timer_state \<Rightarrow> fault + (string \<times> timer_state)" where
  "cat now st =
     rbind (procfile_read now 4096 0 0 st) (\<lambda>((r, txt, pos), st).
     rbind (procfile_read now 4096 pos 0 st) (\<lambda>((r', txt', pos'), st).
       Inr (case txt of None \<Rightarrow> [] | Some t \<Rightarrow> if r' = 0 then t else [], st)))"

fun cats :: "timespec list \<Rightarrow> timer_state \<Rightarrow> fault + (string list \<times> timer_state)" where
  "cats [] st = Inr ([], st)"
| "cats (now # nows) st =
     rbind (cat now st) (\<lambda>(t, st). rbind (cats nows st) (\<lambda>(ts, st). Inr (t # ts, st)))"

section \<open>Times\<close>

text \<open>
  What the clock delivers until the year 2286: seconds of at most ten digits and nanoseconds
  below a second.
\<close>

definition clock_time :: "timespec \<Rightarrow> bool" where
  "clock_time t \<longleftrightarrow> 0 \<le> tv_sec t \<and> tv_sec t < 10000000000 \<and> 0 \<le> tv_nsec t \<and> tv_nsec t < 1000000000"

definition nanos :: "timespec \<Rightarrow> int" where
  "nanos t = 1000000000 * tv_sec t + tv_nsec t"

lemma wrap64_id: "- 9223372036854775808 \<le> x \<Longrightarrow> x < 9223372036854775808 \<Longrightarrow> wrap64 x = x"
  by (simp add: wrap64_def)

lemma wrap8_id: "- 128 \<le> x \<Longrightarrow> x < 128 \<Longrightarrow> wrap8 x = x"
  by (simp add: wrap8_def)

lemma time_diff_exact:
  assumes "clock_time a" and "clock_time b" and "nanos b \<le> nanos a"
  shows "clock_time (time_diff a b)" and "nanos (time_diff a b) = nanos a - nanos b"
proof -
  have r: "0 \<le> tv_sec a" "tv_sec a < 10000000000" "0 \<le> tv_nsec a" "tv_nsec a < 1000000000"
    "0 \<le> tv_sec b" "tv_sec b < 10000000000" "0 \<le> tv_nsec b" "tv_nsec b < 1000000000"
    using assms(1,2) by (auto simp: clock_time_def)
  have le: "1000000000 * tv_sec b + tv_nsec b \<le> 1000000000 * tv_sec a + tv_nsec a"
    using assms(3) by (simp add: nanos_def)
  have sec: "tv_sec b + (if tv_nsec a < tv_nsec b then 1 else 0) \<le> tv_sec a"
    using le r by (auto split: if_split)
  have d: "time_diff a b = (if tv_nsec a < tv_nsec b
      then \<lparr>tv_sec = tv_sec a - tv_sec b - 1, tv_nsec = 1000000000 + tv_nsec a - tv_nsec b\<rparr>
      else \<lparr>tv_sec = tv_sec a - tv_sec b, tv_nsec = tv_nsec a - tv_nsec b\<rparr>)"
    using r by (simp add: time_diff_def wrap64_id)
  show "clock_time (time_diff a b)" unfolding d using r sec by (auto simp: clock_time_def)
  show "nanos (time_diff a b) = nanos a - nanos b" unfolding d by (simp add: nanos_def)
qed

lemma length_time_text:
  assumes "clock_time t"
  shows "length (time_text t) \<le> 20"
proof -
  have "length (show_int (tv_sec t)) \<le> Suc 9"
    by (rule length_show_int_nonneg) (use assms in \<open>simp_all add: clock_time_def\<close>)
  moreover have "length (show_int (tv_nsec t)) \<le> Suc 8"
    by (rule length_show_int_nonneg) (use assms in \<open>simp_all add: clock_time_def\<close>)
  ultimately show ?thesis by (simp add: time_text_def)
qed

lemma time_line_eq:
  assumes "clock_time t" and "length label = 14" and "100 \<le> cap"
  shows "time_line cap label t = Inr (label @ time_text t @ newline)"
  using length_time_text [OF assms(1)] assms(2,3) by (simp add: time_line_def res_simps)

section \<open>Properties\<close>

definition current_line :: "timespec \<Rightarrow> string" where
  "current_line t = ''current time: '' @ time_text t @ newline"

definition elapsed_line :: "timespec \<Rightarrow> string" where
  "elapsed_line t = ''elapsed time: '' @ time_text t @ newline"

definition timer_text :: "timespec \<Rightarrow> timer_state \<Rightarrow> string" where
  "timer_text now st = current_line now
     @ (if tv_nsec (t0 st) > 0 then elapsed_line (time_diff now (t0 st)) else [])"

lemma length_lines:
  "clock_time t \<Longrightarrow> length (current_line t) \<le> 35" "clock_time t \<Longrightarrow> length (elapsed_line t) \<le> 35"
  using length_time_text [of t] by (simp_all add: current_line_def elapsed_line_def)

lemma time_lines:
  assumes "clock_time t" and "100 \<le> cap"
  shows "time_line cap ''current time: '' t = Inr (current_line t)"
    and "time_line cap ''elapsed time: '' t = Inr (elapsed_line t)"
  using assms by (simp_all add: time_line_eq current_line_def elapsed_line_def)

lemma read_text:
  assumes "clock_time now" and "clock_time (t0 st)" and "nanos (t0 st) \<le> nanos now"
  shows "procfile_read now count ppos left st = Inr (
    if tv_nsec (t0 st) > 0
    then deliver (current_line now @ elapsed_line (time_diff now (t0 st))) count ppos left
           (st\<lparr>t1 := now, diff := time_diff now (t0 st)\<rparr>)
    else deliver (current_line now) count ppos left (st\<lparr>t1 := now\<rparr>))"
proof -
  note d = time_diff_exact(1) [OF assms]
  have "length (current_line now) + length (elapsed_line (time_diff now (t0 st))) \<le> 70"
    using length_lines(1) [OF assms(1)] length_lines(2) [OF d] by linarith
  then have "strcat 200 (current_line now) (elapsed_line (time_diff now (t0 st))) =
      Inr (current_line now @ elapsed_line (time_diff now (t0 st)))" by (simp add: strcat_def)
  then show ?thesis
    unfolding procfile_read_def Let_def
    by (simp add: time_lines [OF assms(1)] time_lines [OF d] res_simps)
qed

text \<open>
  A read of the timer: no buffer overflows; the first line is the current time, and when
  a previous time is known a second line gives the difference, which is exact: seconds and
  nanoseconds that add up to the nanoseconds between the two reads, the nanoseconds below a
  second. The previous time becomes the current one.
\<close>

lemma timer_read:
  assumes "clock_time now" and "clock_time (t0 st)" and "nanos (t0 st) \<le> nanos now"
    and "0 < tv_nsec (t0 st)" and "70 \<le> count"
  shows "\<exists>d st'. procfile_read now count 0 0 st =
      Inr ((int (length (current_line now @ elapsed_line d)), Some (current_line now @ elapsed_line d),
            int (length (current_line now @ elapsed_line d))), st')
    \<and> 1000000000 * tv_sec d + tv_nsec d = nanos now - nanos (t0 st)
    \<and> 0 \<le> tv_nsec d \<and> tv_nsec d < 1000000000 \<and> t0 st' = now"
proof -
  let ?d = "time_diff now (t0 st)" and ?txt = "current_line now @ elapsed_line (time_diff now (t0 st))"
  note d = time_diff_exact [OF assms(1-3)]
  have n: "length ?txt \<le> 70" using length_lines(1) [OF assms(1)] length_lines(2) [OF d(1)] by simp
  then have "wrap8 (int (length ?txt)) = int (length ?txt)" by (simp add: wrap8_id)
  moreover have "\<not> count < int (length ?txt) mod 18446744073709551616" using n assms(5) by simp
  ultimately have "deliver ?txt count 0 0 (st\<lparr>t1 := now, diff := ?d\<rparr>) =
      ((int (length ?txt), Some ?txt, int (length ?txt)),
       st\<lparr>t1 := now, diff := ?d, procfs_buf_len := int (length ?txt), t0 := now\<rparr>)"
    by (simp add: deliver_def Let_def del: length_append)
  then show ?thesis
    using read_text [OF assms(1-3)] assms(4) d
    by (intro exI [of _ ?d]) (simp add: clock_time_def nanos_def del: length_append)
qed

definition demo_timer :: timer_state where
  "demo_timer = \<lparr>t0 = \<lparr>tv_sec = 100, tv_nsec = 900000000\<rparr>, t1 = \<lparr>tv_sec = 100, tv_nsec = 900000000\<rparr>,
     diff = \<lparr>tv_sec = 0, tv_nsec = 0\<rparr>, procfs_buf_len = 0, msg = replicate 100 (CHR 0x00)\<rparr>"

lemma timer_read_witness:
  "\<exists>d st'. procfile_read \<lparr>tv_sec = 102, tv_nsec = 400000000\<rparr> 4096 0 0 demo_timer =
      Inr ((int (length (current_line \<lparr>tv_sec = 102, tv_nsec = 400000000\<rparr> @ elapsed_line d)),
            Some (current_line \<lparr>tv_sec = 102, tv_nsec = 400000000\<rparr> @ elapsed_line d),
            int (length (current_line \<lparr>tv_sec = 102, tv_nsec = 400000000\<rparr> @ elapsed_line d))), st')
    \<and> 1000000000 * tv_sec d + tv_nsec d = 1500000000"
  using timer_read [of "\<lparr>tv_sec = 102, tv_nsec = 400000000\<rparr>" demo_timer 4096]
  by (auto simp: demo_timer_def clock_time_def nanos_def simp del: length_append)

text \<open>
  The first read, and every read that follows one made exactly on a full second: the
  previous time counts as unknown, only the current time is printed, and it becomes the
  previous time.
\<close>

lemma timer_first_read:
  assumes "clock_time now" and "clock_time (t0 st)" and "nanos (t0 st) \<le> nanos now"
    and "tv_nsec (t0 st) = 0" and "70 \<le> count"
  shows "\<exists>st'. procfile_read now count 0 0 st =
      Inr ((int (length (current_line now)), Some (current_line now), int (length (current_line now))), st')
    \<and> t0 st' = now"
proof -
  have n: "length (current_line now) \<le> 35" by (rule length_lines(1) [OF assms(1)])
  then show ?thesis
    using read_text [OF assms(1-3)] assms(4,5) by (simp add: deliver_def Let_def wrap8_id)
qed

text \<open>
  End of file and failures: a reader past the start, or whose buffer is shorter than the
  text, gets 0, and one whose memory cannot be written gets \<open>-EFAULT\<close>; in all three cases nothing
  is delivered and the previous time is kept, so the next full read still measures from it.
\<close>

lemma timer_read_keeps_previous_time:
  assumes "clock_time now" and "clock_time (t0 st)" and "nanos (t0 st) \<le> nanos now"
    and "0 < ppos \<or> (0 \<le> count \<and> count < int (length (timer_text now st))) \<or> left \<noteq> 0"
  shows "\<exists>r st'. procfile_read now count ppos left st = Inr ((r, None, ppos), st')
    \<and> (r = 0 \<or> r = - EFAULT) \<and> t0 st' = t0 st"
proof -
  have "length (timer_text now st) \<le> 70"
    using length_lines(1) [OF assms(1)] length_lines(2) [OF time_diff_exact(1) [OF assms(1-3)]]
    by (simp add: timer_text_def)
  then have w: "wrap8 (int (length (timer_text now st))) = int (length (timer_text now st))"
      "int (length (timer_text now st)) mod 18446744073709551616 = int (length (timer_text now st))"
    by (simp_all add: wrap8_id)
  have "\<exists>r st'. deliver (timer_text now st) count ppos left st1 = ((r, None, ppos), st')
      \<and> (r = 0 \<or> r = - EFAULT) \<and> t0 st' = t0 st1" for st1
    using assms(4) by (auto simp: deliver_def Let_def w)
  moreover have "\<exists>st1. procfile_read now count ppos left st = Inr (deliver (timer_text now st) count ppos left st1)
      \<and> t0 st1 = t0 st"
    using read_text [OF assms(1-3)]
    by (cases "tv_nsec (t0 st) > 0") (auto simp: timer_text_def intro!: exI)
  ultimately show ?thesis by metis
qed

text \<open>What a reader makes of a printed time: the digits behind the point are a decimal fraction.\<close>

definition decimal_value :: "string \<Rightarrow> rat" where
  "decimal_value s =
     (let whole = takeWhile (\<lambda>c. c \<noteq> CHR ''.'') s; frac = drop (Suc (length whole)) s
      in of_nat (read_nat whole) + of_nat (read_nat frac) / 10 ^ length frac)"

lemma decimal_value_time_text:
  assumes "0 \<le> tv_sec t" and "0 \<le> tv_nsec t"
  shows "decimal_value (time_text t) =
    of_int (tv_sec t) + of_int (tv_nsec t) / 10 ^ length (show_nat (nat (tv_nsec t)))"
proof -
  note nn = assms
  then have t: "time_text t = show_nat (nat (tv_sec t)) @ CHR ''.'' # show_nat (nat (tv_nsec t))"
    by (simp add: time_text_def show_int_def)
  have "takeWhile (\<lambda>c. c \<noteq> CHR ''.'') (time_text t) = show_nat (nat (tv_sec t))"
    unfolding t using show_nat_digits digit_not_special by (subst takeWhile_append2) fastforce+
  moreover have "drop (Suc (length (show_nat (nat (tv_sec t))))) (time_text t) = show_nat (nat (tv_nsec t))"
    unfolding t by simp
  ultimately show ?thesis
    unfolding decimal_value_def Let_def using nn by (simp only: read_show_nat) simp
qed

text \<open>
  C40. The nanoseconds are printed without leading zeros: read as a decimal number, what the
  timer prints is the time it stands for exactly when the nanoseconds have all nine digits or
  are 0. So 1.007495999 seconds come out as 1.7495999.
\<close>

theorem printed_time_is_right_iff:
  assumes "clock_time t"
  shows "decimal_value (time_text t) = of_int (nanos t) / 1000000000
    \<longleftrightarrow> tv_nsec t = 0 \<or> 100000000 \<le> tv_nsec t"
proof -
  let ?n = "nat (tv_nsec t)" and ?k = "length (show_nat (nat (tv_nsec t)))"
  have b: "0 \<le> tv_sec t" "0 \<le> tv_nsec t" "tv_nsec t < 1000000000" using assms by (auto simp: clock_time_def)
  have k9: "?k = 9 \<longleftrightarrow> 100000000 \<le> tv_nsec t"
  proof (cases "100000000 \<le> tv_nsec t")
    case True
    then have "Suc 8 \<le> ?k" "?k \<le> Suc 8"
      using b by (intro show_nat_at_least length_show_nat; simp)+
    then show ?thesis using True by simp
  next
    case False
    then have "?k \<le> Suc 7" using b by (intro length_show_nat) simp
    then show ?thesis using False by simp
  qed
  have "decimal_value (time_text t) = of_int (nanos t) / 1000000000
      \<longleftrightarrow> (of_int (tv_nsec t) / 10 ^ ?k :: rat) = of_int (tv_nsec t) / 10 ^ 9"
    by (simp add: decimal_value_time_text [OF b(1,2)] nanos_def add_divide_distrib)
  also have "\<dots> \<longleftrightarrow> tv_nsec t = 0 \<or> (10 ^ ?k :: rat) = 10 ^ 9"
    by (auto simp: field_simps)
  also have "\<dots> \<longleftrightarrow> tv_nsec t = 0 \<or> ?k = 9"
    using power_inject_exp [of "10 :: rat" ?k 9] by simp
  finally show ?thesis using k9 by blast
qed

theorem printed_time_is_right_iff_witness:
  "decimal_value (time_text \<lparr>tv_sec = 1, tv_nsec = 7495999\<rparr>) \<noteq> of_int 1007495999 / 1000000000"
  using printed_time_is_right_iff [of "\<lparr>tv_sec = 1, tv_nsec = 7495999\<rparr>"]
  by (simp add: clock_time_def nanos_def)

text \<open>
  Writing to the timer: up to 99 bytes are stored and the call returns their number; the
  array keeps its 100 bytes and its last NUL. With 100 bytes or more that hold no NUL, the
  array is left without one, and printing it as a string reads past its end.
\<close>

lemma timer_write:
  assumes "length (msg st) = 100" and "msg st ! 99 = CHR 0x00" and "count \<le> length ubuf"
  shows "(count < 100 \<longrightarrow> (\<exists>st'. procfile_write ubuf count st = Inr (int count, st')
      \<and> length (msg st') = 100 \<and> msg st' ! 99 = CHR 0x00 \<and> take count (msg st') = take count ubuf))
    \<and> (100 \<le> count \<and> CHR 0x00 \<notin> set (take 100 ubuf) \<longrightarrow> procfile_write ubuf count st = Inl OutOfBounds)"
proof -
  have w: "wrap8 (int n) = int n" if "n \<le> 100" for n using that by (simp add: wrap8_id)
  have short: "\<exists>st'. procfile_write ubuf count st = Inr (int count, st')
      \<and> length (msg st') = 100 \<and> msg st' ! 99 = CHR 0x00 \<and> take count (msg st') = take count ubuf"
    if c: "count < 100"
  proof -
    let ?new = "take count ubuf @ drop count (msg st)"
    have n: "length ?new = 100" "?new ! 99 = CHR 0x00"
      using assms c by (auto simp: nth_append min_def)
    then have "CHR 0x00 \<in> set ?new" using nth_mem [of 99 ?new] by simp
    then show ?thesis
      using c n assms(3) by (simp add: procfile_write_def w Let_def c_string_def res_simps)
  qed
  have "procfile_write ubuf count st = Inl OutOfBounds"
    if "100 \<le> count" "CHR 0x00 \<notin> set (take 100 ubuf)"
    using that assms(1) by (simp add: procfile_write_def w Let_def c_string_def res_simps min_def)
  then show ?thesis using short by blast
qed

lemma timer_write_witness:
  "procfile_write (replicate 200 (CHR ''x'')) 200 demo_timer = Inl OutOfBounds
    \<and> (\<exists>st'. procfile_write ''hello'' 5 demo_timer = Inr (5, st'))"
  using timer_write [of demo_timer 200 "replicate 200 (CHR ''x'')"] timer_write [of demo_timer 5 "''hello''"]
  by (auto simp: demo_timer_def)

section \<open>A session\<close>

text \<open>
  The reference: elapsed time by division with remainder. A previous time without nanoseconds
  counts as not known, be it that nobody has read yet or that the last read came on a full second.
\<close>

definition elapsed :: "timespec \<Rightarrow> timespec \<Rightarrow> timespec" where
  "elapsed now before =
     \<lparr>tv_sec = (nanos now - nanos before) div 1000000000, tv_nsec = (nanos now - nanos before) mod 1000000000\<rparr>"

fun reference :: "timespec \<Rightarrow> timespec list \<Rightarrow> string list" where
  "reference before [] = []"
| "reference before (now # nows) =
     (current_line now @ (if tv_nsec before = 0 then [] else elapsed_line (elapsed now before))) # reference now nows"

fun ticks :: "timespec \<Rightarrow> timespec list \<Rightarrow> bool" where
  "ticks before [] \<longleftrightarrow> True"
| "ticks before (now # nows) \<longleftrightarrow> clock_time now \<and> nanos before \<le> nanos now \<and> ticks now nows"

definition never :: timespec where
  "never = \<lparr>tv_sec = 0, tv_nsec = 0\<rparr>"

lemma time_diff_elapsed:
  assumes "clock_time a" and "clock_time b" and "nanos b \<le> nanos a"
  shows "time_diff a b = elapsed a b"
proof -
  let ?d = "time_diff a b"
  have d: "0 \<le> tv_nsec ?d" "tv_nsec ?d < 1000000000" "nanos ?d = nanos a - nanos b"
    using time_diff_exact [OF assms] by (auto simp: clock_time_def)
  have "tv_sec ?d = (nanos a - nanos b) div 1000000000" "tv_nsec ?d = (nanos a - nanos b) mod 1000000000"
    unfolding d(3) [symmetric] using d(1,2) by (simp_all add: nanos_def)
  then show ?thesis by (intro timespec.equality) (simp_all add: elapsed_def)
qed

lemma cat_eq:
  assumes "clock_time now" and "clock_time (t0 st)" and "nanos (t0 st) \<le> nanos now"
  shows "\<exists>st'. cat now st = Inr (timer_text now st, st') \<and> t0 st' = now"
proof -
  let ?x = "timer_text now st"
  have n: "length ?x \<le> 70" "0 < length ?x"
    using length_lines(1) [OF assms(1)] length_lines(2) [OF time_diff_exact(1) [OF assms]]
    by (simp_all add: timer_text_def current_line_def)
  then have w: "wrap8 (int (length ?x)) = int (length ?x)"
      "\<not> 4096 < int (length ?x) mod 18446744073709551616"
    by (simp_all add: wrap8_id)
  obtain st1 where st1: "procfile_read now 4096 0 0 st = Inr (deliver ?x 4096 0 0 st1)" "t1 st1 = now"
    using read_text [OF assms, of 4096 0 0]
    by (cases "tv_nsec (t0 st) > 0") (auto simp: timer_text_def)
  let ?st = "st1\<lparr>procfs_buf_len := int (length ?x), t0 := now\<rparr>"
  have first: "procfile_read now 4096 0 0 st = Inr ((int (length ?x), Some ?x, int (length ?x)), ?st)"
    using st1 w by (simp add: deliver_def Let_def)
  have t: "clock_time (t0 ?st)" "nanos (t0 ?st) \<le> nanos now" using assms(1) by simp_all
  have "0 < int (length ?x) \<or> (0 \<le> (4096 :: int) \<and> 4096 < int (length (timer_text now ?st))) \<or> (0 :: int) \<noteq> 0"
    using n(2) by simp
  from timer_read_keeps_previous_time [OF assms(1) t this]
  obtain r st2 where "procfile_read now 4096 (int (length ?x)) 0 ?st = Inr ((r, None, int (length ?x)), st2)"
      "r = 0 \<or> r = - EFAULT" "t0 st2 = now" by auto
  moreover have "r = 0"
    using calculation(1,2) read_text [OF assms(1) t, of 4096 "int (length ?x)" 0] n(2)
    by (auto simp: deliver_def Let_def split: if_splits)
  ultimately show ?thesis using first by (simp add: cat_def)
qed

text \<open>
  C39. A session: from a successful load on, however often the file is read to its end, at any times that a
  clock which does not go back shows until the year 2286, each text is the one the reference
  gives: the current time and, unless this is the first read or the read before came on a full
  second, the time since the read before, which is the difference of the two times in
  nanoseconds divided into seconds and a remainder. No read fails, and an unload removes the entry.
\<close>

theorem timer_session:
  assumes "ticks never nows"
  shows "case load_timer True m of (r, m1) \<Rightarrow> r = 0 \<and> timer_entry m1 \<and> \<not> timer_entry (unload_timer m1) \<and>
    (\<exists>st. cats nows (timer m1) = Inr (reference never nows, st))"
proof -
  have rest: "ticks (t0 st) nows \<Longrightarrow> clock_time (t0 st) \<Longrightarrow>
      \<exists>st'. cats nows st = Inr (reference (t0 st) nows, st')" for nows st
  proof (induction nows arbitrary: st)
    case (Cons n nows)
    then have n: "clock_time n" "nanos (t0 st) \<le> nanos n" "ticks n nows" by simp_all
    have "0 \<le> tv_nsec (t0 st)" using Cons.prems(2) by (simp add: clock_time_def)
    obtain st1 where st1: "cat n st = Inr (timer_text n st, st1)" "t0 st1 = n"
      using cat_eq [OF n(1) Cons.prems(2) n(2)] by blast
    then obtain st2 where "cats nows st1 = Inr (reference n nows, st2)" using Cons.IH [of st1] n by auto
    then show ?case
      using st1 time_diff_elapsed [OF n(1) Cons.prems(2) n(2)] \<open>0 \<le> tv_nsec (t0 st)\<close>
      by (simp add: timer_text_def res_simps)
  qed simp
  have "t0 timer_bss = never" "clock_time never" by (simp_all add: timer_bss_def never_def clock_time_def)
  then obtain st where "cats nows timer_bss = Inr (reference never nows, st)" using rest [of timer_bss nows] assms by auto
  then show ?thesis by (simp add: load_timer_def timer_init_def unload_timer_def timer_exit_def Let_def)
qed

text \<open>The second read comes on a full second, so the third does not show the time since.\<close>

definition demo_times :: "timespec list" where
  "demo_times = [\<lparr>tv_sec = 100, tv_nsec = 900000000\<rparr>, \<lparr>tv_sec = 103, tv_nsec = 0\<rparr>, \<lparr>tv_sec = 104, tv_nsec = 5\<rparr>]"

theorem timer_session_witness:
  "case load_timer True \<lparr>timer_entry = False, timer_mapped = False, timer = demo_timer\<rparr> of (r, m1) \<Rightarrow>
    (\<exists>st. cats demo_times (timer m1) = Inr ([current_line (demo_times ! 0),
       current_line (demo_times ! 1) @ elapsed_line \<lparr>tv_sec = 2, tv_nsec = 100000000\<rparr>, current_line (demo_times ! 2)], st))"
proof -
  have t: "ticks never demo_times" by (simp add: demo_times_def clock_time_def nanos_def never_def)
  have "reference never demo_times = [current_line (demo_times ! 0),
       current_line (demo_times ! 1) @ elapsed_line \<lparr>tv_sec = 2, tv_nsec = 100000000\<rparr>, current_line (demo_times ! 2)]"
    by (simp add: demo_times_def never_def elapsed_def nanos_def)
  with timer_session [OF t, of "\<lparr>timer_entry = False, timer_mapped = False, timer = demo_timer\<rparr>"]
  show ?thesis by auto
qed

end
