(* ===== verification/TimerRace.thy ===== *)
theory TimerRace
  imports Timer
begin

text \<open>
  Readers of \<open>/proc/timer\<close> at the same time. The two times, their difference and the length of the
  text are static variables that no lock protects; \<open>procfile_read\<close> is cut at every access to one
  of them, and what a reader keeps between the cuts is its local text and what it has tested.
\<close>

section \<open>The code in segments\<close>

text \<open>
  The numbers after a position: the local buffer's size and text; \<open>b\<close> tells whether a previous
  time was known, \<open>w\<close> whether a second has to be borrowed.
\<close>

datatype reading =
    RTest
  | RClock bool
  | RCurrent bool
  | RBorrow string
  | RSec bool string
  | RNsec bool string
  | RElapsed string
  | RLength nat string
  | RCheck nat string
  | RCopy nat string
  | RPrevious string
  | RReturn string
  | RDone int "string option" int

text \<open>
  \<open>copy_to_user\<close> reads \<open>procfs_buf_len\<close> bytes of the local buffer, which the initialiser filled with
  zeros behind the text.
\<close>

definition copy_out :: "nat \<Rightarrow> int \<Rightarrow> string \<Rightarrow> fault + string" where
  "copy_out cap n text =
     (if n < 0 \<or> int cap < n then Inl OutOfBounds
      else Inr (take (nat n) (text @ replicate (cap - length text) (CHR 0x00))))"

fun read_segment ::
  "timespec \<Rightarrow> int \<Rightarrow> int \<Rightarrow> int \<Rightarrow> reading \<Rightarrow> timer_state \<Rightarrow> fault + (reading \<times> timer_state)" where
  "read_segment now count ppos left RTest st = Inr (RClock (tv_nsec (t0 st) > 0), st)"
| "read_segment now count ppos left (RClock b) st = Inr (RCurrent b, st\<lparr>t1 := now\<rparr>)"
| "read_segment now count ppos left (RCurrent b) st =
     rbind (time_line (if b then 200 else 1000) ''current time: '' (t1 st)) (\<lambda>text.
       Inr (if b then RBorrow text else RLength 1000 text, st))"
| "read_segment now count ppos left (RBorrow text) st = Inr (RSec (tv_nsec (t1 st) < tv_nsec (t0 st)) text, st)"
| "read_segment now count ppos left (RSec w text) st =
     (let sec = wrap64 (tv_sec (t1 st) - tv_sec (t0 st))
      in Inr (RNsec w text, st\<lparr>diff := (diff st)\<lparr>tv_sec := if w then wrap64 (sec - 1) else sec\<rparr>\<rparr>))"
| "read_segment now count ppos left (RNsec w text) st =
     (let a = tv_nsec (t1 st); b = tv_nsec (t0 st)
      in Inr (RElapsed text, st\<lparr>diff := (diff st)
           \<lparr>tv_nsec := if w then wrap64 (wrap64 (1000000000 + a) - b) else wrap64 (a - b)\<rparr>\<rparr>))"
| "read_segment now count ppos left (RElapsed text) st =
     rbind (time_line 100 ''elapsed time: '' (diff st)) (\<lambda>line.
     rbind (strcat 200 text line) (\<lambda>text. Inr (RLength 200 text, st)))"
| "read_segment now count ppos left (RLength cap text) st =
     Inr (RCheck cap text, st\<lparr>procfs_buf_len := wrap8 (int (length text))\<rparr>)"
| "read_segment now count ppos left (RCheck cap text) st =
     Inr (if ppos > 0 \<or> count < procfs_buf_len st mod 18446744073709551616 then RDone 0 None ppos
          else RCopy cap text, st)"
| "read_segment now count ppos left (RCopy cap text) st =
     rbind (copy_out cap (procfs_buf_len st) text) (\<lambda>out.
       Inr (if left \<noteq> 0 then RDone (- EFAULT) None ppos else RPrevious out, st))"
| "read_segment now count ppos left (RPrevious out) st = Inr (RReturn out, st\<lparr>t0 := t1 st\<rparr>)"
| "read_segment now count ppos left (RReturn out) st =
     Inr (RDone (procfs_buf_len st) (Some out) (procfs_buf_len st), st)"
| "read_segment now count ppos left (RDone r out pos) st = Inr (RDone r out pos, st)"

fun run_reading :: "nat \<Rightarrow> timespec \<Rightarrow> int \<Rightarrow> int \<Rightarrow> int \<Rightarrow> reading \<times> timer_state \<Rightarrow> fault + (reading \<times> timer_state)" where
  "run_reading 0 now count ppos left x = Inr x"
| "run_reading (Suc n) now count ppos left x =
     rbind (read_segment now count ppos left (fst x) (snd x)) (run_reading n now count ppos left)"

section \<open>Alone\<close>

lemma run_reading_done: "run_reading n now count ppos left (RDone r out pos, st) = Inr (RDone r out pos, st)"
  by (induction n) (simp_all add: res_simps)

lemma copy_all: "length text \<le> 127 \<Longrightarrow> 127 \<le> cap \<Longrightarrow> copy_out cap (int (length text)) text = Inr text"
  by (simp add: copy_out_def)

text \<open>The tail of both branches.\<close>

lemma tail_alone:
  assumes "length text \<le> 127" and "127 \<le> cap"
  shows "run_reading (n + 5) now count ppos left (RLength cap text, st) =
    (let ((r, out, pos), st') = deliver text count ppos left st in Inr (RDone r out pos, st'))"
proof -
  have w: "wrap8 (int (length text)) = int (length text)" using assms(1) by (simp add: wrap8_id)
  have five: "n + 5 = Suc (Suc (Suc (Suc (Suc n))))" by simp
  show ?thesis
    unfolding five
    by (auto simp: res_simps deliver_def Let_def w copy_all [OF assms] run_reading_done)
qed

lemma run_reading_add:
  "run_reading (m + n) now count ppos left x = rbind (run_reading m now count ppos left x) (run_reading n now count ppos left)"
proof (induction m arbitrary: x)
  case (Suc m)
  then show ?case by (cases "read_segment now count ppos left (fst x) (snd x)") (simp_all add: res_simps)
qed (simp add: res_simps)

lemma seven: "(7 :: nat) = Suc (Suc (Suc (Suc (Suc (Suc (Suc 0))))))" and three: "(3 :: nat) = Suc (Suc (Suc 0))"
  by simp_all

lemma set_both: "(x :: timespec)\<lparr>tv_sec := a, tv_nsec := b\<rparr> = \<lparr>tv_sec = a, tv_nsec = b\<rparr>"
  by (cases x) simp

lemma head_alone:
  assumes "clock_time now" and "clock_time (t0 st)" and "nanos (t0 st) \<le> nanos now"
  shows "tv_nsec (t0 st) > 0 \<Longrightarrow> run_reading 7 now count ppos left (RTest, st) =
      Inr (RLength 200 (current_line now @ elapsed_line (time_diff now (t0 st))),
        st\<lparr>t1 := now, diff := time_diff now (t0 st)\<rparr>)"
    and "\<not> tv_nsec (t0 st) > 0 \<Longrightarrow> run_reading 3 now count ppos left (RTest, st) =
      Inr (RLength 1000 (current_line now), st\<lparr>t1 := now\<rparr>)"
proof -
  let ?d = "time_diff now (t0 st)"
  note d = time_diff_exact(1) [OF assms]
  have l: "length (current_line now) + length (elapsed_line ?d) < 200"
    using length_lines(1) [OF assms(1)] length_lines(2) [OF d] by linarith
  show "tv_nsec (t0 st) > 0 \<Longrightarrow> run_reading 7 now count ppos left (RTest, st) =
      Inr (RLength 200 (current_line now @ elapsed_line ?d), st\<lparr>t1 := now, diff := ?d\<rparr>)"
  proof (cases "tv_nsec now < tv_nsec (t0 st)")
    case True
    then have e: "?d = \<lparr>tv_sec = wrap64 (wrap64 (tv_sec now - tv_sec (t0 st)) - 1),
        tv_nsec = wrap64 (wrap64 (1000000000 + tv_nsec now) - tv_nsec (t0 st))\<rparr>" by (simp add: time_diff_def)
    assume "tv_nsec (t0 st) > 0"
    then show ?thesis
      using True time_lines(1) [OF assms(1), of 200] time_lines(2) [OF d, of 100] l
      unfolding seven e by (simp add: set_both res_simps strcat_def Let_def)
  next
    case False
    then have e: "?d = \<lparr>tv_sec = wrap64 (tv_sec now - tv_sec (t0 st)), tv_nsec = wrap64 (tv_nsec now - tv_nsec (t0 st))\<rparr>"
      by (simp add: time_diff_def)
    assume "tv_nsec (t0 st) > 0"
    then show ?thesis
      using False time_lines(1) [OF assms(1), of 200] time_lines(2) [OF d, of 100] l
      unfolding seven e by (simp add: set_both res_simps strcat_def Let_def)
  qed
  show "\<not> tv_nsec (t0 st) > 0 \<Longrightarrow> run_reading 3 now count ppos left (RTest, st) =
      Inr (RLength 1000 (current_line now), st\<lparr>t1 := now\<rparr>)"
    unfolding three by (simp add: time_lines(1) [OF assms(1)] res_simps)
qed

text \<open>A read that nobody disturbs, in segments, is the read.\<close>

lemma read_in_segments:
  assumes "clock_time now" and "clock_time (t0 st)" and "nanos (t0 st) \<le> nanos now"
  shows "run_reading 12 now count ppos left (RTest, st) =
    rbind (procfile_read now count ppos left st) (\<lambda>((r, out, pos), st'). Inr (RDone r out pos, st'))"
proof (cases "tv_nsec (t0 st) > 0")
  case True
  let ?text = "current_line now @ elapsed_line (time_diff now (t0 st))"
  have "length ?text \<le> 127"
    using length_lines(1) [OF assms(1)] length_lines(2) [OF time_diff_exact(1) [OF assms]] by simp
  then show ?thesis
    using run_reading_add [of 7 5 now count ppos left "(RTest, st)"] tail_alone [of ?text 200 0] True
    unfolding read_text [OF assms] head_alone(1) [OF assms True]
    by (auto simp: Let_def res_simps split: prod.splits)
next
  case False
  have "length (current_line now) \<le> 127" using length_lines(1) [OF assms(1)] by simp
  then show ?thesis
    using run_reading_add [of 3 9 now count ppos left "(RTest, st)"] tail_alone [of "current_line now" 1000 4] False
    unfolding read_text [OF assms] head_alone(2) [OF assms False]
    by (auto simp: Let_def res_simps split: prod.splits)
qed

section \<open>Together\<close>

text \<open>
  A second reader sets the current time after the first one has printed it and found that a
  second has to be borrowed.
\<close>

lemma torn_difference:
  assumes t: "clock_time a" "clock_time b" "clock_time (t0 st)"
    and borrow: "tv_nsec a < tv_nsec (t0 st)" and late: "tv_nsec (t0 st) \<le> tv_nsec b" "tv_sec (t0 st) < tv_sec b"
    and near: "tv_sec b - tv_sec (t0 st) \<le> 1000000000"
  defines "d \<equiv> \<lparr>tv_sec = tv_sec b - tv_sec (t0 st) - 1, tv_nsec = 1000000000 + (tv_nsec b - tv_nsec (t0 st))\<rparr>"
  shows "run_reading 4 a count ppos left (RTest, st) = Inr (RSec True (current_line a), st\<lparr>t1 := a\<rparr>)"
    and "read_segment b count ppos left (RClock True) (st\<lparr>t1 := a\<rparr>) = Inr (RCurrent True, st\<lparr>t1 := b\<rparr>)"
    and "run_reading 3 a count ppos left (RSec True (current_line a), st\<lparr>t1 := b\<rparr>) =
      Inr (RLength 200 (current_line a @ elapsed_line d), st\<lparr>t1 := b, diff := d\<rparr>)"
    and "length (current_line a @ elapsed_line d) \<le> 70"
proof -
  have r: "0 \<le> tv_sec b" "tv_sec b < 10000000000" "0 \<le> tv_nsec b" "tv_nsec b < 1000000000"
      "0 \<le> tv_sec (t0 st)" "0 \<le> tv_nsec (t0 st)" "0 < tv_nsec (t0 st)" "tv_nsec (t0 st) < 1000000000"
    using t borrow by (auto simp: clock_time_def)
  have four: "(4 :: nat) = Suc (Suc (Suc (Suc 0)))" by simp
  have "length (show_int (tv_sec d)) \<le> Suc 8" "length (show_int (tv_nsec d)) \<le> Suc 9"
    by (rule length_show_int_nonneg; use r late near in \<open>simp add: d_def\<close>)+
  then have tt: "length (time_text d) \<le> 20" by (simp add: time_text_def)
  then have l: "length (current_line a) \<le> 35" "length (elapsed_line d) \<le> 35"
    using length_lines(1) [OF t(1)] by (simp_all add: elapsed_line_def)
  then show "length (current_line a @ elapsed_line d) \<le> 70" by simp
  show "run_reading 4 a count ppos left (RTest, st) = Inr (RSec True (current_line a), st\<lparr>t1 := a\<rparr>)"
    using time_lines(1) [OF t(1), of 200] r(7) borrow unfolding four by (simp add: res_simps)
  show "read_segment b count ppos left (RClock True) (st\<lparr>t1 := a\<rparr>) = Inr (RCurrent True, st\<lparr>t1 := b\<rparr>)"
    by simp
  have w: "wrap64 (wrap64 (tv_sec b - tv_sec (t0 st)) - 1) = tv_sec d"
      "wrap64 (wrap64 (1000000000 + tv_nsec b) - tv_nsec (t0 st)) = tv_nsec d"
    using r late by (simp_all add: wrap64_id d_def)
  have "time_line 100 ''elapsed time: '' d = Inr (elapsed_line d)"
    using tt by (simp add: time_line_def elapsed_line_def res_simps)
  moreover obtain u v where "d = \<lparr>tv_sec = u, tv_nsec = v\<rparr>" by (cases d)
  ultimately show "run_reading 3 a count ppos left (RSec True (current_line a), st\<lparr>t1 := b\<rparr>) =
      Inr (RLength 200 (current_line a @ elapsed_line d), st\<lparr>t1 := b, diff := d\<rparr>)"
    using l unfolding three by (simp add: set_both w res_simps Let_def strcat_def)
qed

section \<open>Properties\<close>

text \<open>
  C35. Two readers of \<open>/proc/timer\<close>, each with room for 70 bytes, at times a clock shows until the
  year 2286: one has printed its time and found
  that a second must be borrowed; the other stores a time in a later second, at most 10^9 seconds
  after the previous time, whose nanoseconds need no borrowing. The first one then succeeds with
  an elapsed time that adds up, to the time the other has stored, but in 1000000000 nanoseconds or more: their ten digits
  behind the point read as a fraction, a tenth of what they stand for. The current time above it
  is not the one it was computed from, and the other's becomes the previous time.
\<close>

theorem readers_tear_the_difference:
  assumes "clock_time a" and "clock_time b" and "clock_time (t0 st)"
    and "tv_nsec a < tv_nsec (t0 st)" and "tv_nsec (t0 st) \<le> tv_nsec b" and "tv_sec (t0 st) < tv_sec b"
    and "tv_sec b - tv_sec (t0 st) \<le> 1000000000" and "70 \<le> count"
  shows "\<exists>x y z n d. run_reading 4 a count 0 0 (RTest, st) = Inr (RSec True x, y)
    \<and> run_reading 2 b count 0 0 (RTest, y) = Inr (RCurrent True, z)
    \<and> run_reading 8 a count 0 0 (RSec True x, z) =
        Inr (RDone n (Some (current_line a @ elapsed_line d)) n, z\<lparr>diff := d, procfs_buf_len := n, t0 := b\<rparr>)
    \<and> d = \<lparr>tv_sec = tv_sec b - tv_sec (t0 st) - 1, tv_nsec = 1000000000 + (tv_nsec b - tv_nsec (t0 st))\<rparr>
    \<and> 0 < n \<and> 1000000000 \<le> tv_nsec d \<and> nanos d = nanos b - nanos (t0 st)
    \<and> decimal_value (time_text d) = of_int (tv_sec d) + (of_int (tv_nsec d) / 1000000000) / 10"
proof -
  let ?d = "\<lparr>tv_sec = tv_sec b - tv_sec (t0 st) - 1, tv_nsec = 1000000000 + (tv_nsec b - tv_nsec (t0 st))\<rparr>"
  let ?text = "current_line a @ elapsed_line ?d"
  let ?z = "st\<lparr>t1 := b\<rparr>" and ?n = "int (length ?text)"
  note torn = torn_difference [OF assms(1-7)]
  have two: "(2 :: nat) = Suc (Suc 0)" and eight: "(8 :: nat) = 3 + 5" by simp_all
  have "0 < tv_nsec (t0 st)" using assms(1,4) by (auto simp: clock_time_def)
  then have second: "run_reading 2 b count 0 0 (RTest, st\<lparr>t1 := a\<rparr>) = Inr (RCurrent True, ?z)"
    unfolding two by (simp add: res_simps)
  have "deliver ?text count 0 0 (?z\<lparr>diff := ?d\<rparr>) = ((?n, Some ?text, ?n), ?z\<lparr>diff := ?d, procfs_buf_len := ?n, t0 := b\<rparr>)"
  proof -
    have "wrap8 ?n = ?n" "\<not> count < ?n mod 18446744073709551616" using torn(4) assms(8) by (simp_all add: wrap8_id)
    then show ?thesis by (simp add: deliver_def Let_def del: length_append)
  qed
  moreover have "length ?text \<le> 127" using torn(4) by linarith
  ultimately have tail: "run_reading 5 a count 0 0 (RLength 200 ?text, ?z\<lparr>diff := ?d\<rparr>) =
      Inr (RDone ?n (Some ?text) ?n, ?z\<lparr>diff := ?d, procfs_buf_len := ?n, t0 := b\<rparr>)"
    using tail_alone [of ?text 200 0 a count 0 0 "?z\<lparr>diff := ?d\<rparr>"] by simp
  have "run_reading 8 a count 0 0 (RSec True (current_line a), ?z) =
      Inr (RDone ?n (Some ?text) ?n, ?z\<lparr>diff := ?d, procfs_buf_len := ?n, t0 := b\<rparr>)"
    unfolding eight run_reading_add torn(3) rbind.simps by (rule tail)
  moreover have "0 < ?n" by (simp add: current_line_def)
  moreover have "1000000000 \<le> tv_nsec ?d" using assms(5) by simp
  moreover have "nanos ?d = nanos b - nanos (t0 st)" by (simp add: nanos_def)
  moreover have "decimal_value (time_text ?d) = of_int (tv_sec ?d) + (of_int (tv_nsec ?d) / 1000000000) / 10"
  proof -
    have b: "1000000000 \<le> tv_nsec ?d" "tv_nsec ?d < 2000000000" "0 \<le> tv_sec ?d"
      using assms(2-6) by (auto simp: clock_time_def)
    then have "Suc 9 \<le> length (show_nat (nat (tv_nsec ?d)))" "length (show_nat (nat (tv_nsec ?d))) \<le> Suc 9"
      by (intro show_nat_at_least length_show_nat; simp)+
    then have "length (show_nat (nat (tv_nsec ?d))) = 10" by simp
    then show ?thesis using decimal_value_time_text [of ?d] b by simp
  qed
  ultimately show ?thesis using torn(1) second by blast
qed

theorem readers_tear_the_difference_witness:
  "\<exists>x y z n. run_reading 4 \<lparr>tv_sec = 102, tv_nsec = 300000000\<rparr> 4096 0 0
      (RTest, timer_bss\<lparr>t0 := \<lparr>tv_sec = 101, tv_nsec = 500000000\<rparr>\<rparr>) = Inr (RSec True x, y)
    \<and> run_reading 2 \<lparr>tv_sec = 102, tv_nsec = 900000000\<rparr> 4096 0 0 (RTest, y) = Inr (RCurrent True, z)
    \<and> fst (projr (run_reading 8 \<lparr>tv_sec = 102, tv_nsec = 300000000\<rparr> 4096 0 0 (RSec True x, z))) =
      RDone n (Some (current_line \<lparr>tv_sec = 102, tv_nsec = 300000000\<rparr>
        @ elapsed_line \<lparr>tv_sec = 0, tv_nsec = 1400000000\<rparr>)) n"
proof -
  have "clock_time \<lparr>tv_sec = 102, tv_nsec = 300000000\<rparr>" "clock_time \<lparr>tv_sec = 102, tv_nsec = 900000000\<rparr>"
      "clock_time (t0 (timer_bss\<lparr>t0 := \<lparr>tv_sec = 101, tv_nsec = 500000000\<rparr>\<rparr>))"
    by (simp_all add: clock_time_def)
  from readers_tear_the_difference [OF this, of 4096] show ?thesis by simp (elim exE conjE, force)
qed

end
