(* ===== verification/Part1.thy ===== *)
theory Part1
  imports Main
begin

text \<open>
  The two programs of \<open>part1\<close>, made to be traced with \<open>strace\<close>: an empty \<open>main\<close> and one that
  calls \<open>sleep\<close> seven times. The library's \<open>sleep\<close> is an argument; it takes the seconds and
  the state of the process and returns the seconds that were left when a signal woke it.
\<close>

definition empty_main :: "(nat \<Rightarrow> 'w \<Rightarrow> nat \<times> 'w) \<Rightarrow> 'w \<Rightarrow> int \<times> 'w" where
  "empty_main sleep w = (0, w)"

text \<open>Seven times \<open>sleep(1);\<close>, each without a look at what it returns.\<close>

definition part1_main :: "(nat \<Rightarrow> 'w \<Rightarrow> nat \<times> 'w) \<Rightarrow> 'w \<Rightarrow> int \<times> 'w" where
  "part1_main sleep w = (0, ((\<lambda>w. snd (sleep 1 w)) ^^ 7) w)"

text \<open>A quantity that every \<open>sleep(1)\<close> changes by an amount of its own adds up.\<close>

lemma sleeps_add_up:
  fixes q :: "'w \<Rightarrow> nat"
  assumes "\<And>w. q w + lo \<le> q (snd (sleep 1 w))" and "\<And>w. q (snd (sleep 1 w)) \<le> q w + hi"
  shows "q w + n * lo \<le> q (((\<lambda>w. snd (sleep 1 w)) ^^ n) w)"
    and "q (((\<lambda>w. snd (sleep 1 w)) ^^ n) w) \<le> q w + n * hi"
proof (induction n)
  case (Suc n)
  { case 1 show ?case using Suc(1) assms(1) [of "((\<lambda>w. snd (sleep 1 w)) ^^ n) w"] by simp }
  { case 2 show ?case using Suc(2) assms(2) [of "((\<lambda>w. snd (sleep 1 w)) ^^ n) w"] by simp }
qed simp_all

text \<open>
  What the second trace is to show: where \<open>sleep\<close> makes one system call, the program makes seven
  more than the empty one.
\<close>

lemma seven_more_system_calls:
  fixes trace :: "'w \<Rightarrow> 'c list"
  assumes "\<And>n w. length (trace (snd (sleep n w))) = length (trace w) + 1"
  shows "length (trace (snd (part1_main sleep w))) = length (trace (snd (empty_main sleep w))) + 7"
  using sleeps_add_up [where q = "\<lambda>w. length (trace w)" and lo = 1 and hi = 1 and sleep = sleep and w = w and n = 7] assms
  by (simp add: part1_main_def empty_main_def)

text \<open>
  The seconds left over are dropped: with a clock that a \<open>sleep(1)\<close> advances by a second less
  what it returns, at most seven seconds pass, and seven when no signal comes.
\<close>

lemma at_most_seven_seconds:
  fixes clock :: "'w \<Rightarrow> nat"
  assumes "\<And>w. clock (snd (sleep 1 w)) = clock w + (1 - fst (sleep 1 w))"
  shows "clock (snd (part1_main sleep w)) \<le> clock w + 7"
    and "(\<And>w. fst (sleep 1 w) = 0) \<Longrightarrow> clock (snd (part1_main sleep w)) = clock w + 7"
proof -
  show "clock (snd (part1_main sleep w)) \<le> clock w + 7"
    using sleeps_add_up(2) [where q = clock and lo = 0 and hi = 1 and sleep = sleep and w = w and n = 7] assms by (simp add: part1_main_def)
  assume "\<And>w. fst (sleep 1 w) = 0"
  then have "\<And>w. clock (snd (sleep 1 w)) = clock w + 1" using assms by simp
  then show "clock (snd (part1_main sleep w)) = clock w + 7"
    using sleeps_add_up [where q = clock and lo = 1 and hi = 1 and sleep = sleep and w = w and n = 7] by (simp add: part1_main_def)
qed

text \<open>With a \<open>sleep\<close> that records its calls and is never woken.\<close>

lemma part1_example: "part1_main (\<lambda>n calls. (0, calls @ [n])) [] = (0, replicate 7 1)"
  by (simp add: part1_main_def numeral_eq_Suc)

end
