(* ===== verification/Spec2Isabelle.thy ===== *)
theory Spec2Isabelle
  imports Contracts Starvation LockRuns ReportText ReaderRuns SharedReport ModuleEnd LifeEnd ReadersAtExit
    SyscallEntry TimerRace Part1
begin

text \<open>
  \<^bold>\<open>Verification of the elevator kernel module\<close>

  The program is a Linux kernel module (\<open>src/part3/elevator.c\<close>) that simulates an
  elevator in a building of ten floors. Three system calls
  (\<open>src/part3/syscall/part3.c\<close>) start it, stop it and queue passengers, humans or
  zombies; a kernel thread moves the cabin, unloads and loads; \<open>/proc/elevator\<close> shows
  the state. Two user programs (\<open>producer.c\<close>, \<open>consumer.c\<close>) make the
  calls. \<open>src/part1\<close> holds two programs made to be traced. A second, independent module
  (\<open>src/timer/my_timer.c\<close>) shows the time in \<open>/proc/timer\<close>.

  \<^bold>\<open>How the code is modelled.\<close> The globals of the module are one record,
  \<open>kstate\<close>, that every function of the code takes and returns. A \<open>struct
  list_head\<close> is the list of the addresses of the entries linked in it; the slab allocator is
  a finite map from the addresses allocated now to their contents, so that use after free, double
  free and leaks are visible. C integers are mathematical integers with the wrap-around written out
  (\<open>wrap32\<close>, which is shown to be the signed reading of a 32-bit word). What C leaves
  undefined or the kernel treats as a bug is a value of the datatype \<open>fault\<close>, and a
  function that can fault returns a sum. What the environment decides is an argument: the result of
  \<open>mutex_lock_interruptible\<close> (0 or an error), the address \<open>kmalloc\<close>
  returned or \<open>None\<close>, the clock, the values of \<open>rand\<close>.

  \<^bold>\<open>Theories.\<close>
  \<^item> \<open>Prelude\<close>: faults and their sequencing, C integers, arrays with bounds, runs
    of labelled step relations; the interfaces \<open>machine\<close> (a step that keeps an
    invariant), \<open>tally\<close> (a step that adds up modulo a number),
    \<open>simulation\<close> (a step that is an action of a specification) and
    \<open>stuttering\<close> (a step that is a step of another machine, or nothing seen from
    there).
  \<^item> \<open>KernelApi\<close>: lists, the allocator behind the interface
    \<open>object_store\<close>, the mutex.
  \<^item> \<open>ElevatorState\<close>: structs, globals, \<open>setup_elevator\<close>,
    \<open>thread_init_parameter\<close> and the invariant \<open>well_formed\<close>.
  \<^item> \<open>Movement\<close>: \<open>changeElevatorState\<close> and
    \<open>moveElevator\<close>; the interface \<open>sweep\<close> states that something that
    advances through 18 phases comes past every floor.
  \<^item> \<open>Boarding\<close>, \<open>Loading\<close>: \<open>unloadPassengers\<close> and
    \<open>loadPassengers\<close> as the code has them, loop by loop, and in closed form; the
    invariant is kept.
  \<^item> \<open>ElevatorCalls\<close>: \<open>start_elevator\<close>,
    \<open>issue_request\<close>, \<open>stop_elevator\<close>, \<open>removeAllPassengers\<close>
    with all their branches.
  \<^item> \<open>Scheduler\<close>: one round of the thread (\<open>scheduler_body\<close>), the
    loop (\<open>scheduler\<close>), the round cut into segments at the points where another thread
    can run in between, the calls cut in the same way (\<open>call_segment\<close>), and the step
    relation \<open>kstep\<close> that interleaves them for any number of calling threads.
  \<^item> \<open>Delivery\<close>, \<open>Reachability\<close>: what holds in every reachable
    state, and how long a passenger rides.
  \<^item> \<open>AbstractLift\<close>, \<open>LiftProgress\<close>: the elevator as a specification
    would have it, with passengers instead of addresses, and the proof that it serves everybody.
  \<^item> \<open>Refinement\<close>, \<open>Service\<close>, \<open>Contracts\<close>: the code
    refines that specification; what follows for service and for the time after a stop; the contract
    of each operation.
  \<^item> \<open>ThreadRecord\<close>: the fields of \<open>thread1\<close> other than the mutex never change once the
    init has set them.
  \<^item> \<open>Interleaving\<close>: the values every global can take, the two flags that no lock
    protects, a request that a stop overtakes, the refinement of the specification by every
    interleaving, and service from every reachable state.
  \<^item> \<open>Starvation\<close>: requests that keep coming and a passenger who is never let in.
  \<^item> \<open>LockSteps\<close>: the critical sections opened up; waiting for the mutex, the
    statements, the unlock, every \<open>kfree\<close> after it and the reset of
    \<open>status\<close> are steps of their own (\<open>fstep\<close>). Seen without what only one
    thread can reach, such a run is one of \<open>kstep\<close>. \<open>LockRuns\<close>: and every
    run of \<open>kstep\<close> is such a run, so the two machines reach the same states.
  \<^item> \<open>CString\<close>, \<open>ProcFile\<close>: formatted output into buffers of a known
    size, \<open>/proc/elevator\<close> and the debugging printers. \<open>ReportText\<close>: a
    reader of that text, built from parts that share the interface \<open>text_format\<close>.
    \<open>ReportRace\<close>: the same \<open>open\<close> cut where the scheduler can run.
    \<open>ReaderRuns\<close>: it and the elevator interleaved, with the interface
    \<open>budget\<close> (a step that takes from what is left).
    \<open>SharedReport\<close>: the segments of \<open>open\<close> over the global
    \<open>message\<close>, where another reader can run in between.
    \<open>Sessions\<close>: any number of readers opening, reading and releasing while the elevator
    runs (\<open>pstep\<close>); an \<open>open\<close> takes the segments of \<open>SharedReport\<close>, and elevator, callers
    and other readers run between any two of them.
  \<^item> \<open>ModuleInit\<close>: loading and unloading, the stub pointers and the three system
    call entries.
  \<^item> \<open>ModuleLife\<close>: \<open>elevator_init\<close> and \<open>elevator_exit\<close>
    in steps, the thread and the calls of any number of threads through the stubs, interleaved
    (\<open>lstep\<close>). While the module is loaded this machine is \<open>kstep\<close>, so that
    what holds in its reachable states holds in the loaded module. \<open>ModuleEnd\<close>: the exit
    comes to its end, within six segments of the thread.
  \<^item> \<open>LifeSteps\<close>: the same life over \<open>fstep\<close>, with the section of
    \<open>removeAllPassengers\<close> opened up as well (\<open>flstep\<close>); while the module is loaded
    this machine is \<open>fstep\<close>. \<open>LifeEnd\<close>: how such an unload ends, what it leaves
    allocated, and that it is clean when nobody is in a call. \<open>ReadersAtExit\<close>: the exit under
    readers of \<open>/proc/elevator\<close>.
  \<^item> \<open>SyscallEntry\<close>: the macros of \<open>syscalls.h\<close> with which the entries are
    defined, on 64-bit registers, and \<open>syscall\<close> over them.
  \<^item> \<open>UserPrograms\<close>: the wrappers, \<open>consumer\<close> and
    \<open>producer\<close>, and these programs run on the loaded module with the scheduler.
    \<open>Part1\<close>: the two programs of \<open>part1\<close>.
  \<^item> \<open>Timer\<close>: \<open>procfile_read\<close>, \<open>procfile_write\<close>,
    \<open>timer_init\<close> and \<open>timer_exit\<close> of the timer module, and sessions of
    reads against a reference. \<open>TimerRace\<close>: a read cut at the static variables it
    shares with other readers.

  \<^bold>\<open>What is shown.\<close> In every reachable state the lists, the allocator and the
  counters agree, every global has a value of its type, the capacity is kept, humans do not ride
  with zombies in an uninfected elevator, the flags agree whenever no thread stands between two of
  its assignments, and the thread does not fault. Each segment is an action of the specification's
  elevator or nothing. The critical sections exclude each other, no entry is freed twice whatever
  runs between the frees, and taking a section for one step loses no run and adds none. A passenger
  on board gets off at the destination within 111 segments, and from every reachable state the
  scheduler, left alone, serves everybody; so a load, \<open>consumer --start\<close> and any number
  of \<open>producer\<close>s end with everybody delivered. What these programs pass and get through 64-bit
  registers is what their model passes and gets, whatever the upper halves hold, and no content of
  the registers makes an entry fault. With requests coming in there is no such
  promise: two zombies a sweep keep a human waiting, the same entry of the queue, past any number of
  loadings on his floor. Loads and unloads keep all this, and
  an unload always ends; one that finds no call in flight leaves nothing behind, and any other
  just what the calls in flight have yet to free. A reader of
  \<open>/proc/elevator\<close> gets the text that the last \<open>open\<close> built, which is the report
  of the state if the elevator made no step meanwhile and can then be read back; an \<open>open\<close> that the
  elevator interrupts ends without a memory fault but for overrun buffers unless the very passenger
  it stands at boards, but its report may show one state in the header and another on the floors; and
  readers who take turns leave nothing behind, unless memory runs out. The theorems also settle what goes wrong: a stop loses the places of those it throws out, and
  with a full elevator ends all service; a stop that overtakes a request drops it without telling; a
  signal while waiting for the mutex releases a mutex that is not held; a reader of
  \<open>/proc/elevator\<close> is derailed by a passenger who boards under it; 41 passengers on a
  floor overflow its buffer; the lines of two readers mix in one buffer, which is freed twice; a
  call that overtakes the init locks a mutex on which \<open>mutex_init\<close> has not run, a failed load leaves the stubs
  dangling, and an unload under a call ends in a null call, in unmapped code or in a leak; an unload
  under two readers frees the report twice; the timer
  drops leading zeros, and two of its readers tear the elapsed time.

  \<^bold>\<open>Bounds.\<close> Requests are not limited by the code, so the counters may wrap: the
  properties of reachable states hold with the wrap-around, and the refinement and the service
  theorem ask for fewer than 2^32 passengers waiting. The bound of 18 rounds is the length of one
  sweep up and down; it counts twice for one who still waits, once for one who rides. 111 segments
  are six for each of at most 18 moves and the rest of the round in which the passenger boarded.

  The service theorem allows six segments to finish the round under way and seven for each of its
  rounds; the report of \<open>/proc/elevator\<close> takes 22 segments and one for each who waits.

  \<^bold>\<open>What is not modelled.\<close> Each access to a flag outside the mutex is one step,
  and so are the statements inside a critical section, which no other thread but an unlocked reader
  of \<open>/proc/elevator\<close> or of a single counter can see half done; memory is sequentially
  consistent. In \<open>ModuleLife\<close>, which is built on \<open>kstep\<close>, the frees after a section
  belong to it, so a thread in that loop while the module leaves counts as outside there; it is
  inside in \<open>LifeSteps\<close>. \<open>elevator_init\<close> is cut once, after the publication of the stubs.
  The header of the report is one segment, and so is a copy of the report to a reader. The texts
  given to \<open>printk\<close> are left out except in the two debugging printers. The registration
  of proc entries is a flag; \<open>srand\<close> only seeds the parameter.
  \<open>mutex_destroy\<close> does nothing outside debugging kernels and is left out. What
  \<open>remove_proc_entry\<close> closes, and how values get into the registers of a system call and to
  the \<open>long\<close> parameters of its entry, is the kernel's, the architecture's and the C library's: a
  parameter. \<open>syscalls.h\<close> is the kernel's own header; beyond the macros used by
  \<open>part3.c\<close> and the three added prototypes it has nothing to do with this program. An
  architecture may replace \<open>SYSCALL_DEFINE0\<close> and \<open>__SYSCALL_DEFINEx\<close> by its own
  (\<open>CONFIG_ARCH_HAS_SYSCALL_WRAPPER\<close>, as the \<open>__x64\<close> names in the table tell of
  x86); the model is of those in the header.
\<close>

end
